theory Spec2Isabelle
  imports Main "HOL-Library.Char_ord" "HOL-Library.List_Lexorder" "HOL-Library.Multiset"
begin

section \<open>The project tree of projectnodes.cpp\<close>

text \<open>
  The nodes of the project explorer are C++ objects that point at each other: a folder
  holds the lists of its children (\<open>QList<FileNode *>\<close>, \<open>QList<FolderNode *>\<close>), every
  node holds a pointer to its parent folder, \<open>trim\<close> is given a \<open>QSet<Node *>\<close> and the
  child lists are kept in the order of the pointers themselves. The model is therefore an
  explicit store: an address is a natural number (so that \<open><\<close> on pointers is \<open><\<close> on
  \<open>nat\<close>), \<open>nullptr\<close> is \<open>None\<close>, and the store maps the address of every live object
  to its fields. \<open>delete\<close> removes the object from the store.

  The class hierarchy Node, FileNode, FolderNode, VirtualFolderNode, ProjectNode,
  SessionNode is flattened into one record; \<open>m_nodeType\<close> tells which class an object
  belongs to and selects the override of a virtual member function.
\<close>

type_synonym addr = nat

type_synonym FileName = string

datatype NodeType = File | Folder | VirtualFolder | Project | Session

record Node =
  m_nodeType :: NodeType
  m_filePath :: FileName
  m_line :: int
  m_priority :: int
  m_isEnabled :: bool
  m_parentFolderNode :: "addr option"
  m_displayName :: string
  m_fileNodes :: "addr list"
  m_folderNodes :: "addr list"
  m_projectNodes :: "addr list"

type_synonym store = "addr \<rightharpoonup> Node"

text \<open>
  The calls on \<open>ProjectTree::instance()\<close> are the program's only output. Each call is
  recorded in a log, in the order of the calls. A sort-key notification hands the node to
  the observer, which reads the node at that moment: the entry records the path and the
  line the node has when the call is made.
\<close>

datatype event =
    NodeSortKeyAboutToChange addr FileName int
  | NodeSortKeyChanged addr FileName int
  | NodeUpdated addr
  | FilesAboutToBeAdded addr "addr list"
  | FilesAdded addr
  | FilesAboutToBeRemoved addr "addr list"
  | FilesRemoved addr
  | FoldersAboutToBeAdded addr "addr list"
  | FoldersAdded addr
  | FoldersAboutToBeRemoved addr "addr list"
  | FoldersRemoved addr

record tree_state =
  heap :: store
  events :: "event list"

text \<open>
  What the C++ leaves undefined or aborts on is an error value of the model:
  a member function called through a pointer to a deleted object, an iterator that
  runs past the end of its list, a failed \<open>Q_ASSERT\<close> (which aborts in a debug build; a
  release build compiles the check away, so a run of the model that passes every
  \<open>Q_ASSERT\<close> is a run of both builds), a recursion that needs more depth than the
  fuel it was given, and a walk along the parent pointers that does not return. \<open>QTC_ASSERT(cond, qDebug(...))\<close> only prints and goes on; it is no
  branch of the model.
\<close>

datatype error =
  DanglingPointer | NullPointer | IteratorPastEnd | AssertFailed | OutOfFuel | NoReturn

subsection \<open>Node\<close>

definition emit :: "event \<Rightarrow> tree_state \<Rightarrow> tree_state" where
  "emit e s = s\<lparr>events := events s @ [e]\<rparr>"

definition emitNodeSortKeyAboutToChange :: "addr \<Rightarrow> tree_state \<Rightarrow> error + tree_state" where
  "emitNodeSortKeyAboutToChange this s =
     (case heap s this of
        None \<Rightarrow> Inl DanglingPointer
      | Some n \<Rightarrow>
          if m_parentFolderNode n \<noteq> None
          then Inr (emit (NodeSortKeyAboutToChange this (m_filePath n) (m_line n)) s)
          else Inr s)"

definition emitNodeSortKeyChanged :: "addr \<Rightarrow> tree_state \<Rightarrow> error + tree_state" where
  "emitNodeSortKeyChanged this s =
     (case heap s this of
        None \<Rightarrow> Inl DanglingPointer
      | Some n \<Rightarrow>
          if m_parentFolderNode n \<noteq> None
          then Inr (emit (NodeSortKeyChanged this (m_filePath n) (m_line n)) s)
          else Inr s)"

definition emitNodeUpdated :: "addr \<Rightarrow> tree_state \<Rightarrow> error + tree_state" where
  "emitNodeUpdated this s =
     (case heap s this of
        None \<Rightarrow> Inl DanglingPointer
      | Some n \<Rightarrow>
          if m_parentFolderNode n \<noteq> None
          then Inr (emit (NodeUpdated this) s)
          else Inr s)"

text \<open>Sequencing of two steps, the second of which runs only if the first did not fail.\<close>

definition and_then :: "error + 'a \<Rightarrow> ('a \<Rightarrow> error + 'b) \<Rightarrow> error + 'b" where
  "and_then m f = (case m of Inl e \<Rightarrow> Inl e | Inr x \<Rightarrow> f x)"

definition setFields :: "addr \<Rightarrow> (Node \<Rightarrow> Node) \<Rightarrow> tree_state \<Rightarrow> error + tree_state" where
  "setFields this f s =
     (case heap s this of
        None \<Rightarrow> Inl DanglingPointer
      | Some n \<Rightarrow> Inr (s\<lparr>heap := (heap s)(this \<mapsto> f n)\<rparr>))"

definition setAbsoluteFilePathAndLine ::
  "addr \<Rightarrow> FileName \<Rightarrow> int \<Rightarrow> tree_state \<Rightarrow> error + tree_state" where
  "setAbsoluteFilePathAndLine this path line s =
     (case heap s this of
        None \<Rightarrow> Inl DanglingPointer
      | Some n \<Rightarrow>
          if m_filePath n = path \<and> m_line n = line then Inr s
          else
            and_then (emitNodeSortKeyAboutToChange this s) (\<lambda>s1.
            and_then (setFields this (\<lambda>n. n\<lparr>m_filePath := path, m_line := line\<rparr>) s1) (\<lambda>s2.
            and_then (emitNodeSortKeyChanged this s2) (\<lambda>s3.
            emitNodeUpdated this s3))))"

text \<open>
  \<open>Node::isEnabled\<close> follows the parent pointers. Nothing in the function bounds the
  walk, so it is a partial function: \<open>None\<close> is the walk that does not return (a cycle
  of parent pointers) or that reaches a deleted object.
\<close>

partial_function (option) isEnabled :: "store \<Rightarrow> addr \<Rightarrow> bool option" where
  "isEnabled h this =
     (case h this of
        None \<Rightarrow> None
      | Some n \<Rightarrow>
          if \<not> m_isEnabled n then Some False
          else (case m_parentFolderNode n of
                  None \<Rightarrow> Some True
                | Some parent \<Rightarrow> isEnabled h parent))"

declare isEnabled.simps [code]

text \<open>
  \<open>parentChain h a as\<close>: following \<open>m_parentFolderNode\<close> from the live node \<open>a\<close> visits
  exactly the nodes \<open>as\<close>, nearest first, and ends at a node without parent.
\<close>

fun parentChain :: "store \<Rightarrow> addr \<Rightarrow> addr list \<Rightarrow> bool" where
  "parentChain h a [] = (case h a of None \<Rightarrow> False | Some n \<Rightarrow> m_parentFolderNode n = None)"
| "parentChain h a (p # ps) =
     ((case h a of None \<Rightarrow> False | Some n \<Rightarrow> m_parentFolderNode n = Some p) \<and> parentChain h p ps)"

definition ownFlag :: "store \<Rightarrow> addr \<Rightarrow> bool" where
  "ownFlag h a = (case h a of None \<Rightarrow> False | Some n \<Rightarrow> m_isEnabled n)"

text \<open>
  \<open>asProjectNode()\<close> and \<open>asSessionNode()\<close> are virtual functions declared in
  projectnodes.h, which is not part of the sources at hand.
  Modelled from the spec: a ProjectNode is the node whose type is Project and a
  SessionNode the one whose type is Session, so the two casts succeed exactly on these.
\<close>

definition asProjectNode :: "Node \<Rightarrow> bool" where
  "asProjectNode n = (m_nodeType n = Project)"

definition asSessionNode :: "Node \<Rightarrow> bool" where
  "asSessionNode n = (m_nodeType n = Session)"

partial_function (option) parentProjectNode :: "store \<Rightarrow> addr \<Rightarrow> addr option option" where
  "parentProjectNode h this =
     (case h this of
        None \<Rightarrow> None
      | Some n \<Rightarrow>
          (case m_parentFolderNode n of
             None \<Rightarrow> Some None
           | Some parent \<Rightarrow>
               (case h parent of
                  None \<Rightarrow> None
                | Some pn \<Rightarrow>
                    if asProjectNode pn then Some (Some parent)
                    else parentProjectNode h parent)))"

declare parentProjectNode.simps [code]

definition managingProject :: "store \<Rightarrow> addr \<Rightarrow> addr option option" where
  "managingProject h this =
     (case h this of
        None \<Rightarrow> None
      | Some n \<Rightarrow>
          if asSessionNode n then Some None
          else (case parentProjectNode h this of
                  None \<Rightarrow> None
                | Some (Some pn) \<Rightarrow> Some (Some pn)
                | Some None \<Rightarrow> Some (if asProjectNode n then Some this else None)))"

text \<open>\<open>Q_ASSERT(managingProject())\<close>, the first statement of the four mutation primitives.\<close>

definition assertManagingProject :: "addr \<Rightarrow> tree_state \<Rightarrow> error + tree_state" where
  "assertManagingProject this s =
     (case managingProject (heap s) this of
        None \<Rightarrow> Inl NoReturn
      | Some None \<Rightarrow> Inl AssertFailed
      | Some (Some pn) \<Rightarrow> Inr s)"

definition Node_trim :: "addr set \<Rightarrow> addr \<Rightarrow> addr option" where
  "Node_trim keepers this = (if this \<in> keepers then None else Some this)"

subsection \<open>FolderNode: the sorted child lists\<close>

text \<open>
  \<open>std::lower_bound(begin, end, value)\<close> on a list of pointers, with the default
  comparison of the pointers: the binary search of the standard library, as the index of
  the position it returns.
\<close>

function lower_bound_from :: "addr list \<Rightarrow> addr \<Rightarrow> nat \<Rightarrow> nat \<Rightarrow> nat" where
  "lower_bound_from xs v first len =
     (if len = 0 then first
      else let half = len div 2; middle = first + half
           in if xs ! middle < v
              then lower_bound_from xs v (middle + 1) (len - half - 1)
              else lower_bound_from xs v first half)"
  by pat_completeness auto
termination
  by (relation "measure (\<lambda>(xs, v, first, len). len)") auto

declare lower_bound_from.simps [simp del]

definition lower_bound :: "addr list \<Rightarrow> addr \<Rightarrow> nat" where
  "lower_bound xs v = lower_bound_from xs v 0 (length xs)"

text \<open>
  The insertion of one pointer into \<open>m_fileNodes\<close> or \<open>m_folderNodes\<close>: appended when
  the list is empty or its last pointer is smaller, inserted at the lower bound otherwise.
\<close>

definition insertNode :: "addr list \<Rightarrow> addr \<Rightarrow> addr list" where
  "insertNode xs x =
     (if length xs = 0 \<or> last xs < x then xs @ [x]
      else let it = lower_bound xs x in take it xs @ [x] @ drop it xs)"

fun addFileNodes_loop :: "addr \<Rightarrow> addr list \<Rightarrow> tree_state \<Rightarrow> error + tree_state" where
  "addFileNodes_loop this [] s = Inr s"
| "addFileNodes_loop this (file # files) s =
     and_then (setFields file (\<lambda>n. n\<lparr>m_parentFolderNode := Some this\<rparr>) s) (\<lambda>s1.
     and_then (setFields this (\<lambda>n. n\<lparr>m_fileNodes := insertNode (m_fileNodes n) file\<rparr>) s1)
       (addFileNodes_loop this files))"

definition addFileNodes :: "addr \<Rightarrow> addr list \<Rightarrow> tree_state \<Rightarrow> error + tree_state" where
  "addFileNodes this files s =
     and_then (assertManagingProject this s) (\<lambda>s.
       if files = [] then Inr s
       else and_then (addFileNodes_loop this files (emit (FilesAboutToBeAdded this files) s))
              (\<lambda>s1. Inr (emit (FilesAdded this) s1)))"

fun addFolderNodes_loop :: "addr \<Rightarrow> addr list \<Rightarrow> tree_state \<Rightarrow> error + tree_state" where
  "addFolderNodes_loop this [] s = Inr s"
| "addFolderNodes_loop this (folder # subFolders) s =
     and_then (setFields folder (\<lambda>n. n\<lparr>m_parentFolderNode := Some this\<rparr>) s) (\<lambda>s1.
     and_then (setFields this (\<lambda>n. n\<lparr>m_folderNodes := insertNode (m_folderNodes n) folder\<rparr>) s1)
       (addFolderNodes_loop this subFolders))"

definition addFolderNodes :: "addr \<Rightarrow> addr list \<Rightarrow> tree_state \<Rightarrow> error + tree_state" where
  "addFolderNodes this subFolders s =
     and_then (assertManagingProject this s) (\<lambda>s.
       if subFolders = [] then Inr s
       else and_then
              (addFolderNodes_loop this subFolders (emit (FoldersAboutToBeAdded this subFolders) s))
              (\<lambda>s1. Inr (emit (FoldersAdded this) s1)))"

text \<open>
  The removal loops walk the child list with one iterator that only moves forward:
  \<open>while (*it != *toRemoveIter) ++it;\<close>. \<open>advance xs i r\<close> is the index at which that
  loop stops when it starts at index \<open>i\<close>, and \<open>None\<close> when it runs off the end of the
  list (the C++ then reads through the end iterator).
\<close>

fun index_of :: "addr \<Rightarrow> addr list \<Rightarrow> nat option" where
  "index_of r [] = None"
| "index_of r (x # xs) = (if x = r then Some 0 else map_option Suc (index_of r xs))"

definition advance :: "addr list \<Rightarrow> nat \<Rightarrow> addr \<Rightarrow> nat option" where
  "advance xs i r = map_option (\<lambda>k. i + k) (index_of r (drop i xs))"

definition erase :: "addr list \<Rightarrow> nat \<Rightarrow> addr list" where
  "erase xs i = take i xs @ drop (Suc i) xs"

text \<open>\<open>delete\<close> of a file node: the object leaves the store.\<close>

definition deleteFileNode :: "addr \<Rightarrow> tree_state \<Rightarrow> error + tree_state" where
  "deleteFileNode a s =
     (case heap s a of
        None \<Rightarrow> Inl DanglingPointer
      | Some n \<Rightarrow> Inr (s\<lparr>heap := (heap s)(a := None)\<rparr>))"

text \<open>
  \<open>delete\<close> of a folder node runs \<open>FolderNode::~FolderNode\<close>, which deletes the folder
  children and then the file children, each with its own subtree, before the object
  itself goes. The fuel bounds the depth of the subtree.
\<close>

fun foldM :: "('a \<Rightarrow> 's \<Rightarrow> error + 's) \<Rightarrow> 'a list \<Rightarrow> 's \<Rightarrow> error + 's" where
  "foldM f [] s = Inr s"
| "foldM f (x # xs) s = and_then (f x s) (foldM f xs)"

fun deleteNode :: "nat \<Rightarrow> addr \<Rightarrow> tree_state \<Rightarrow> error + tree_state" where
  "deleteNode 0 a s = Inl OutOfFuel"
| "deleteNode (Suc fuel) a s =
     (case heap s a of
        None \<Rightarrow> Inl DanglingPointer
      | Some n \<Rightarrow>
          and_then (foldM (deleteNode fuel) (m_folderNodes n) s) (\<lambda>s1.
          and_then (foldM (deleteNode fuel) (m_fileNodes n) s1) (\<lambda>s2.
          Inr (s2\<lparr>heap := (heap s2)(a := None)\<rparr>))))"

fun removeFileNodes_loop ::
  "addr \<Rightarrow> addr list \<Rightarrow> nat \<Rightarrow> tree_state \<Rightarrow> error + tree_state" where
  "removeFileNodes_loop this [] filesIter s = Inr s"
| "removeFileNodes_loop this (r # toRemove) filesIter s =
     (case heap s this of
        None \<Rightarrow> Inl DanglingPointer
      | Some n \<Rightarrow>
          (case advance (m_fileNodes n) filesIter r of
             None \<Rightarrow> Inl IteratorPastEnd
           | Some it \<Rightarrow>
               and_then (deleteFileNode r s) (\<lambda>s1.
               and_then (setFields this (\<lambda>n. n\<lparr>m_fileNodes := erase (m_fileNodes n) it\<rparr>) s1)
                 (removeFileNodes_loop this toRemove it))))"

definition removeFileNodes :: "addr \<Rightarrow> addr list \<Rightarrow> tree_state \<Rightarrow> error + tree_state" where
  "removeFileNodes this files s =
     and_then (assertManagingProject this s) (\<lambda>s.
       if files = [] then Inr s
       else let toRemove = sort files in
         and_then
           (removeFileNodes_loop this toRemove 0 (emit (FilesAboutToBeRemoved this toRemove) s))
           (\<lambda>s1. Inr (emit (FilesRemoved this) s1)))"

fun removeFolderNodes_loop ::
  "nat \<Rightarrow> addr \<Rightarrow> addr list \<Rightarrow> nat \<Rightarrow> tree_state \<Rightarrow> error + tree_state" where
  "removeFolderNodes_loop fuel this [] folderIter s = Inr s"
| "removeFolderNodes_loop fuel this (r # toRemove) folderIter s =
     (case heap s this of
        None \<Rightarrow> Inl DanglingPointer
      | Some n \<Rightarrow>
          (case advance (m_folderNodes n) folderIter r of
             None \<Rightarrow> Inl IteratorPastEnd
           | Some it \<Rightarrow>
               and_then (deleteNode fuel r s) (\<lambda>s1.
               and_then (setFields this (\<lambda>n. n\<lparr>m_folderNodes := erase (m_folderNodes n) it\<rparr>) s1)
                 (removeFolderNodes_loop fuel this toRemove it))))"

definition removeFolderNodes ::
  "nat \<Rightarrow> addr \<Rightarrow> addr list \<Rightarrow> tree_state \<Rightarrow> error + tree_state" where
  "removeFolderNodes fuel this subFolders s =
     and_then (assertManagingProject this s) (\<lambda>s.
       if subFolders = [] then Inr s
       else let toRemove = sort subFolders in
         and_then
           (removeFolderNodes_loop fuel this toRemove 0
              (emit (FoldersAboutToBeRemoved this toRemove) s))
           (\<lambda>s1. Inr (emit (FoldersRemoved this) s1)))"

subsection \<open>ProjectNode and SessionNode: removal of sub-projects\<close>

text \<open>
  Both loops advance one iterator over \<open>m_projectNodes\<close> and one over
  \<open>m_folderNodes\<close>. \<open>ProjectNode::removeProjectNodes\<close> deletes the project it has
  found before it erases the two entries; \<open>SessionNode::removeProjectNodes\<close> only
  erases the entries.
\<close>

fun ProjectNode_removeProjectNodes_loop ::
  "nat \<Rightarrow> addr \<Rightarrow> addr list \<Rightarrow> nat \<Rightarrow> nat \<Rightarrow> tree_state \<Rightarrow> error + tree_state" where
  "ProjectNode_removeProjectNodes_loop fuel this [] folderIter projectIter s = Inr s"
| "ProjectNode_removeProjectNodes_loop fuel this (r # toRemove) folderIter projectIter s =
     (case heap s this of
        None \<Rightarrow> Inl DanglingPointer
      | Some n \<Rightarrow>
          (case advance (m_projectNodes n) projectIter r of
             None \<Rightarrow> Inl IteratorPastEnd
           | Some pit \<Rightarrow>
               (case advance (m_folderNodes n) folderIter r of
                  None \<Rightarrow> Inl IteratorPastEnd
                | Some fit \<Rightarrow>
                    and_then (deleteNode fuel r s) (\<lambda>s1.
                    and_then (setFields this
                                (\<lambda>n. n\<lparr>m_projectNodes := erase (m_projectNodes n) pit,
                                        m_folderNodes := erase (m_folderNodes n) fit\<rparr>) s1)
                      (ProjectNode_removeProjectNodes_loop fuel this toRemove fit pit)))))"

definition ProjectNode_removeProjectNodes ::
  "nat \<Rightarrow> addr \<Rightarrow> addr list \<Rightarrow> tree_state \<Rightarrow> error + tree_state" where
  "ProjectNode_removeProjectNodes fuel this subProjects s =
     (if subProjects \<noteq> [] then
        let toRemove = sort subProjects in
          and_then
            (ProjectNode_removeProjectNodes_loop fuel this toRemove 0 0
               (emit (FoldersAboutToBeRemoved this toRemove) s))
            (\<lambda>s1. Inr (emit (FoldersRemoved this) s1))
      else Inr s)"

fun SessionNode_removeProjectNodes_loop ::
  "addr \<Rightarrow> addr list \<Rightarrow> nat \<Rightarrow> nat \<Rightarrow> tree_state \<Rightarrow> error + tree_state" where
  "SessionNode_removeProjectNodes_loop this [] folderIter projectIter s = Inr s"
| "SessionNode_removeProjectNodes_loop this (r # toRemove) folderIter projectIter s =
     (case heap s this of
        None \<Rightarrow> Inl DanglingPointer
      | Some n \<Rightarrow>
          (case advance (m_projectNodes n) projectIter r of
             None \<Rightarrow> Inl IteratorPastEnd
           | Some pit \<Rightarrow>
               (case advance (m_folderNodes n) folderIter r of
                  None \<Rightarrow> Inl IteratorPastEnd
                | Some fit \<Rightarrow>
                    and_then (setFields this
                                (\<lambda>n. n\<lparr>m_projectNodes := erase (m_projectNodes n) pit,
                                        m_folderNodes := erase (m_folderNodes n) fit\<rparr>) s)
                      (SessionNode_removeProjectNodes_loop this toRemove fit pit))))"

definition SessionNode_removeProjectNodes ::
  "addr \<Rightarrow> addr list \<Rightarrow> tree_state \<Rightarrow> error + tree_state" where
  "SessionNode_removeProjectNodes this projectNodes s =
     (if projectNodes \<noteq> [] then
        let toRemove = sort projectNodes in
          and_then
            (SessionNode_removeProjectNodes_loop this toRemove 0 0
               (emit (FoldersAboutToBeRemoved this toRemove) s))
            (\<lambda>s1. Inr (emit (FoldersRemoved this) s1))
      else Inr s)"

subsection \<open>trim\<close>

text \<open>
  \<open>Utils::transform(list, [&keepers](Node *n) { return n->trim(keepers); })\<close> calls
  \<open>trim\<close> on the children in the order of the list; each call may change the store.
  \<open>Utils::filtered(toTrim, [](const Node *n) { return n; })\<close> keeps the pointers that
  are not null.
\<close>

fun transform ::
  "('a \<Rightarrow> 's \<Rightarrow> error + ('b \<times> 's)) \<Rightarrow> 'a list \<Rightarrow> 's \<Rightarrow> error + ('b list \<times> 's)" where
  "transform f [] s = Inr ([], s)"
| "transform f (x # xs) s =
     and_then (f x s) (\<lambda>(y, s1).
     and_then (transform f xs s1) (\<lambda>(ys, s2). Inr (y # ys, s2)))"

definition filtered :: "addr option list \<Rightarrow> addr list" where
  "filtered toTrim = map the (filter (\<lambda>n. n \<noteq> None) toTrim)"

text \<open>
  \<open>FolderNode::trim\<close> and \<open>ProjectNode::trim\<close>, with the virtual call on a child as the
  parameter \<open>trimChild\<close>.
\<close>

definition FolderNode_trim ::
  "(addr \<Rightarrow> tree_state \<Rightarrow> error + (addr option \<times> tree_state)) \<Rightarrow> nat \<Rightarrow> addr set \<Rightarrow> addr \<Rightarrow>
     tree_state \<Rightarrow> error + (addr option \<times> tree_state)" where
  "FolderNode_trim trimChild fuel keepers this s =
     (case heap s this of
        None \<Rightarrow> Inl DanglingPointer
      | Some n \<Rightarrow>
          if this \<in> keepers then Inr (None, s)
          else
            and_then (transform trimChild (m_fileNodes n) s) (\<lambda>(toTrim, s1).
              let count = length toTrim;
                  toTrim = filtered toTrim;
                  keepThis = (count \<noteq> length toTrim)
              in
            and_then (removeFileNodes this toTrim s1) (\<lambda>s2.
            (case heap s2 this of
               None \<Rightarrow> Inl DanglingPointer
             | Some n2 \<Rightarrow>
                 and_then (transform trimChild (m_folderNodes n2) s2) (\<lambda>(toTrim, s3).
                   let count = length toTrim;
                       toTrim = filtered toTrim;
                       keepThis = (keepThis \<or> count \<noteq> length toTrim)
                   in
                 and_then (removeFolderNodes fuel this toTrim s3) (\<lambda>s4.
                 Inr (if keepThis then None else Some this, s4)))))))"

definition ProjectNode_trim ::
  "(addr \<Rightarrow> tree_state \<Rightarrow> error + (addr option \<times> tree_state)) \<Rightarrow> nat \<Rightarrow> addr set \<Rightarrow> addr \<Rightarrow>
     tree_state \<Rightarrow> error + (addr option \<times> tree_state)" where
  "ProjectNode_trim trimChild fuel keepers this s =
     (case heap s this of
        None \<Rightarrow> Inl DanglingPointer
      | Some n \<Rightarrow>
          if this \<in> keepers then Inr (None, s)
          else
            and_then (transform trimChild (m_projectNodes n) s) (\<lambda>(toTrim0, s1).
              let count = length toTrim0;
                  toTrim = filtered toTrim0
              in
            and_then (ProjectNode_removeProjectNodes fuel this toTrim s1) (\<lambda>s2.
            and_then (FolderNode_trim trimChild fuel keepers this s2) (\<lambda>(r, s3).
              if r = None then Inr (None, s3)
              else Inr (if length toTrim \<noteq> count then None else Some this, s3)))))"

text \<open>
  The virtual function \<open>trim\<close>: \<open>Node::trim\<close> for a file node, \<open>ProjectNode::trim\<close> for
  a project node, \<open>FolderNode::trim\<close> for the other folders (VirtualFolderNode and
  SessionNode do not override it). The fuel bounds the depth of the recursion.
\<close>

fun trim ::
  "nat \<Rightarrow> addr set \<Rightarrow> addr \<Rightarrow> tree_state \<Rightarrow> error + (addr option \<times> tree_state)" where
  "trim 0 keepers this s = Inl OutOfFuel"
| "trim (Suc fuel) keepers this s =
     (case heap s this of
        None \<Rightarrow> Inl DanglingPointer
      | Some n \<Rightarrow>
          if m_nodeType n = File then Inr (Node_trim keepers this, s)
          else if m_nodeType n = Project
               then ProjectNode_trim (trim fuel keepers) fuel keepers this s
               else FolderNode_trim (trim fuel keepers) fuel keepers this s)"

subsection \<open>Reading the state\<close>

text \<open>
  The getters \<open>fileNodes()\<close>, \<open>folderNodes()\<close>, \<open>projectNodes()\<close> and \<open>filePath()\<close>
  of the node at an address (the empty list where there is no object).
\<close>

definition fileNodes :: "tree_state \<Rightarrow> addr \<Rightarrow> addr list" where
  "fileNodes s this = (case heap s this of None \<Rightarrow> [] | Some n \<Rightarrow> m_fileNodes n)"

definition folderNodes :: "tree_state \<Rightarrow> addr \<Rightarrow> addr list" where
  "folderNodes s this = (case heap s this of None \<Rightarrow> [] | Some n \<Rightarrow> m_folderNodes n)"

definition projectNodes :: "tree_state \<Rightarrow> addr \<Rightarrow> addr list" where
  "projectNodes s this = (case heap s this of None \<Rightarrow> [] | Some n \<Rightarrow> m_projectNodes n)"

definition filePath :: "tree_state \<Rightarrow> addr \<Rightarrow> FileName" where
  "filePath s a = (case heap s a of None \<Rightarrow> [] | Some n \<Rightarrow> m_filePath n)"

text \<open>
  The two orders a child list can be sorted by: the order of the pointers, which
  \<open>insertNode\<close> and the removal loops work with, and the order of the paths
  (\<open>Node::sortByPath\<close>).
\<close>

definition childListsSorted :: "tree_state \<Rightarrow> addr \<Rightarrow> bool" where
  "childListsSorted s a = (sorted (fileNodes s a) \<and> sorted (folderNodes s a))"

definition fileNodesSortedByPath :: "tree_state \<Rightarrow> addr \<Rightarrow> bool" where
  "fileNodesSortedByPath s a = sorted (map (filePath s) (fileNodes s a))"

text \<open>A sequence of calls of the four mutation primitives, each on a folder of its own.\<close>

datatype mutation =
    AddFileNodes addr "addr list"
  | RemoveFileNodes addr "addr list"
  | AddFolderNodes addr "addr list"
  | RemoveFolderNodes addr "addr list"

fun mutate :: "nat \<Rightarrow> mutation \<Rightarrow> tree_state \<Rightarrow> error + tree_state" where
  "mutate fuel (AddFileNodes this files) s = addFileNodes this files s"
| "mutate fuel (RemoveFileNodes this files) s = removeFileNodes this files s"
| "mutate fuel (AddFolderNodes this subFolders) s = addFolderNodes this subFolders s"
| "mutate fuel (RemoveFolderNodes this subFolders) s = removeFolderNodes fuel this subFolders s"

subsection \<open>Example trees\<close>

definition mkNode ::
  "NodeType \<Rightarrow> FileName \<Rightarrow> bool \<Rightarrow> addr option \<Rightarrow> addr list \<Rightarrow> addr list \<Rightarrow> addr list \<Rightarrow> Node" where
  "mkNode t p e par fs ds ps =
     \<lparr>m_nodeType = t, m_filePath = p, m_line = -1, m_priority = 0,
      m_isEnabled = e, m_parentFolderNode = par, m_displayName = p,
      m_fileNodes = fs, m_folderNodes = ds, m_projectNodes = ps\<rparr>"

text \<open>A project at address 10 without children, and two file nodes that have no parent yet.\<close>

definition ex_unsorted :: tree_state where
  "ex_unsorted =
     \<lparr>heap = [10 \<mapsto> mkNode Project ''/p'' True None [] [] [],
              20 \<mapsto> mkNode File ''/p/b.cpp'' True None [] [] [],
              30 \<mapsto> mkNode File ''/p/a.cpp'' True None [] [] []],
      events = []\<rparr>"

text \<open>
  The project \<open>/p\<close> at 10 with the file \<open>/p/a.cpp\<close> at 30 and the folder \<open>/p/sub\<close>
  at 20, which holds the file \<open>/p/sub/b.cpp\<close> at 40. The folder is disabled.
\<close>

definition ex_tree :: tree_state where
  "ex_tree =
     \<lparr>heap = [10 \<mapsto> mkNode Project ''/p'' True None [30] [20] [],
              20 \<mapsto> mkNode Folder ''/p/sub'' False (Some 10) [40] [] [],
              30 \<mapsto> mkNode File ''/p/a.cpp'' True (Some 10) [] [] [],
              40 \<mapsto> mkNode File ''/p/sub/b.cpp'' True (Some 20) [] [] []],
      events = []\<rparr>"


subsection \<open>What the statements about trim and the removal loops speak of\<close>

text \<open>
  The walk of a removal loop on the list alone: for each pointer of \<open>toRemove\<close>, advance
  the iterator to it and erase it there.
\<close>

fun eraseEach :: "addr list \<Rightarrow> addr list \<Rightarrow> nat \<Rightarrow> addr list option" where
  "eraseEach xs [] it = Some xs"
| "eraseEach xs (r # toRemove) it =
     (case advance xs it r of
        None \<Rightarrow> None
      | Some it' \<Rightarrow> eraseEach (erase xs it') toRemove it')"

text \<open>The folder passes \<open>Q_ASSERT(managingProject())\<close>.\<close>

definition isManaged :: "store \<Rightarrow> addr \<Rightarrow> bool" where
  "isManaged h a = (case managingProject h a of Some (Some pn) \<Rightarrow> True | _ \<Rightarrow> False)"

text \<open>
  \<open>keepsAllLeaves n keepers h a\<close>: the subtree below \<open>a\<close> consists of live objects and is
  at most \<open>n\<close> levels deep; a node of it that has neither file nor folder children (a
  leaf) is in \<open>keepers\<close>; a node that has children is no file node, passes
  \<open>Q_ASSERT(managingProject())\<close> and, if it is a project node, has its sub-projects among
  its folder children.
\<close>

fun keepsAllLeaves :: "nat \<Rightarrow> addr set \<Rightarrow> store \<Rightarrow> addr \<Rightarrow> bool" where
  "keepsAllLeaves 0 keepers h a = False"
| "keepsAllLeaves (Suc n) keepers h a =
     (case h a of
        None \<Rightarrow> False
      | Some nd \<Rightarrow>
          if m_fileNodes nd @ m_folderNodes nd = [] then a \<in> keepers
          else m_nodeType nd \<noteq> File \<and> isManaged h a \<and>
               (m_nodeType nd = Project \<longrightarrow> set (m_projectNodes nd) \<subseteq> set (m_folderNodes nd)) \<and>
               list_all (keepsAllLeaves n keepers h) (m_fileNodes nd @ m_folderNodes nd))"


text \<open>
  The session at 5 holds the project \<open>/p\<close> at 10. The project has the two sub-projects
  \<open>/p/q\<close> at 20 and \<open>/p/r\<close> at 30; the first of them holds the file \<open>/p/q/a.cpp\<close> at 40.
\<close>

definition ex_projects :: tree_state where
  "ex_projects =
     \<lparr>heap = [5 \<mapsto> mkNode Session ''session'' True None [] [10] [10],
              10 \<mapsto> mkNode Project ''/p'' True (Some 5) [] [20, 30] [20, 30],
              20 \<mapsto> mkNode Project ''/p/q'' True (Some 10) [40] [] [],
              30 \<mapsto> mkNode Project ''/p/r'' True (Some 10) [] [] [],
              40 \<mapsto> mkNode File ''/p/q/a.cpp'' True (Some 20) [] [] []],
      events = []\<rparr>"


subsection \<open>FileNode::scanForFiles\<close>

text \<open>
  The scan reads the file system through \<open>QDir\<close> and \<open>QFileInfo\<close>, asks the version
  control system whether an entry is one of its own, creates the file nodes with the
  caller's \<open>factory\<close> and polls \<open>future->isCanceled()\<close>. These are parameters of the
  model:
  \<^item> \<open>canonicalPath fs d\<close> is \<open>QDir(d).canonicalPath()\<close>;
  \<^item> \<open>entryInfoList fs d\<close> is the list of the entries of \<open>d\<close>, each with its
    \<open>absoluteFilePath()\<close> and its \<open>isDir()\<close>;
  \<^item> \<open>vcsIgnores fs d e\<close> tells whether there is a version control for \<open>d\<close> and
    \<open>isVcsFileOrDirectory(e)\<close> holds;
  \<^item> \<open>isCanceled k\<close> is the answer of the poll number \<open>k\<close> (another thread sets the
    flag, so the answer depends on when the poll is made).

  The state of a scan is the set \<open>visited\<close>, the number of polls made so far, and two
  logs of what the scan has done to the outside: the directories whose entries it has
  read and the paths it has called the factory with, both in the order of the calls.
  The progress values (\<open>double\<close> arithmetic, \<open>setProgressValue\<close>) influence neither the
  recursion nor the list returned and are left out.
\<close>

record fileSystem =
  canonicalPath :: "FileName \<Rightarrow> string"
  entryInfoList :: "FileName \<Rightarrow> (FileName \<times> bool) list"
  vcsIgnores :: "FileName \<Rightarrow> FileName \<Rightarrow> bool"

record scan_state =
  visited :: "string set"
  polls :: nat
  listed :: "FileName list"
  created :: "FileName list"

text \<open>
  The loop over the entries of one directory; \<open>recurse\<close> is the recursive call for a
  subdirectory. The result is \<open>None\<close> when the recursion does not come back.
\<close>

fun scanEntries ::
  "(FileName \<Rightarrow> scan_state \<Rightarrow> ('f list \<times> scan_state) option) \<Rightarrow> fileSystem \<Rightarrow>
     (FileName \<Rightarrow> 'f) \<Rightarrow> (nat \<Rightarrow> bool) \<Rightarrow> FileName \<Rightarrow> (FileName \<times> bool) list \<Rightarrow>
     'f list \<Rightarrow> scan_state \<Rightarrow> ('f list \<times> scan_state) option" where
  "scanEntries recurse fs factory isCanceled directory [] result st = Some (result, st)"
| "scanEntries recurse fs factory isCanceled directory ((entryName, isDir) # entries) result st =
     (let canceled = isCanceled (polls st);
          st1 = st\<lparr>polls := Suc (polls st)\<rparr>
      in if canceled then Some (result, st1)
         else if \<not> vcsIgnores fs directory entryName then
           if isDir then
             (case recurse entryName st1 of
                None \<Rightarrow> None
              | Some (r, st2) \<Rightarrow>
                  scanEntries recurse fs factory isCanceled directory entries (result @ r) st2)
           else
             scanEntries recurse fs factory isCanceled directory entries
               (result @ [factory entryName]) (st1\<lparr>created := created st1 @ [entryName]\<rparr>)
         else scanEntries recurse fs factory isCanceled directory entries result st1)"

fun scanForFilesRecursively ::
  "nat \<Rightarrow> fileSystem \<Rightarrow> (FileName \<Rightarrow> 'f) \<Rightarrow> (nat \<Rightarrow> bool) \<Rightarrow> FileName \<Rightarrow> scan_state \<Rightarrow>
     ('f list \<times> scan_state) option" where
  "scanForFilesRecursively 0 fs factory isCanceled directory st = None"
| "scanForFilesRecursively (Suc fuel) fs factory isCanceled directory st =
     (let visitedCount = card (visited st);
          st1 = st\<lparr>visited := insert (canonicalPath fs directory) (visited st)\<rparr>
      in if visitedCount = card (visited st1) then Some ([], st1)
         else scanEntries (scanForFilesRecursively fuel fs factory isCanceled) fs factory
                isCanceled directory (entryInfoList fs directory) []
                (st1\<lparr>listed := listed st1 @ [directory]\<rparr>))"

definition scan_start :: scan_state where
  "scan_start = \<lparr>visited = {}, polls = 0, listed = [], created = []\<rparr>"

definition scanForFiles ::
  "nat \<Rightarrow> fileSystem \<Rightarrow> (FileName \<Rightarrow> 'f) \<Rightarrow> (nat \<Rightarrow> bool) \<Rightarrow> FileName \<Rightarrow> 'f list option" where
  "scanForFiles fuel fs factory isCanceled directory =
     map_option fst (scanForFilesRecursively fuel fs factory isCanceled directory scan_start)"

text \<open>
  A file system with a symlink cycle: every directory \<open>d\<close> holds the file \<open>d/f.txt\<close> and
  the directory \<open>d/loop\<close>, and every directory is, after the links are resolved, \<open>/a\<close>.
\<close>

definition ex_fs :: fileSystem where
  "ex_fs = \<lparr>canonicalPath = (\<lambda>d. ''/a''),
            entryInfoList = (\<lambda>d. [(d @ ''/f.txt'', False), (d @ ''/loop'', True), (d @ ''/g.txt'', False)]),
            vcsIgnores = (\<lambda>d e. False)\<rparr>"


text \<open>
  What holds of the state throughout a scan of a file system all of whose canonical
  directory paths lie in the finite set \<open>D\<close>: the canonical paths of the directories read
  so far are pairwise different, and they are exactly the set \<open>visited\<close>.
\<close>

definition scanInv :: "fileSystem \<Rightarrow> string set \<Rightarrow> scan_state \<Rightarrow> bool" where
  "scanInv fs D st \<longleftrightarrow>
     finite D \<and> visited st \<subseteq> D \<and> distinct (map (canonicalPath fs) (listed st)) \<and>
     set (map (canonicalPath fs) (listed st)) = visited st"


subsection \<open>FolderNode: recursiveFileNodes, recursiveFindOrCreateFolderNode, buildTree\<close>

fun appendAll :: "('a \<Rightarrow> error + 'b list) \<Rightarrow> 'a list \<Rightarrow> error + 'b list" where
  "appendAll f [] = Inr []"
| "appendAll f (x # xs) =
     and_then (f x) (\<lambda>r. and_then (appendAll f xs) (\<lambda>rs. Inr (r @ rs)))"

fun recursiveFileNodes :: "nat \<Rightarrow> store \<Rightarrow> addr \<Rightarrow> error + addr list" where
  "recursiveFileNodes 0 h this = Inl OutOfFuel"
| "recursiveFileNodes (Suc fuel) h this =
     (case h this of
        None \<Rightarrow> Inl DanglingPointer
      | Some n \<Rightarrow>
          and_then (appendAll (recursiveFileNodes fuel h) (m_folderNodes n))
            (\<lambda>rest. Inr (m_fileNodes n @ rest)))"

text \<open>
  \<open>FolderNode::folderNode(directory)\<close>: the first folder child whose path is
  \<open>directory\<close>; the search reads the path of each child it passes.
\<close>

fun findFolder :: "store \<Rightarrow> addr list \<Rightarrow> FileName \<Rightarrow> error + addr option" where
  "findFolder h [] directory = Inr None"
| "findFolder h (c # cs) directory =
     (case h c of
        None \<Rightarrow> Inl DanglingPointer
      | Some cd \<Rightarrow> if m_filePath cd = directory then Inr (Some c) else findFolder h cs directory)"

definition folderNode :: "tree_state \<Rightarrow> addr \<Rightarrow> FileName \<Rightarrow> error + addr option" where
  "folderNode s this directory =
     (case heap s this of
        None \<Rightarrow> Inl DanglingPointer
      | Some n \<Rightarrow> findFolder (heap s) (m_folderNodes n) directory)"

text \<open>
  What \<open>buildTree\<close> and \<open>recursiveFindOrCreateFolderNode\<close> take from Qt, from the C++
  library and from the headers is a parameter of the model:
  \<^item> \<open>sortedBy env key xs\<close> is \<open>Utils::sort(xs, Node::sortByPath)\<close>, where \<open>key\<close> gives
    the path of a node. \<open>std::sort\<close> leaves the order of nodes with equal paths open.
  \<^item> \<open>hashOrder env keys\<close> is the order in which the iteration over a \<open>QHash\<close> visits
    the keys that were inserted in the order \<open>keys\<close>.
  \<^item> \<open>relativeParts env path directory\<close> is the list \<open>parts\<close>: the segments of
    \<open>directory\<close> itself when \<open>path\<close> is empty or a root, and of
    \<open>QDir(path).relativeFilePath(directory)\<close> otherwise.
  \<^item> \<open>appendPath env path part\<close> is the path after \<open>path.appendPath(part)\<close>, and
    \<open>absolutePath env file\<close> is \<open>file.toFileInfo().absolutePath()\<close>.
  \<^item> \<open>defaultFolderPriority env\<close> is the constant \<open>DefaultFolderPriority\<close>.
  \<open>envOk\<close> says what the theorems need of the first two: sorting gives a permutation
  that is ascending in the key, and the iteration visits each key once.
\<close>

record env =
  sortedBy :: "(addr \<Rightarrow> FileName) \<Rightarrow> addr list \<Rightarrow> addr list"
  hashOrder :: "addr list \<Rightarrow> addr list"
  relativeParts :: "FileName \<Rightarrow> FileName \<Rightarrow> string list"
  appendPath :: "FileName \<Rightarrow> string \<Rightarrow> FileName"
  absolutePath :: "FileName \<Rightarrow> FileName"
  defaultFolderPriority :: int

definition envOk :: "env \<Rightarrow> bool" where
  "envOk env \<longleftrightarrow>
     (\<forall>key xs. mset (sortedBy env key xs) = mset xs \<and> sorted (map key (sortedBy env key xs))) \<and>
     (\<forall>keys. distinct keys \<longrightarrow> mset (hashOrder env keys) = mset keys)"

text \<open>
  \<open>new FolderNode(path)\<close> followed by \<open>setDisplayName(part)\<close>, which emits nothing
  because the new node has no parent. The constructor leaves the node enabled (the
  member initialiser of \<open>m_isEnabled\<close> in projectnodes.h).
\<close>

definition newFolderNode :: "env \<Rightarrow> FileName \<Rightarrow> string \<Rightarrow> Node" where
  "newFolderNode env path part =
     \<lparr>m_nodeType = Folder, m_filePath = path, m_line = -1,
      m_priority = defaultFolderPriority env, m_isEnabled = True,
      m_parentFolderNode = None, m_displayName = part,
      m_fileNodes = [], m_folderNodes = [], m_projectNodes = []\<rparr>"

text \<open>
  The loop of \<open>recursiveFindOrCreateFolderNode\<close> over \<open>parts\<close>. \<open>fresh\<close> is the list of
  the addresses that the calls of \<open>new\<close> return, in the order of the calls; the loop
  returns the folder it ends at, the addresses it has not used, and the state.
\<close>

fun findOrCreate_loop ::
  "env \<Rightarrow> string list \<Rightarrow> addr \<Rightarrow> FileName \<Rightarrow> addr list \<Rightarrow> tree_state \<Rightarrow>
     error + (addr \<times> addr list \<times> tree_state)" where
  "findOrCreate_loop env [] parent path fresh s = Inr (parent, fresh, s)"
| "findOrCreate_loop env (part # parts) parent path fresh s =
     (let path = appendPath env path part in
      and_then (folderNode s parent path) (\<lambda>next.
        case next of
          Some next \<Rightarrow> findOrCreate_loop env parts next path fresh s
        | None \<Rightarrow>
            (case fresh of
               [] \<Rightarrow> Inl OutOfFuel
             | tmp # fresh \<Rightarrow>
                 and_then
                   (addFolderNodes parent [tmp]
                      (s\<lparr>heap := (heap s)(tmp \<mapsto> newFolderNode env path part)\<rparr>))
                   (findOrCreate_loop env parts tmp path fresh))))"

definition recursiveFindOrCreateFolderNode ::
  "env \<Rightarrow> addr \<Rightarrow> FileName \<Rightarrow> FileName \<Rightarrow> addr list \<Rightarrow> tree_state \<Rightarrow>
     error + (addr \<times> addr list \<times> tree_state)" where
  "recursiveFindOrCreateFolderNode env this directory overrideBaseDir fresh s =
     (case heap s this of
        None \<Rightarrow> Inl DanglingPointer
      | Some n \<Rightarrow>
          let path = (if overrideBaseDir = [] then m_filePath n else overrideBaseDir)
          in findOrCreate_loop env (relativeParts env path directory) this path fresh s)"

text \<open>
  \<open>compareSortedLists\<close> and \<open>subtractSortedList\<close> are templates of projectnodes.h, which
  is not part of the sources at hand.
  Modelled from the spec: a merge-style comparison of the two sorted lists; a node of the
  old list whose path is smaller than the path at the head of the new list is only in
  the old list (deleted), a node of the new list whose path is smaller is only in the new
  list (added), and two nodes neither of which is smaller are present in both.
  The pair returned is (deleted, added).
\<close>

fun compareSortedLists ::
  "('a \<Rightarrow> 'a \<Rightarrow> bool) \<Rightarrow> 'a list \<Rightarrow> 'a list \<Rightarrow> 'a list \<times> 'a list" where
  "compareSortedLists sorter [] newList = ([], newList)"
| "compareSortedLists sorter (ol # oldList) [] = (ol # oldList, [])"
| "compareSortedLists sorter (ol # oldList) (nw # newList) =
     (if sorter ol nw then
        (case compareSortedLists sorter oldList (nw # newList) of
           (removed, added) \<Rightarrow> (ol # removed, added))
      else if sorter nw ol then
        (case compareSortedLists sorter (ol # oldList) newList of
           (removed, added) \<Rightarrow> (removed, nw # added))
      else compareSortedLists sorter oldList newList)"

text \<open>
  Modelled from the spec: the incoming nodes that are not added (their path is already
  present) are discarded.
\<close>

definition subtractSortedList :: "addr list \<Rightarrow> addr list \<Rightarrow> addr list" where
  "subtractSortedList list1 list2 = filter (\<lambda>f. f \<notin> set list2) list1"

definition sortByPath :: "store \<Rightarrow> addr \<Rightarrow> addr \<Rightarrow> bool" where
  "sortByPath h a b =
     ((case h a of None \<Rightarrow> [] | Some n \<Rightarrow> m_filePath n) <
      (case h b of None \<Rightarrow> [] | Some n \<Rightarrow> m_filePath n))"

definition pathOf :: "store \<Rightarrow> addr \<Rightarrow> FileName" where
  "pathOf h a = (case h a of None \<Rightarrow> [] | Some n \<Rightarrow> m_filePath n)"

text \<open>
  The first part of \<open>buildTree\<close>: the old list and the incoming list, both sorted by
  path, and the partitions \<open>deleted\<close> and \<open>added\<close>. The comparison reads the path of
  every node of both lists, so every node must be a live object.
\<close>

definition buildTree_partition ::
  "nat \<Rightarrow> env \<Rightarrow> addr \<Rightarrow> addr list \<Rightarrow> tree_state \<Rightarrow>
     error + (addr list \<times> addr list \<times> addr list)" where
  "buildTree_partition fuel env this files s =
     and_then (recursiveFileNodes fuel (heap s) this) (\<lambda>oldFiles.
       if \<exists>f \<in> set (oldFiles @ files). heap s f = None then Inl DanglingPointer
       else
         let oldFiles = sortedBy env (pathOf (heap s)) oldFiles;
             files = sortedBy env (pathOf (heap s)) files;
             (deleted, added) = compareSortedLists (sortByPath (heap s)) oldFiles files
         in Inr (files, deleted, added))"

text \<open>
  A \<open>QHash<FolderNode *, QList<FileNode *>>\<close> as the list of its entries in the order in
  which the keys were first inserted; \<open>hash[key] << fn\<close> is \<open>hashAppend\<close>.
\<close>

fun hashAppend :: "(addr \<times> addr list) list \<Rightarrow> addr \<Rightarrow> addr \<Rightarrow> (addr \<times> addr list) list" where
  "hashAppend [] key fn = [(key, [fn])]"
| "hashAppend ((k, v) # hash) key fn =
     (if k = key then (k, v @ [fn]) # hash else (k, v) # hashAppend hash key fn)"

definition hashEntries :: "env \<Rightarrow> (addr \<times> addr list) list \<Rightarrow> (addr \<times> addr list) list" where
  "hashEntries env hash =
     map (\<lambda>k. (k, case map_of hash k of None \<Rightarrow> [] | Some v \<Rightarrow> v))
       (hashOrder env (map fst hash))"

text \<open>The loop \<open>foreach (FileNode *fn, added)\<close> that finds or creates the folders.\<close>

fun buildTree_addedMapping ::
  "env \<Rightarrow> addr \<Rightarrow> FileName \<Rightarrow> addr list \<Rightarrow> (addr \<times> addr list) list \<Rightarrow> addr list \<Rightarrow>
     tree_state \<Rightarrow> error + ((addr \<times> addr list) list \<times> tree_state)" where
  "buildTree_addedMapping env this overrideBaseDir [] addedFolderMapping fresh s =
     Inr (addedFolderMapping, s)"
| "buildTree_addedMapping env this overrideBaseDir (fn # added) addedFolderMapping fresh s =
     (case heap s fn of
        None \<Rightarrow> Inl DanglingPointer
      | Some fd \<Rightarrow>
          and_then
            (recursiveFindOrCreateFolderNode env this (absolutePath env (m_filePath fd))
               overrideBaseDir fresh s)
            (\<lambda>(folder, fresh, s1).
               buildTree_addedMapping env this overrideBaseDir added
                 (hashAppend addedFolderMapping folder fn) fresh s1))"

text \<open>The loop \<open>foreach (FileNode *fn, deleted)\<close>; a file node without parent gives the key null.\<close>

fun buildTree_deletedMapping ::
  "store \<Rightarrow> addr list \<Rightarrow> (addr \<times> addr list) list \<Rightarrow> error + (addr \<times> addr list) list" where
  "buildTree_deletedMapping h [] deletedFolderMapping = Inr deletedFolderMapping"
| "buildTree_deletedMapping h (fn # deleted) deletedFolderMapping =
     (case h fn of
        None \<Rightarrow> Inl DanglingPointer
      | Some fd \<Rightarrow>
          (case m_parentFolderNode fd of
             None \<Rightarrow> Inl NullPointer
           | Some parent \<Rightarrow>
               buildTree_deletedMapping h deleted (hashAppend deletedFolderMapping parent fn)))"

text \<open>
  The loop \<open>while (parent->folderNodes().isEmpty() && parent->fileNodes().isEmpty())\<close>,
  entered with a \<open>parent\<close> that is not \<open>this\<close>.
\<close>

fun buildTree_removeEmpty :: "nat \<Rightarrow> addr \<Rightarrow> addr \<Rightarrow> tree_state \<Rightarrow> error + tree_state" where
  "buildTree_removeEmpty 0 this parent s = Inl OutOfFuel"
| "buildTree_removeEmpty (Suc fuel) this parent s =
     (case heap s parent of
        None \<Rightarrow> Inl DanglingPointer
      | Some pd \<Rightarrow>
          if m_folderNodes pd = [] \<and> m_fileNodes pd = [] then
            (case m_parentFolderNode pd of
               None \<Rightarrow> Inl NullPointer
             | Some grandparent \<Rightarrow>
                 and_then (removeFolderNodes (Suc fuel) grandparent [parent] s) (\<lambda>s1.
                   if grandparent = this then Inr s1
                   else buildTree_removeEmpty fuel this grandparent s1))
          else Inr s)"

definition buildTree_removeDeleted ::
  "nat \<Rightarrow> addr \<Rightarrow> addr \<times> addr list \<Rightarrow> tree_state \<Rightarrow> error + tree_state" where
  "buildTree_removeDeleted fuel this entry s =
     (case entry of (parent, fns) \<Rightarrow>
        and_then (removeFileNodes parent fns s) (\<lambda>s1.
          if parent = this then Inr s1
          else buildTree_removeEmpty fuel this parent s1))"

definition buildTree ::
  "nat \<Rightarrow> env \<Rightarrow> addr \<Rightarrow> addr list \<Rightarrow> FileName \<Rightarrow> addr list \<Rightarrow> tree_state \<Rightarrow>
     error + tree_state" where
  "buildTree fuel env this files overrideBaseDir fresh s =
     and_then (buildTree_partition fuel env this files s) (\<lambda>(files, deleted, added).
     and_then (foldM deleteFileNode (subtractSortedList files added) s) (\<lambda>s1.
     and_then (buildTree_addedMapping env this overrideBaseDir added [] fresh s1)
       (\<lambda>(addedFolderMapping, s2).
     and_then (foldM (\<lambda>(folder, fns). addFileNodes folder fns)
                 (hashEntries env addedFolderMapping) s2) (\<lambda>s3.
     and_then (buildTree_deletedMapping (heap s3) deleted []) (\<lambda>deletedFolderMapping.
       foldM (buildTree_removeDeleted fuel this) (hashEntries env deletedFolderMapping) s3)))))"

text \<open>
  An environment for the examples: paths are split at \<open>/\<close>, the relative path from a
  directory to one below it is the rest of the segments, sorting is insertion sort and
  the hash iterates in the order of insertion.
\<close>

fun splitPath :: "string \<Rightarrow> string \<Rightarrow> string list" where
  "splitPath cur [] = (if cur = [] then [] else [cur])"
| "splitPath cur (c # cs) =
     (if c = CHR ''/'' then (if cur = [] then splitPath [] cs else cur # splitPath [] cs)
      else splitPath (cur @ [c]) cs)"

fun joinPath :: "string list \<Rightarrow> string" where
  "joinPath [] = []"
| "joinPath (p # ps) = CHR ''/'' # p @ joinPath ps"

definition ex_env :: env where
  "ex_env =
     \<lparr>sortedBy = (\<lambda>key xs. sort_key key xs),
      hashOrder = (\<lambda>keys. keys),
      relativeParts = (\<lambda>path directory.
         drop (length (splitPath [] path)) (splitPath [] directory)),
      appendPath = (\<lambda>path part. path @ CHR ''/'' # part),
      absolutePath = (\<lambda>file. joinPath (butlast (splitPath [] file))),
      defaultFolderPriority = 200000\<rparr>"

text \<open>
  The tree of \<open>ex_tree\<close> with the folder enabled, and beside it three file nodes that
  belong to no folder yet: \<open>/p/a.cpp\<close> at 50, \<open>/p/sub/b.cpp\<close> at 60 and
  \<open>/p/new/deep/c.cpp\<close> at 70.
\<close>

definition ex_build :: tree_state where
  "ex_build =
     \<lparr>heap = [10 \<mapsto> mkNode Project ''/p'' True None [30] [20] [],
              20 \<mapsto> mkNode Folder ''/p/sub'' True (Some 10) [40] [] [],
              30 \<mapsto> mkNode File ''/p/a.cpp'' True (Some 10) [] [] [],
              40 \<mapsto> mkNode File ''/p/sub/b.cpp'' True (Some 20) [] [] [],
              50 \<mapsto> mkNode File ''/p/a.cpp'' True None [] [] [],
              60 \<mapsto> mkNode File ''/p/sub/b.cpp'' True None [] [] [],
              70 \<mapsto> mkNode File ''/p/new/deep/c.cpp'' True None [] [] []],
      events = []\<rparr>"


subsection \<open>What the statements about buildTree speak of\<close>

text \<open>
  \<open>hasParent h c p\<close>: the object at \<open>c\<close> is live and its parent pointer is \<open>p\<close>.
\<close>

definition hasParent :: "store \<Rightarrow> addr \<Rightarrow> addr \<Rightarrow> bool" where
  "hasParent h c p = (case h c of None \<Rightarrow> False | Some n \<Rightarrow> m_parentFolderNode n = Some p)"

text \<open>
  \<open>onlyChildChain h c qs g\<close>: going up from \<open>c\<close> by the parent pointers one passes the
  folders \<open>qs\<close>, nearest first, and then arrives at \<open>g\<close>; each folder of \<open>qs\<close> has the
  node one came from as its only child, a file or a folder.
\<close>

fun onlyChildChain :: "store \<Rightarrow> addr \<Rightarrow> addr list \<Rightarrow> addr \<Rightarrow> bool" where
  "onlyChildChain h c [] g = hasParent h c g"
| "onlyChildChain h c (q # qs) g =
     (hasParent h c q \<and>
      (case h q of None \<Rightarrow> False | Some qd \<Rightarrow> m_fileNodes qd @ m_folderNodes qd = [c]) \<and>
      onlyChildChain h q qs g)"

text \<open>
  \<open>shrinks s s'\<close>: from \<open>s\<close> to \<open>s'\<close> objects are only deleted, and nothing is emitted.
\<close>

definition shrinks :: "tree_state \<Rightarrow> tree_state \<Rightarrow> bool" where
  "shrinks s s' = (events s' = events s \<and> (\<forall>b. heap s' b = None \<or> heap s' b = heap s b))"



subsection \<open>The tree below a folder\<close>

text \<open>
  The statements about \<open>buildTree\<close> speak of the part of the store that is reachable from
  the folder it is called on. \<open>FTree a fs ts\<close> stands for a folder at address \<open>a\<close> with
  the file nodes \<open>fs\<close> and the sub-folders \<open>ts\<close>, each in the order of the child list.
  \<open>nodes\<close>, \<open>folders\<close> and \<open>allFiles\<close> list the addresses of a tree, and \<open>allFiles\<close> does
  so in the order of \<open>recursiveFileNodes\<close>.
\<close>

datatype ftree = FTree (root: addr) (ownFiles: "addr list") (subs: "ftree list")

fun nodes :: "ftree \<Rightarrow> addr list" where
  "nodes (FTree a fs ts) = a # fs @ concat (map nodes ts)"

fun folders :: "ftree \<Rightarrow> addr list" where
  "folders (FTree a fs ts) = a # concat (map folders ts)"

fun allFiles :: "ftree \<Rightarrow> addr list" where
  "allFiles (FTree a fs ts) = fs @ concat (map allFiles ts)"

fun height :: "ftree \<Rightarrow> nat" where
  "height (FTree a fs ts) = Suc (fold max (map height ts) 0)"

text \<open>
  \<open>repr h t\<close>: the store holds the tree \<open>t\<close>. Every folder of \<open>t\<close> is a live object whose
  \<open>m_fileNodes\<close> and \<open>m_folderNodes\<close> are the children that \<open>t\<close> gives it, and every child
  points back at its folder. \<open>treeAt h this t\<close>: moreover \<open>t\<close> starts at \<open>this\<close> and no
  address occurs twice in it.
\<close>

fun repr :: "store \<Rightarrow> ftree \<Rightarrow> bool" where
  "repr h (FTree a fs ts) =
     (case h a of
        None \<Rightarrow> False
      | Some nd \<Rightarrow>
          m_fileNodes nd = fs \<and> m_folderNodes nd = map root ts \<and>
          (\<forall>f \<in> set fs. hasParent h f a) \<and>
          (\<forall>t \<in> set ts. repr h t \<and> hasParent h (root t) a))"

definition treeAt :: "store \<Rightarrow> addr \<Rightarrow> ftree \<Rightarrow> bool" where
  "treeAt h this t \<longleftrightarrow> repr h t \<and> root t = this \<and> distinct (nodes t)"

text \<open>
  \<open>subtreeAt p t\<close> is the subtree of \<open>t\<close> that starts at the folder \<open>p\<close>, and
  \<open>replace p tp t\<close> is \<open>t\<close> with \<open>tp\<close> in its place.
\<close>

fun firstSome :: "'a option list \<Rightarrow> 'a option" where
  "firstSome [] = None"
| "firstSome (None # xs) = firstSome xs"
| "firstSome (Some x # xs) = Some x"

fun subtreeAt :: "addr \<Rightarrow> ftree \<Rightarrow> ftree option" where
  "subtreeAt p (FTree a fs ts) =
     (if a = p then Some (FTree a fs ts) else firstSome (map (subtreeAt p) ts))"

fun replace :: "addr \<Rightarrow> ftree \<Rightarrow> ftree \<Rightarrow> ftree" where
  "replace p tp' (FTree a fs ts) =
     (if a = p then tp' else FTree a fs (map (replace p tp') ts))"

text \<open>
  \<open>keeps X h h'\<close>: every object of \<open>h'\<close> outside \<open>X\<close> was an object of \<open>h\<close> already and
  has the path it had there.
\<close>

definition keeps :: "addr set \<Rightarrow> store \<Rightarrow> store \<Rightarrow> bool" where
  "keeps X h h' \<longleftrightarrow>
     (\<forall>a n'. a \<notin> X \<longrightarrow> h' a = Some n' \<longrightarrow> (\<exists>n. h a = Some n \<and> m_filePath n' = m_filePath n))"

text \<open>
  \<open>ex_build\<close> with two more file nodes that belong to no folder: \<open>/p/sub/b.cpp\<close> at 80
  and \<open>/p/new/deep/c.cpp\<close> at 90.
\<close>

definition ex_build2 :: tree_state where
  "ex_build2 =
     ex_build\<lparr>heap := (heap ex_build)
       (80 \<mapsto> mkNode File ''/p/sub/b.cpp'' True None [] [] [],
        90 \<mapsto> mkNode File ''/p/new/deep/c.cpp'' True None [] [] [])\<rparr>"



text \<open>
  \<open>fileLeaves h t\<close>: the file nodes of the tree are live objects without children of
  their own, as file nodes are.
\<close>

definition fileLeaves :: "store \<Rightarrow> ftree \<Rightarrow> bool" where
  "fileLeaves h t \<longleftrightarrow>
     list_all (\<lambda>f. case h f of None \<Rightarrow> False
                     | Some fd \<Rightarrow> m_fileNodes fd = [] \<and> m_folderNodes fd = []) (allFiles t)"



subsection \<open>The directory-entry boundaries of a scan\<close>

text \<open>
  What a scan that nobody cancels goes through, as a list: one step for each directory
  entry, in the order in which the loops meet the entries, with the steps of a
  subdirectory right after the step that enters it. A step says what is done with the
  entry: the factory is called, the directory is entered (which yields nothing for a
  directory whose canonical path was visited before), or version control has the scan
  ignore it. \<open>entryBoundaries\<close> also returns the canonical paths visited.
  \<open>createdBefore k steps\<close> lists the entries for which the factory is called among the
  first \<open>k\<close> steps.
\<close>

datatype entryStep = CreatedFile FileName | EnteredDir FileName | IgnoredEntry FileName



fun createdFiles :: "entryStep list \<Rightarrow> FileName list" where
  "createdFiles [] = []"
| "createdFiles (CreatedFile e # steps) = e # createdFiles steps"
| "createdFiles (EnteredDir e # steps) = createdFiles steps"
| "createdFiles (IgnoredEntry e # steps) = createdFiles steps"

definition createdBefore :: "nat \<Rightarrow> entryStep list \<Rightarrow> FileName list" where
  "createdBefore k steps = createdFiles (take k steps)"





text \<open>
  \<open>spine n\<close>: the type of a node and its parent pointer, which is all that
  \<open>managingProject()\<close> reads of the nodes it passes.
  \<open>soleFolderChild h c qs\<close>: the folders \<open>qs\<close>, going up from the folder \<open>c\<close>, have
  no file and have the folder one came from as their only sub-folder.
\<close>

definition spine :: "Node \<Rightarrow> NodeType \<times> addr option" where
  "spine n = (m_nodeType n, m_parentFolderNode n)"

fun soleFolderChild :: "store \<Rightarrow> addr \<Rightarrow> addr list \<Rightarrow> bool" where
  "soleFolderChild h c [] = True"
| "soleFolderChild h c (q # qs) =
     ((case h q of None \<Rightarrow> False | Some qd \<Rightarrow> m_fileNodes qd = [] \<and> m_folderNodes qd = [c]) \<and>
      soleFolderChild h q qs)"


section \<open>Properties\<close>

subsection \<open>Node::setAbsoluteFilePathAndLine\<close>

lemma and_then_Inr [simp]: "and_then (Inr x) f = f x"
  by (simp add: and_then_def)

lemma and_then_Inl [simp]: "and_then (Inl e) f = Inl e"
  by (simp add: and_then_def)

text \<open>
  C10. Called with the path and the line the node already has,
  \<open>setAbsoluteFilePathAndLine\<close> returns the state it was given: no field and no
  notification changes. Called with another path or line on a node that has a parent, it
  stores both and appends exactly three notifications: sort key about to change, emitted
  while the node still shows the old path and line, then sort key changed, emitted when
  it shows the new ones, then node updated. On a node without parent it stores both and
  emits nothing. (Where there is no condition on the parent, every notification of the
  call is emitted only when path or line differ.)
\<close>

theorem setAbsoluteFilePathAndLine_frame:
  "heap s this = Some n \<Longrightarrow>
     (m_filePath n = path \<and> m_line n = line \<longrightarrow>
        setAbsoluteFilePathAndLine this path line s = Inr s) \<and>
     (\<not> (m_filePath n = path \<and> m_line n = line) \<longrightarrow>
        setAbsoluteFilePathAndLine this path line s =
          Inr \<lparr>heap = (heap s)(this \<mapsto> n\<lparr>m_filePath := path, m_line := line\<rparr>),
               events = events s @
                 (if m_parentFolderNode n = None then []
                  else [NodeSortKeyAboutToChange this (m_filePath n) (m_line n),
                        NodeSortKeyChanged this path line,
                        NodeUpdated this])\<rparr>)"
  by (auto simp: setAbsoluteFilePathAndLine_def emitNodeSortKeyAboutToChange_def
      emitNodeSortKeyChanged_def emitNodeUpdated_def setFields_def emit_def)


theorem setAbsoluteFilePathAndLine_frame_witness:
  "heap ex_tree 30 = Some (mkNode File ''/p/a.cpp'' True (Some 10) [] [] []) \<and>
   setAbsoluteFilePathAndLine 30 ''/p/a.cpp'' (-1) ex_tree = Inr ex_tree \<and>
   setAbsoluteFilePathAndLine 30 ''/p/c.cpp'' 7 ex_tree =
     Inr \<lparr>heap = (heap ex_tree)(30 \<mapsto> mkNode File ''/p/a.cpp'' True (Some 10) [] [] []
                       \<lparr>m_filePath := ''/p/c.cpp'', m_line := 7\<rparr>),
          events = events ex_tree @
            [NodeSortKeyAboutToChange 30 ''/p/a.cpp'' (-1),
             NodeSortKeyChanged 30 ''/p/c.cpp'' 7,
             NodeUpdated 30]\<rparr>"
proof -
  have h: "heap ex_tree 30 = Some (mkNode File ''/p/a.cpp'' True (Some 10) [] [] [])"
    by (simp add: ex_tree_def)
  from setAbsoluteFilePathAndLine_frame[OF h, of "''/p/a.cpp''" "-1"]
       setAbsoluteFilePathAndLine_frame[OF h, of "''/p/c.cpp''" 7] h
  show ?thesis by (simp add: mkNode_def)
qed

subsection \<open>Node::isEnabled\<close>

lemma isEnabled_chain_aux:
  "parentChain h this as \<Longrightarrow> isEnabled h this = Some (\<forall>a \<in> set (this # as). ownFlag h a)"
proof (induction as arbitrary: this)
  case Nil
  then show ?case
    by (subst isEnabled.simps) (auto simp: ownFlag_def split: option.splits)
next
  case (Cons p ps)
  from Cons.prems have ch: "parentChain h p ps" by simp
  from Cons.prems obtain n where n: "h this = Some n" "m_parentFolderNode n = Some p"
    by (auto split: option.splits)
  have "isEnabled h this = (if \<not> m_isEnabled n then Some False else isEnabled h p)"
    by (subst isEnabled.simps) (simp add: n)
  with Cons.IH[OF ch] n show ?case
    by (auto simp: ownFlag_def)
qed

lemma parentChain_suffix:
  "parentChain h this as \<Longrightarrow> p \<in> set as \<Longrightarrow>
     \<exists>bs. parentChain h p bs \<and> set (p # bs) \<subseteq> set as"
proof (induction as arbitrary: this)
  case Nil
  then show ?case by simp
next
  case (Cons q qs)
  show ?case
  proof (cases "p = q")
    case True
    with Cons.prems show ?thesis by auto
  next
    case False
    with Cons.prems have "parentChain h q qs" "p \<in> set qs" by auto
    from Cons.IH[OF this] show ?thesis by auto
  qed
qed

text \<open>
  C9. For a node whose parent pointers lead, through the nodes \<open>as\<close>, to a node without
  parent, \<open>isEnabled()\<close> returns, and it returns the conjunction of the own flags of the
  node and of all its ancestors. So it returns true exactly when the own flag is set and
  \<open>isEnabled()\<close> returns true on every ancestor, and false as soon as the node or one
  ancestor is disabled.
\<close>

theorem isEnabled_conjunctive:
  assumes "parentChain h this as"
  shows "isEnabled h this = Some (\<forall>a \<in> set (this # as). ownFlag h a) \<and>
         (isEnabled h this = Some True \<longleftrightarrow>
            ownFlag h this \<and> (\<forall>p \<in> set as. isEnabled h p = Some True))"
proof -
  have 1: "isEnabled h this = Some (\<forall>a \<in> set (this # as). ownFlag h a)"
    by (rule isEnabled_chain_aux[OF assms])
  have 2: "(\<forall>p \<in> set as. isEnabled h p = Some True) \<longleftrightarrow> (\<forall>a \<in> set as. ownFlag h a)"
  proof
    assume L: "\<forall>p \<in> set as. isEnabled h p = Some True"
    show "\<forall>a \<in> set as. ownFlag h a"
    proof
      fix a assume a: "a \<in> set as"
      from parentChain_suffix[OF assms a] obtain bs where bs: "parentChain h a bs" by blast
      from isEnabled_chain_aux[OF bs] L a show "ownFlag h a" by simp
    qed
  next
    assume R: "\<forall>a \<in> set as. ownFlag h a"
    show "\<forall>p \<in> set as. isEnabled h p = Some True"
    proof
      fix p assume p: "p \<in> set as"
      from parentChain_suffix[OF assms p] obtain bs
        where bs: "parentChain h p bs" "set (p # bs) \<subseteq> set as" by blast
      from isEnabled_chain_aux[OF bs(1)] R bs(2) show "isEnabled h p = Some True" by auto
    qed
  qed
  from 1 2 show ?thesis by auto
qed

theorem isEnabled_conjunctive_witness:
  "parentChain (heap ex_tree) 40 [20, 10] \<and> ownFlag (heap ex_tree) 40 \<and>
   \<not> ownFlag (heap ex_tree) 20 \<and> isEnabled (heap ex_tree) 40 = Some False \<and>
   isEnabled (heap ex_tree) 30 = Some True"
proof -
  have 1: "parentChain (heap ex_tree) 40 [20, 10]" by code_simp
  have 2: "parentChain (heap ex_tree) 30 [10]" by code_simp
  have 3: "ownFlag (heap ex_tree) 40" "\<not> ownFlag (heap ex_tree) 20"
    "ownFlag (heap ex_tree) 30" "ownFlag (heap ex_tree) 10" by code_simp+
  from isEnabled_conjunctive[OF 1] isEnabled_conjunctive[OF 2] 1 3 show ?thesis by simp
qed

subsection \<open>The order of the child lists\<close>

lemma lower_bound_from_spec:
  "sorted xs \<Longrightarrow> first + len \<le> length xs \<Longrightarrow>
   (\<forall>i < first. xs ! i < v) \<Longrightarrow>
   (\<forall>i. first + len \<le> i \<and> i < length xs \<longrightarrow> v \<le> xs ! i) \<Longrightarrow>
   lower_bound_from xs v first len \<le> length xs \<and>
   (\<forall>i < lower_bound_from xs v first len. xs ! i < v) \<and>
   (\<forall>i. lower_bound_from xs v first len \<le> i \<and> i < length xs \<longrightarrow> v \<le> xs ! i)"
proof (induction xs v first len rule: lower_bound_from.induct)
  case (1 xs v first len)
  show ?case
  proof (cases "len = 0")
    case True
    then have "lower_bound_from xs v first len = first"
      by (subst lower_bound_from.simps) simp
    with "1.prems" True show ?thesis by simp
  next
    case False
    define half where "half = len div 2"
    define middle where "middle = first + half"
    have hl: "half < len" using False by (simp add: half_def)
    have mid: "middle < length xs" using hl "1.prems"(2) by (simp add: middle_def)
    show ?thesis
    proof (cases "xs ! middle < v")
      case True
      have below: "\<forall>i < middle + 1. xs ! i < v"
      proof (intro allI impI)
        fix i assume "i < middle + 1"
        then have "i \<le> middle" by simp
        with \<open>sorted xs\<close> mid have "xs ! i \<le> xs ! middle" by (simp add: sorted_nth_mono)
        with True show "xs ! i < v" by simp
      qed
      have eq: "lower_bound_from xs v first len = lower_bound_from xs v (middle + 1) (len - half - 1)"
        using False True by (subst lower_bound_from.simps) (simp add: half_def middle_def Let_def)
      have "middle + 1 + (len - half - 1) = first + len" using hl by (simp add: middle_def)
      with "1.IH"(1)[OF False half_def middle_def True \<open>sorted xs\<close> _ below] "1.prems" eq
      show ?thesis by simp
    next
      case F2: False
      have above: "\<forall>i. first + half \<le> i \<and> i < length xs \<longrightarrow> v \<le> xs ! i"
      proof (intro allI impI)
        fix i assume "first + half \<le> i \<and> i < length xs"
        then have "xs ! middle \<le> xs ! i" using \<open>sorted xs\<close> by (simp add: sorted_nth_mono middle_def)
        with F2 show "v \<le> xs ! i" by simp
      qed
      have eq: "lower_bound_from xs v first len = lower_bound_from xs v first half"
        using False F2 by (subst lower_bound_from.simps) (simp add: half_def middle_def Let_def)
      have "first + half \<le> length xs" using hl "1.prems"(2) by simp
      with "1.IH"(2)[OF False half_def middle_def F2 \<open>sorted xs\<close> _ "1.prems"(3) above] eq
      show ?thesis by simp
    qed
  qed
qed

lemma lower_bound_spec:
  assumes "sorted xs"
  shows "lower_bound xs v \<le> length xs"
    and "\<forall>i < lower_bound xs v. xs ! i < v"
    and "\<forall>i. lower_bound xs v \<le> i \<and> i < length xs \<longrightarrow> v \<le> xs ! i"
  using lower_bound_from_spec[OF assms, of 0 "length xs" v] by (simp_all add: lower_bound_def)

lemma sorted_insert_at:
  assumes "sorted xs" "k \<le> length xs" "\<forall>i < k. xs ! i < (v::nat)" "\<forall>i. k \<le> i \<and> i < length xs \<longrightarrow> v \<le> xs ! i"
  shows "sorted (take k xs @ [v] @ drop k xs)"
proof -
  have 1: "\<forall>x \<in> set (take k xs). x \<le> v"
  proof
    fix x assume "x \<in> set (take k xs)"
    then obtain i where "i < length (take k xs)" "take k xs ! i = x" by (auto simp: in_set_conv_nth)
    with assms(3) show "x \<le> v" by (auto simp: less_imp_le)
  qed
  have 2: "\<forall>x \<in> set (drop k xs). v \<le> x"
  proof
    fix x assume "x \<in> set (drop k xs)"
    then obtain i where i: "i < length (drop k xs)" "drop k xs ! i = x" by (auto simp: in_set_conv_nth)
    then have "x = xs ! (k + i)" "k + i < length xs" using assms(2) by auto
    with assms(4) show "v \<le> x" by auto
  qed
  have 3: "sorted (take k xs)" "sorted (drop k xs)" using assms(1) by (simp_all add: sorted_wrt_take sorted_wrt_drop)
  have 4: "\<forall>x \<in> set (take k xs). \<forall>y \<in> set (drop k xs). x \<le> y" using 1 2 by fastforce
  from 1 2 3 4 show ?thesis by (auto simp: sorted_append)
qed

lemma sorted_insertNode: "sorted xs \<Longrightarrow> sorted (insertNode xs x)"
proof -
  assume s: "sorted xs"
  show ?thesis
  proof (cases "length xs = 0 \<or> last xs < x")
    case True
    then show ?thesis
    proof
      assume "length xs = 0" then show ?thesis by (simp add: insertNode_def)
    next
      assume l: "last xs < x"
      show ?thesis
      proof (cases "xs = []")
        case True then show ?thesis by (simp add: insertNode_def)
      next
        case False
        have "\<forall>y \<in> set xs. y \<le> last xs"
        proof
          fix y assume "y \<in> set xs"
          then obtain i where "i < length xs" "xs ! i = y" by (auto simp: in_set_conv_nth)
          with s False show "y \<le> last xs" by (auto simp: last_conv_nth sorted_nth_mono)
        qed
        with l s show ?thesis by (auto simp: insertNode_def sorted_append)
      qed
    qed
  next
    case False
    then show ?thesis
      using sorted_insert_at[OF s lower_bound_spec[OF s, of x]]
      by (simp add: insertNode_def Let_def)
  qed
qed

lemma set_insertNode: "set (insertNode xs x) = insert x (set xs)"
proof -
  have "set (take k xs) \<union> set (drop k xs) = set xs" for k
    by (metis append_take_drop_id set_append)
  then show ?thesis by (auto simp: insertNode_def Let_def)
qed

lemma mset_insertNode: "mset (insertNode xs x) = add_mset x (mset xs)"
proof -
  have "mset (take k xs) + mset (drop k xs) = mset xs" for k
    by (metis append_take_drop_id mset_append)
  then show ?thesis by (auto simp: insertNode_def Let_def)
qed

lemma sorted_erase: "sorted xs \<Longrightarrow> sorted (erase xs i)"
proof -
  assume s: "sorted xs"
  have "\<forall>x \<in> set (take i xs). \<forall>y \<in> set (drop (Suc i) xs). x \<le> y"
  proof (intro ballI)
    fix x y assume "x \<in> set (take i xs)" "y \<in> set (drop (Suc i) xs)"
    then obtain a b where "a < length (take i xs)" "take i xs ! a = x"
      "b < length (drop (Suc i) xs)" "drop (Suc i) xs ! b = y" by (auto simp: in_set_conv_nth)
    then have "x = xs ! a" "y = xs ! (Suc i + b)" "a \<le> Suc i + b" "Suc i + b < length xs" by auto
    with s show "x \<le> y" by (simp add: sorted_nth_mono)
  qed
  with s show ?thesis by (auto simp: erase_def sorted_append sorted_wrt_take sorted_wrt_drop)
qed

lemma and_then_eq_Inr: "and_then m f = Inr y \<longleftrightarrow> (\<exists>x. m = Inr x \<and> f x = Inr y)"
  by (cases m) (auto simp: and_then_def)

lemma setFields_eq_Inr:
  "setFields a f s = Inr s' \<longleftrightarrow> (\<exists>n. heap s a = Some n \<and> s' = s\<lparr>heap := (heap s)(a \<mapsto> f n)\<rparr>)"
  by (auto simp: setFields_def split: option.splits)

lemma assertManagingProject_eq_Inr:
  "assertManagingProject this s = Inr s' \<Longrightarrow> s' = s"
  by (auto simp: assertManagingProject_def split: option.splits)

lemma deleteFileNode_eq_Inr:
  "deleteFileNode a s = Inr s' \<longleftrightarrow> (heap s a \<noteq> None \<and> s' = s\<lparr>heap := (heap s)(a := None)\<rparr>)"
  by (auto simp: deleteFileNode_def split: option.splits)

text \<open>Deleting only takes objects away.\<close>

lemma shrinks_refl: "shrinks s s" by (simp add: shrinks_def)

lemma shrinks_trans: "shrinks s s1 \<Longrightarrow> shrinks s1 s2 \<Longrightarrow> shrinks s s2"
  by (auto simp: shrinks_def) metis

lemma foldM_shrinks:
  assumes "\<And>x s s'. x \<in> set xs \<Longrightarrow> f x s = Inr s' \<Longrightarrow> shrinks s s'"
  shows "foldM f xs s = Inr s' \<Longrightarrow> shrinks s s'"
  using assms
proof (induction xs arbitrary: s)
  case Nil then show ?case by (simp add: shrinks_refl)
next
  case (Cons x xs)
  from Cons.prems(1) obtain s1 where 1: "f x s = Inr s1" "foldM f xs s1 = Inr s'"
    by (auto simp: and_then_eq_Inr)
  have "shrinks s s1" using Cons.prems(2) 1(1) by auto
  moreover have "shrinks s1 s'" using Cons.IH[OF 1(2)] Cons.prems(2) by auto
  ultimately show ?case by (rule shrinks_trans)
qed

lemma deleteNode_shrinks: "deleteNode fuel a s = Inr s' \<Longrightarrow> shrinks s s'"
proof (induction fuel arbitrary: a s s')
  case 0 then show ?case by simp
next
  case (Suc fuel)
  from Suc.prems obtain n s1 s2 where n: "heap s a = Some n"
    and 1: "foldM (deleteNode fuel) (m_folderNodes n) s = Inr s1"
    and 2: "foldM (deleteNode fuel) (m_fileNodes n) s1 = Inr s2"
    and 3: "s' = s2\<lparr>heap := (heap s2)(a := None)\<rparr>"
    by (auto simp: and_then_eq_Inr split: option.splits)
  have "shrinks s s1" using foldM_shrinks[OF _ 1] Suc.IH by blast
  moreover have "shrinks s1 s2" using foldM_shrinks[OF _ 2] Suc.IH by blast
  moreover have "shrinks s2 s'" using 3 by (simp add: shrinks_def)
  ultimately show ?case using shrinks_trans by blast
qed

lemma deleteNode_gone: "deleteNode fuel a s = Inr s' \<Longrightarrow> heap s' a = None"
  by (cases fuel) (auto simp: and_then_eq_Inr split: option.splits)

lemma shrinks_childListsSorted: "shrinks s s' \<Longrightarrow> childListsSorted s a \<Longrightarrow> childListsSorted s' a"
  unfolding shrinks_def childListsSorted_def fileNodes_def folderNodes_def
  by (metis (no_types, lifting) option.simps(4) sorted_wrt.simps(1))

lemma heap_emit [simp]: "heap (emit e s) = heap s" by (simp add: emit_def)
lemma events_emit [simp]: "events (emit e s) = events s @ [e]" by (simp add: emit_def)

lemma emit_childListsSorted [simp]: "childListsSorted (emit e s) a = childListsSorted s a"
  by (simp add: childListsSorted_def fileNodes_def folderNodes_def)

lemma setFields_childListsSorted:
  assumes "setFields b f s = Inr s'" "childListsSorted s a"
    and "\<And>n. sorted (m_fileNodes n) \<Longrightarrow> sorted (m_fileNodes (f n))"
    and "\<And>n. sorted (m_folderNodes n) \<Longrightarrow> sorted (m_folderNodes (f n))"
  shows "childListsSorted s' a"
  using assms by (auto simp: setFields_eq_Inr childListsSorted_def fileNodes_def folderNodes_def)

lemma addFileNodes_loop_sorted:
  "addFileNodes_loop this files s = Inr s' \<Longrightarrow> childListsSorted s a \<Longrightarrow> childListsSorted s' a"
proof (induction files arbitrary: s)
  case Nil then show ?case by simp
next
  case (Cons x xs)
  from Cons.prems(1) obtain s1 s2 where
    1: "setFields x (\<lambda>n. n\<lparr>m_parentFolderNode := Some this\<rparr>) s = Inr s1" and
    2: "setFields this (\<lambda>n. n\<lparr>m_fileNodes := insertNode (m_fileNodes n) x\<rparr>) s1 = Inr s2" and
    3: "addFileNodes_loop this xs s2 = Inr s'"
    by (auto simp: and_then_eq_Inr)
  have "childListsSorted s1 a" by (rule setFields_childListsSorted[OF 1 Cons.prems(2)]) simp_all
  then have "childListsSorted s2 a"
    by (rule setFields_childListsSorted[OF 2]) (simp_all add: sorted_insertNode)
  with Cons.IH[OF 3] show ?case .
qed

lemma addFolderNodes_loop_sorted:
  "addFolderNodes_loop this files s = Inr s' \<Longrightarrow> childListsSorted s a \<Longrightarrow> childListsSorted s' a"
proof (induction files arbitrary: s)
  case Nil then show ?case by simp
next
  case (Cons x xs)
  from Cons.prems(1) obtain s1 s2 where
    1: "setFields x (\<lambda>n. n\<lparr>m_parentFolderNode := Some this\<rparr>) s = Inr s1" and
    2: "setFields this (\<lambda>n. n\<lparr>m_folderNodes := insertNode (m_folderNodes n) x\<rparr>) s1 = Inr s2" and
    3: "addFolderNodes_loop this xs s2 = Inr s'"
    by (auto simp: and_then_eq_Inr)
  have "childListsSorted s1 a" by (rule setFields_childListsSorted[OF 1 Cons.prems(2)]) simp_all
  then have "childListsSorted s2 a"
    by (rule setFields_childListsSorted[OF 2]) (simp_all add: sorted_insertNode)
  with Cons.IH[OF 3] show ?case .
qed

lemma removeFileNodes_loop_sorted:
  "removeFileNodes_loop this rs i s = Inr s' \<Longrightarrow> childListsSorted s a \<Longrightarrow> childListsSorted s' a"
proof (induction rs arbitrary: s i)
  case Nil then show ?case by simp
next
  case (Cons r rs)
  from Cons.prems(1) obtain n it s1 s2 where
    1: "deleteFileNode r s = Inr s1" and
    2: "setFields this (\<lambda>n. n\<lparr>m_fileNodes := erase (m_fileNodes n) it\<rparr>) s1 = Inr s2" and
    3: "removeFileNodes_loop this rs it s2 = Inr s'"
    by (auto simp: and_then_eq_Inr split: option.splits)
  have "shrinks s s1" using 1 by (auto simp: deleteFileNode_eq_Inr shrinks_def)
  then have "childListsSorted s1 a" using Cons.prems(2) by (rule shrinks_childListsSorted)
  then have "childListsSorted s2 a"
    by (rule setFields_childListsSorted[OF 2]) (simp_all add: sorted_erase)
  with Cons.IH[OF 3] show ?case .
qed

lemma removeFolderNodes_loop_sorted:
  "removeFolderNodes_loop fuel this rs i s = Inr s' \<Longrightarrow> childListsSorted s a \<Longrightarrow> childListsSorted s' a"
proof (induction rs arbitrary: s i)
  case Nil then show ?case by simp
next
  case (Cons r rs)
  from Cons.prems(1) obtain n it s1 s2 where
    1: "deleteNode fuel r s = Inr s1" and
    2: "setFields this (\<lambda>n. n\<lparr>m_folderNodes := erase (m_folderNodes n) it\<rparr>) s1 = Inr s2" and
    3: "removeFolderNodes_loop fuel this rs it s2 = Inr s'"
    by (auto simp: and_then_eq_Inr split: option.splits)
  have "shrinks s s1" using 1 by (rule deleteNode_shrinks)
  then have "childListsSorted s1 a" using Cons.prems(2) by (rule shrinks_childListsSorted)
  then have "childListsSorted s2 a"
    by (rule setFields_childListsSorted[OF 2]) (simp_all add: sorted_erase)
  with Cons.IH[OF 3] show ?case .
qed

lemma mutate_sorted:
  "mutate fuel m s = Inr s' \<Longrightarrow> childListsSorted s a \<Longrightarrow> childListsSorted s' a"
proof (cases m)
  case (AddFileNodes this files)
  assume "mutate fuel m s = Inr s'" "childListsSorted s a"
  then show ?thesis using AddFileNodes
    by (auto simp: addFileNodes_def and_then_eq_Inr split: if_splits
        dest!: assertManagingProject_eq_Inr dest: addFileNodes_loop_sorted)
next
  case (RemoveFileNodes this files)
  assume "mutate fuel m s = Inr s'" "childListsSorted s a"
  then show ?thesis using RemoveFileNodes
    by (auto simp: removeFileNodes_def and_then_eq_Inr Let_def split: if_splits
        dest!: assertManagingProject_eq_Inr dest: removeFileNodes_loop_sorted)
next
  case (AddFolderNodes this files)
  assume "mutate fuel m s = Inr s'" "childListsSorted s a"
  then show ?thesis using AddFolderNodes
    by (auto simp: addFolderNodes_def and_then_eq_Inr split: if_splits
        dest!: assertManagingProject_eq_Inr dest: addFolderNodes_loop_sorted)
next
  case (RemoveFolderNodes this files)
  assume "mutate fuel m s = Inr s'" "childListsSorted s a"
  then show ?thesis using RemoveFolderNodes
    by (auto simp: removeFolderNodes_def and_then_eq_Inr Let_def split: if_splits
        dest!: assertManagingProject_eq_Inr dest: removeFolderNodes_loop_sorted)
qed


text \<open>
  C5, as the code has it. Whatever sequence of \<open>addFileNodes\<close>, \<open>removeFileNodes\<close>,
  \<open>addFolderNodes\<close> and \<open>removeFolderNodes\<close> runs through, on whatever folders: a node
  whose \<open>fileNodes()\<close> and \<open>folderNodes()\<close> were sorted by the addresses of the nodes
  before is still so afterwards. This is the order the sorted insertion uses.
\<close>

theorem child_lists_sorted_by_address:
  "foldM (mutate fuel) ms s = Inr s' \<Longrightarrow> childListsSorted s a \<Longrightarrow> childListsSorted s' a"
proof (induction ms arbitrary: s)
  case Nil then show ?case by simp
next
  case (Cons m ms)
  from Cons.prems(1) obtain s1 where 1: "mutate fuel m s = Inr s1" "foldM (mutate fuel) ms s1 = Inr s'"
    by (auto simp: and_then_eq_Inr)
  from Cons.IH[OF 1(2) mutate_sorted[OF 1(1) Cons.prems(2)]] show ?case .
qed

theorem child_lists_sorted_by_address_witness:
  "\<not> isl (foldM (mutate 1) [AddFileNodes 10 [30, 20], RemoveFileNodes 10 [20]] ex_unsorted) \<and>
   childListsSorted ex_unsorted 10 \<and>
   childListsSorted
     (projr (foldM (mutate 1) [AddFileNodes 10 [30, 20], RemoveFileNodes 10 [20]] ex_unsorted)) 10"
proof -
  have 1: "\<not> isl (foldM (mutate 1) [AddFileNodes 10 [30, 20], RemoveFileNodes 10 [20]] ex_unsorted)"
    by code_simp
  then have 2: "foldM (mutate 1) [AddFileNodes 10 [30, 20], RemoveFileNodes 10 [20]] ex_unsorted
     = Inr (projr (foldM (mutate 1) [AddFileNodes 10 [30, 20], RemoveFileNodes 10 [20]] ex_unsorted))"
    by simp
  have 3: "childListsSorted ex_unsorted 10"
    by code_simp
  from child_lists_sorted_by_address[OF 2 3] 1 3 show ?thesis by simp
qed

text \<open>
  C5 as stated fails: \<open>addFileNodes\<close> on the empty project at 10 with the file nodes
  at 20 (\<open>/p/b.cpp\<close>) and 30 (\<open>/p/a.cpp\<close>) leaves \<open>fileNodes()\<close> as 20, 30, which is
  the order of the addresses and not the order of the paths.
\<close>

theorem sorted_by_path_counterexample:
  "\<not> isl (addFileNodes 10 [20, 30] ex_unsorted) \<and>
   fileNodes (projr (addFileNodes 10 [20, 30] ex_unsorted)) 10 = [20, 30] \<and>
   fileNodesSortedByPath ex_unsorted 10 \<and>
   \<not> fileNodesSortedByPath (projr (addFileNodes 10 [20, 30] ex_unsorted)) 10"
  by code_simp


subsection \<open>trim with every leaf in the keep set\<close>

lemma transform_all_None:
  "(\<And>c. c \<in> set xs \<Longrightarrow> f c s = Inr (None, s)) \<Longrightarrow>
     transform f xs s = Inr (map (\<lambda>c. None) xs, s)"
  by (induction xs) simp_all

lemma filtered_all_None [simp]: "filtered (map (\<lambda>c. None) xs) = []"
  by (simp add: filtered_def)

lemma isManaged_assert: "isManaged (heap s) a \<Longrightarrow> assertManagingProject a s = Inr s"
  by (auto simp: isManaged_def assertManagingProject_def split: option.splits)

lemma FolderNode_trim_all_kept:
  assumes nd: "heap s a = Some nd"
    and kids: "\<And>c. c \<in> set (m_fileNodes nd @ m_folderNodes nd) \<Longrightarrow> f c s = Inr (None, s)"
    and mg: "a \<in> keepers \<or> isManaged (heap s) a"
    and ne: "a \<in> keepers \<or> m_fileNodes nd @ m_folderNodes nd \<noteq> []"
  shows "FolderNode_trim f n keepers a s = Inr (None, s)"
proof (cases "a \<in> keepers")
  case True
  then show ?thesis by (simp add: FolderNode_trim_def nd)
next
  case False
  with mg have as: "assertManagingProject a s = Inr s" by (simp add: isManaged_assert)
  have 1: "transform f (m_fileNodes nd) s = Inr (map (\<lambda>c. None) (m_fileNodes nd), s)"
    by (rule transform_all_None) (simp add: kids)
  have 2: "transform f (m_folderNodes nd) s = Inr (map (\<lambda>c. None) (m_folderNodes nd), s)"
    by (rule transform_all_None) (simp add: kids)
  from False ne have "m_fileNodes nd \<noteq> [] \<or> m_folderNodes nd \<noteq> []" by simp
  then show ?thesis
    using False
    by (simp add: FolderNode_trim_def nd 1 2 removeFileNodes_def removeFolderNodes_def as)
qed

lemma trim_keeps_all_aux:
  "keepsAllLeaves n keepers (heap s) a \<Longrightarrow> trim n keepers a s = Inr (None, s)"
proof (induction n arbitrary: a)
  case 0
  then show ?case by simp
next
  case (Suc n)
  from Suc.prems obtain nd where nd: "heap s a = Some nd"
    by (auto split: option.splits)
  show ?case
  proof (cases "m_fileNodes nd @ m_folderNodes nd = []")
    case True
    with Suc.prems nd have k: "a \<in> keepers" by simp
    then show ?thesis
      by (simp add: nd Node_trim_def ProjectNode_trim_def FolderNode_trim_def)
  next
    case False
    with Suc.prems nd have nf: "m_nodeType nd \<noteq> File" and mg: "isManaged (heap s) a"
      and sub: "m_nodeType nd = Project \<longrightarrow> set (m_projectNodes nd) \<subseteq> set (m_folderNodes nd)"
      and all: "list_all (keepsAllLeaves n keepers (heap s)) (m_fileNodes nd @ m_folderNodes nd)"
      by (auto split: if_splits)
    have kids: "\<And>c. c \<in> set (m_fileNodes nd @ m_folderNodes nd) \<Longrightarrow>
                  trim n keepers c s = Inr (None, s)"
      using all Suc.IH by (simp add: list_all_iff)
    have ft: "FolderNode_trim (trim n keepers) n keepers a s = Inr (None, s)"
    proof (rule FolderNode_trim_all_kept[where f = "trim n keepers" and nd = nd])
      show "heap s a = Some nd" by (rule nd)
      show "a \<in> keepers \<or> isManaged (heap s) a" using mg by simp
      show "a \<in> keepers \<or> m_fileNodes nd @ m_folderNodes nd \<noteq> []" using False by blast
    qed (rule kids)
    show ?thesis
    proof (cases "m_nodeType nd = Project")
      case True
      with sub have "\<And>c. c \<in> set (m_projectNodes nd) \<Longrightarrow> trim n keepers c s = Inr (None, s)"
        using kids by auto
      then have "transform (trim n keepers) (m_projectNodes nd) s =
                   Inr (map (\<lambda>c. None) (m_projectNodes nd), s)"
        by (rule transform_all_None)
      then show ?thesis
        using True nd ft by (simp add: ProjectNode_trim_def ProjectNode_removeProjectNodes_def)
    next
      case False
      then show ?thesis using nf nd ft by simp
    qed
  qed
qed

text \<open>
  C4, as the code has it. When the keep set contains every leaf of the subtree of a node
  (and the subtree is well formed: see \<open>keepsAllLeaves\<close>), \<open>trim\<close> leaves the store and
  the notifications as they are, so no child is removed or deleted, and it returns the
  null pointer: null is how \<open>trim\<close> reports a node that is kept.
\<close>

theorem trim_keeps_all_leaves:
  "keepsAllLeaves n keepers (heap s) this \<Longrightarrow> trim n keepers this s = Inr (None, s)"
  by (rule trim_keeps_all_aux)

theorem trim_keeps_all_leaves_witness:
  "keepsAllLeaves 3 {30, 40} (heap ex_tree) 10 \<and> trim 3 {30, 40} 10 ex_tree = Inr (None, ex_tree)"
proof -
  have 1: "keepsAllLeaves 3 {30, 40} (heap ex_tree) 10" by code_simp
  from trim_keeps_all_leaves[OF 1] 1 show ?thesis by simp
qed

text \<open>
  C4 as stated fails: with both files of the example tree in the keep set, \<open>trim\<close> on
  the project at 10 does not return the project itself.
\<close>

theorem trim_returns_self_counterexample:
  "keepsAllLeaves 3 {30, 40} (heap ex_tree) 10 \<and> \<not> isl (trim 3 {30, 40} 10 ex_tree) \<and>
   fst (projr (trim 3 {30, 40} 10 ex_tree)) \<noteq> Some 10"
  by code_simp


subsection \<open>Removing sub-projects\<close>

lemma index_of_Some: "index_of r xs = Some k \<Longrightarrow> k < length xs \<and> xs ! k = r \<and> r \<notin> set (take k xs)"
proof (induction xs arbitrary: k)
  case Nil then show ?case by simp
next
  case (Cons x xs)
  then show ?case by (cases k) (auto split: if_splits)
qed

lemma index_of_mem: "r \<in> set xs \<Longrightarrow> \<exists>k. index_of r xs = Some k"
  by (induction xs) auto

lemma index_of_None: "index_of r xs = None \<longleftrightarrow> r \<notin> set xs"
  by (induction xs) auto

lemma advance_Some:
  "advance xs i r = Some it \<Longrightarrow>
     i \<le> it \<and> it < length xs \<and> xs ! it = r \<and> r \<notin> set (take (it - i) (drop i xs))"
  by (auto simp: advance_def dest!: index_of_Some)

lemma advance_mem: "r \<in> set (drop i xs) \<Longrightarrow> \<exists>it. advance xs i r = Some it"
  by (auto simp: advance_def dest: index_of_mem)

lemma strict_sorted_nth_less:
  "sorted_wrt (<) (xs::nat list) \<Longrightarrow> i < j \<Longrightarrow> j < length xs \<Longrightarrow> xs ! i < xs ! j"
  by (simp add: sorted_wrt_nth_less)

text \<open>On a strictly ascending list the loop erases exactly the pointers it is given.\<close>

lemma eraseEach_sorted:
  "sorted_wrt (<) xs \<Longrightarrow> sorted_wrt (<) rs \<Longrightarrow> set rs \<subseteq> set (drop i xs) \<Longrightarrow>
     eraseEach xs rs i = Some (take i xs @ filter (\<lambda>x. x \<notin> set rs) (drop i xs))"
proof (induction rs arbitrary: xs i)
  case Nil
  then show ?case by simp
next
  case (Cons r rs)
  from Cons.prems(3) have "r \<in> set (drop i xs)" by simp
  then obtain it where it: "advance xs i r = Some it" using advance_mem by blast
  from advance_Some[OF it] have b: "i \<le> it" "it < length xs" "xs ! it = r" by simp_all
  have lt: "\<And>k. k < it \<Longrightarrow> xs ! k < r"
    using Cons.prems(1) b by (metis sorted_wrt_nth_less)
  have gt: "\<And>k. it < k \<Longrightarrow> k < length xs \<Longrightarrow> r < xs ! k"
    using Cons.prems(1) b by (metis sorted_wrt_nth_less)
  have rs_gt: "\<And>y. y \<in> set rs \<Longrightarrow> r < y" using Cons.prems(2) by simp
  have srs: "sorted_wrt (<) rs" using Cons.prems(2) by simp
  have er: "erase xs it = take it xs @ drop (Suc it) xs" by (simp add: erase_def)
  have sx: "sorted_wrt (<) (erase xs it)"
  proof -
    have "\<forall>x \<in> set (take it xs). \<forall>y \<in> set (drop (Suc it) xs). x < y"
    proof (intro ballI)
      fix x y assume "x \<in> set (take it xs)" "y \<in> set (drop (Suc it) xs)"
      then obtain a c where "a < length (take it xs)" "take it xs ! a = x"
        "c < length (drop (Suc it) xs)" "drop (Suc it) xs ! c = y" by (auto simp: in_set_conv_nth)
      then have "x = xs ! a" "y = xs ! (Suc it + c)" "a < Suc it + c" "Suc it + c < length xs" by auto
      with Cons.prems(1) show "x < y" by (simp add: sorted_wrt_nth_less)
    qed
    with Cons.prems(1) show ?thesis
      by (auto simp: er sorted_wrt_append sorted_wrt_take sorted_wrt_drop)
  qed
  have dr: "drop it (erase xs it) = drop (Suc it) xs" using b by (simp add: er)
  have tk: "take it (erase xs it) = take it xs" using b by (simp add: er)
  have sub: "set rs \<subseteq> set (drop it (erase xs it))"
  proof
    fix y assume y: "y \<in> set rs"
    with Cons.prems(3) have "y \<in> set (drop i xs)" by auto
    then have "y \<in> set xs" by (rule in_set_dropD)
    then obtain k where k: "k < length xs" "xs ! k = y" by (auto simp: in_set_conv_nth)
    have "r < y" using rs_gt y by simp
    with k lt b have "it < k"
      by (metis not_less_iff_gr_or_eq order.asym)
    then have "y = drop (Suc it) xs ! (k - Suc it)" "k - Suc it < length (drop (Suc it) xs)"
      using k by auto
    then show "y \<in> set (drop it (erase xs it))" unfolding dr by (metis nth_mem)
  qed
  have mid: "drop i xs = take (it - i) (drop i xs) @ [r] @ drop (Suc it) xs"
  proof -
    have "drop i xs = take (it - i) (drop i xs) @ drop (it - i) (drop i xs)"
      by (rule append_take_drop_id[symmetric])
    also have "drop (it - i) (drop i xs) = drop it xs" using b by simp
    also have "drop it xs = xs ! it # drop (Suc it) xs"
      using b Cons_nth_drop_Suc[of it xs] by simp
    finally show ?thesis using b by simp
  qed
  have seg_lt: "\<And>x. x \<in> set (take (it - i) (drop i xs)) \<Longrightarrow> x < r"
  proof -
    fix x assume "x \<in> set (take (it - i) (drop i xs))"
    then obtain k where "k < it - i" "k < length (drop i xs)" "drop i xs ! k = x"
      by (auto simp: in_set_conv_nth)
    then have "x = xs ! (i + k)" "i + k < it" by auto
    then show "x < r" using lt by simp
  qed
  have tail_gt: "\<And>x. x \<in> set (drop (Suc it) xs) \<Longrightarrow> r < x"
  proof -
    fix x assume "x \<in> set (drop (Suc it) xs)"
    then obtain k where "k < length (drop (Suc it) xs)" "drop (Suc it) xs ! k = x"
      by (auto simp: in_set_conv_nth)
    then have "x = xs ! (Suc it + k)" "Suc it + k < length xs" by auto
    then show "r < x" using gt by simp
  qed
  define P where "P = (\<lambda>x. x \<notin> set (r # rs))"
  have f1: "filter P (take (it - i) (drop i xs)) = take (it - i) (drop i xs)"
  proof (rule filter_True, intro ballI)
    fix x assume x: "x \<in> set (take (it - i) (drop i xs))"
    then have "x < r" by (rule seg_lt)
    then show "P x" using rs_gt by (auto simp: P_def dest: less_trans)
  qed
  have f2: "filter P (drop (Suc it) xs) = filter (\<lambda>x. x \<notin> set rs) (drop (Suc it) xs)"
    by (rule filter_cong) (use tail_gt in \<open>auto simp: P_def\<close>)
  have f3: "\<not> P r" by (simp add: P_def)
  have "filter P (drop i xs) = filter P (take (it - i) (drop i xs) @ [r] @ drop (Suc it) xs)"
    by (subst mid) (rule refl)
  also have "\<dots> = take (it - i) (drop i xs) @ filter (\<lambda>x. x \<notin> set rs) (drop (Suc it) xs)"
    by (simp add: f1 f2 f3)
  finally have fP: "filter P (drop i xs) =
      take (it - i) (drop i xs) @ filter (\<lambda>x. x \<notin> set rs) (drop (Suc it) xs)" .
  have "take it xs = take i xs @ take (it - i) (drop i xs)"
    using b by (metis le_add_diff_inverse take_add)
  with fP have fin: "take i xs @ filter P (drop i xs) =
      take it xs @ filter (\<lambda>x. x \<notin> set rs) (drop (Suc it) xs)" by simp
  have "eraseEach xs (r # rs) i = eraseEach (erase xs it) rs it" by (simp add: it)
  also have "\<dots> = Some (take it (erase xs it) @ filter (\<lambda>x. x \<notin> set rs) (drop it (erase xs it)))"
    by (rule Cons.IH[OF sx srs sub])
  finally show ?case using fin by (simp add: dr tk P_def)
qed

lemma eraseEach_sorted0:
  assumes "sorted_wrt (<) xs" "distinct ps" "set ps \<subseteq> set xs"
  shows "eraseEach xs (sort ps) 0 = Some (filter (\<lambda>x. x \<notin> set ps) xs)"
proof -
  have "sorted_wrt (<) (sort ps)" using assms(2) by (simp add: strict_sorted_iff)
  from eraseEach_sorted[OF assms(1) this, of 0] assms(3) show ?thesis by simp
qed

lemma SessionNode_loop_eraseEach:
  "heap s this = Some nd \<Longrightarrow>
   eraseEach (m_projectNodes nd) rs pit = Some ps' \<Longrightarrow>
   eraseEach (m_folderNodes nd) rs fit = Some fs' \<Longrightarrow>
   SessionNode_removeProjectNodes_loop this rs fit pit s =
     Inr (s\<lparr>heap := (heap s)(this \<mapsto> nd\<lparr>m_projectNodes := ps', m_folderNodes := fs'\<rparr>)\<rparr>)"
proof (induction rs arbitrary: s nd pit fit)
  case Nil
  then have "nd\<lparr>m_projectNodes := ps', m_folderNodes := fs'\<rparr> = nd" by simp
  moreover have "(heap s)(this \<mapsto> nd) = heap s" using Nil.prems(1) by (rule map_upd_triv)
  ultimately show ?case by simp
next
  case (Cons r rs)
  from Cons.prems(2) obtain p1 where p1: "advance (m_projectNodes nd) pit r = Some p1"
    "eraseEach (erase (m_projectNodes nd) p1) rs p1 = Some ps'"
    by (auto split: option.splits)
  from Cons.prems(3) obtain f1 where f1: "advance (m_folderNodes nd) fit r = Some f1"
    "eraseEach (erase (m_folderNodes nd) f1) rs f1 = Some fs'"
    by (auto split: option.splits)
  define nd1 where "nd1 = nd\<lparr>m_projectNodes := erase (m_projectNodes nd) p1,
                              m_folderNodes := erase (m_folderNodes nd) f1\<rparr>"
  define s1 where "s1 = s\<lparr>heap := (heap s)(this \<mapsto> nd1)\<rparr>"
  have h1: "heap s1 this = Some nd1" by (simp add: s1_def)
  have e1: "eraseEach (m_projectNodes nd1) rs p1 = Some ps'" using p1(2) by (simp add: nd1_def)
  have e2: "eraseEach (m_folderNodes nd1) rs f1 = Some fs'" using f1(2) by (simp add: nd1_def)
  have step: "SessionNode_removeProjectNodes_loop this (r # rs) fit pit s =
              SessionNode_removeProjectNodes_loop this rs f1 p1 s1"
    using Cons.prems(1) p1(1) f1(1) by (simp add: setFields_def s1_def nd1_def)
  have a1: "(heap s1)(this \<mapsto> Y) = (heap s)(this \<mapsto> Y)" for Y by (simp add: s1_def)
  have a2: "nd1\<lparr>m_projectNodes := ps', m_folderNodes := fs'\<rparr> =
            nd\<lparr>m_projectNodes := ps', m_folderNodes := fs'\<rparr>" by (simp add: nd1_def)
  have a3: "s1\<lparr>heap := H\<rparr> = s\<lparr>heap := H\<rparr>" for H by (simp add: s1_def)
  show ?case
    unfolding step Cons.IH[OF h1 e1 e2] a1 a2 a3 ..
qed

lemma ProjectNode_loop_post:
  "ProjectNode_removeProjectNodes_loop fuel this rs fit pit s = Inr s' \<Longrightarrow>
   heap s this = Some nd \<Longrightarrow>
   \<exists>ps' fs'. eraseEach (m_projectNodes nd) rs pit = Some ps' \<and>
            eraseEach (m_folderNodes nd) rs fit = Some fs' \<and>
            heap s' this = Some (nd\<lparr>m_projectNodes := ps', m_folderNodes := fs'\<rparr>) \<and>
            events s' = events s \<and>
            (\<forall>b. b \<noteq> this \<longrightarrow> heap s' b = None \<or> heap s' b = heap s b) \<and>
            (\<forall>r \<in> set rs. heap s' r = None)"
proof (induction rs arbitrary: s nd pit fit)
  case Nil
  then show ?case by simp
next
  case (Cons r rs)
  from Cons.prems obtain p1 f1 s1 s2 where
    p1: "advance (m_projectNodes nd) pit r = Some p1" and
    f1: "advance (m_folderNodes nd) fit r = Some f1" and
    d: "deleteNode fuel r s = Inr s1" and
    u: "setFields this (\<lambda>n. n\<lparr>m_projectNodes := erase (m_projectNodes n) p1,
                               m_folderNodes := erase (m_folderNodes n) f1\<rparr>) s1 = Inr s2" and
    l: "ProjectNode_removeProjectNodes_loop fuel this rs f1 p1 s2 = Inr s'"
    by (auto simp: and_then_eq_Inr split: option.splits)
  have sh: "shrinks s s1" using d by (rule deleteNode_shrinks)
  have gone: "heap s1 r = None" using d by (rule deleteNode_gone)
  from u obtain n1 where n1: "heap s1 this = Some n1"
    and s2: "s2 = s1\<lparr>heap := (heap s1)(this \<mapsto> n1\<lparr>m_projectNodes := erase (m_projectNodes n1) p1,
                               m_folderNodes := erase (m_folderNodes n1) f1\<rparr>)\<rparr>"
    by (auto simp: setFields_eq_Inr)
  have "n1 = nd" using sh n1 Cons.prems(2) by (auto simp: shrinks_def) (metis option.distinct(1) option.inject)
  define nd1 where "nd1 = nd\<lparr>m_projectNodes := erase (m_projectNodes nd) p1,
                              m_folderNodes := erase (m_folderNodes nd) f1\<rparr>"
  have h2: "heap s2 this = Some nd1" using s2 \<open>n1 = nd\<close> by (simp add: nd1_def)
  from Cons.IH[OF l h2] obtain ps' fs' where
    e1: "eraseEach (m_projectNodes nd1) rs p1 = Some ps'" and
    e2: "eraseEach (m_folderNodes nd1) rs f1 = Some fs'" and
    h: "heap s' this = Some (nd1\<lparr>m_projectNodes := ps', m_folderNodes := fs'\<rparr>)" and
    ev: "events s' = events s2" and
    fr: "\<forall>b. b \<noteq> this \<longrightarrow> heap s' b = None \<or> heap s' b = heap s2 b" and
    gn: "\<forall>r \<in> set rs. heap s' r = None"
    by blast
  have rthis: "r \<noteq> this" using gone n1 by auto
  have fr2: "\<forall>b. b \<noteq> this \<longrightarrow> heap s2 b = None \<or> heap s2 b = heap s b"
    using sh s2 by (auto simp: shrinks_def)
  have "eraseEach (m_projectNodes nd) (r # rs) pit = Some ps'" using p1 e1 by (simp add: nd1_def)
  moreover have "eraseEach (m_folderNodes nd) (r # rs) fit = Some fs'" using f1 e2 by (simp add: nd1_def)
  moreover have "heap s' this = Some (nd\<lparr>m_projectNodes := ps', m_folderNodes := fs'\<rparr>)"
    using h by (simp add: nd1_def)
  moreover have "events s' = events s" using ev s2 sh by (simp add: shrinks_def)
  moreover have "\<forall>b. b \<noteq> this \<longrightarrow> heap s' b = None \<or> heap s' b = heap s b"
    using fr fr2 by metis
  moreover have "heap s' r = None" using fr rthis gone s2 by (metis fr2 option.distinct(1) fun_upd_other tree_state.select_convs(1) tree_state.surjective tree_state.update_convs(1))
  ultimately show ?case using gn by simp
qed

text \<open>
  C8. Let the listed sub-projects be distinct children of \<open>this\<close>, found in both
  \<open>m_projectNodes\<close> and \<open>m_folderNodes\<close>, which are in ascending order of the addresses.
  A run of \<open>ProjectNode::removeProjectNodes\<close> that comes to its end leaves both lists
  without the listed projects, and the listed projects are deleted.
  \<open>SessionNode::removeProjectNodes\<close> always comes to its end; it leaves both lists
  without the listed projects, and every object but \<open>this\<close>, the listed projects among
  them, is as it was.
\<close>

subsection \<open>The directory scan\<close>

lemma scanInv_polls [simp]: "scanInv fs D (st\<lparr>polls := k\<rparr>) = scanInv fs D st"
  by (simp add: scanInv_def)

lemma scanInv_created [simp]: "scanInv fs D (st\<lparr>created := k\<rparr>) = scanInv fs D st"
  by (simp add: scanInv_def)

lemma card_Diff_mono:
  "finite D \<Longrightarrow> V \<subseteq> V' \<Longrightarrow> card (D - V') \<le> card (D - V)"
  by (rule card_mono) auto

lemma scanEntries_total:
  assumes rec: "\<And>d st. scanInv fs D st \<Longrightarrow> card (D - visited st) < n \<Longrightarrow>
                  \<exists>r st'. recurse d st = Some (r, st') \<and> scanInv fs D st' \<and> visited st \<subseteq> visited st'"
  shows "scanInv fs D st \<Longrightarrow> card (D - visited st) < n \<Longrightarrow>
         \<exists>r st'. scanEntries recurse fs factory isCanceled directory entries acc st = Some (r, st') \<and>
                 scanInv fs D st' \<and> visited st \<subseteq> visited st'"
proof (induction entries arbitrary: acc st)
  case Nil
  then show ?case by simp
next
  case (Cons e entries)
  obtain entryName isDir where e: "e = (entryName, isDir)" by (cases e)
  let ?st1 = "st\<lparr>polls := Suc (polls st)\<rparr>"
  have i1: "scanInv fs D ?st1" "card (D - visited ?st1) < n" using Cons.prems by simp_all
  show ?case
  proof (cases "isCanceled (polls st)")
    case True
    then show ?thesis using i1 by (simp add: e)
  next
    case nc: False
    show ?thesis
    proof (cases "vcsIgnores fs directory entryName")
      case True
      from Cons.IH[OF i1, of acc] show ?thesis using nc True by (simp add: e)
    next
      case ni: False
      show ?thesis
      proof (cases isDir)
        case True
        from rec[OF i1, of entryName] obtain r st2 where
          r: "recurse entryName ?st1 = Some (r, st2)" "scanInv fs D st2" "visited ?st1 \<subseteq> visited st2"
          by blast
        have fin: "finite D" using r(2) by (simp add: scanInv_def)
        have "card (D - visited st2) \<le> card (D - visited ?st1)"
          by (rule card_Diff_mono[OF fin r(3)])
        with i1(2) have c2: "card (D - visited st2) < n" by simp
        from Cons.IH[OF r(2) c2, of "acc @ r"] obtain r' st' where
          "scanEntries recurse fs factory isCanceled directory entries (acc @ r) st2 = Some (r', st')"
          "scanInv fs D st'" "visited st2 \<subseteq> visited st'" by blast
        then show ?thesis using nc ni True r by (auto simp: e)
      next
        case False
        let ?st2 = "?st1\<lparr>created := created ?st1 @ [entryName]\<rparr>"
        have i2: "scanInv fs D ?st2" "card (D - visited ?st2) < n" using i1 by simp_all
        from Cons.IH[OF i2, of "acc @ [factory entryName]"] show ?thesis
          using nc ni False by (simp add: e)
      qed
    qed
  qed
qed

lemma scanForFilesRecursively_total:
  "scanInv fs D st \<Longrightarrow> (\<forall>d. canonicalPath fs d \<in> D) \<Longrightarrow> card (D - visited st) < n \<Longrightarrow>
   \<exists>r st'. scanForFilesRecursively n fs factory isCanceled directory st = Some (r, st') \<and>
           scanInv fs D st' \<and> visited st \<subseteq> visited st'"
proof (induction n arbitrary: directory st)
  case 0
  then show ?case by simp
next
  case (Suc n)
  let ?c = "canonicalPath fs directory"
  let ?st1 = "st\<lparr>visited := insert ?c (visited st)\<rparr>"
  have fin: "finite D" and sub: "visited st \<subseteq> D" using Suc.prems(1) by (simp_all add: scanInv_def)
  have finV: "finite (visited st)" using fin sub by (rule rev_finite_subset)
  have cD: "?c \<in> D" using Suc.prems(2) by simp
  show ?case
  proof (cases "?c \<in> visited st")
    case True
    then have "insert ?c (visited st) = visited st" by auto
    then show ?thesis using Suc.prems(1) by (simp add: scanInv_def)
  next
    case False
    then have neq: "card (visited st) \<noteq> card (insert ?c (visited st))" using finV by simp
    let ?st2 = "?st1\<lparr>listed := listed ?st1 @ [directory]\<rparr>"
    have inv2: "scanInv fs D ?st2"
      using Suc.prems(1) False cD by (auto simp: scanInv_def)
    have "D - visited ?st2 \<subset> D - visited st" using False cD by auto
    then have "card (D - visited ?st2) < card (D - visited st)"
      using fin by (simp add: psubset_card_mono)
    with Suc.prems(3) have c2: "card (D - visited ?st2) < n" by simp
    have rec: "\<And>d st. scanInv fs D st \<Longrightarrow> card (D - visited st) < n \<Longrightarrow>
        \<exists>r st'. scanForFilesRecursively n fs factory isCanceled d st = Some (r, st') \<and>
                scanInv fs D st' \<and> visited st \<subseteq> visited st'"
      using Suc.IH Suc.prems(2) by blast
    from scanEntries_total[of fs D n "scanForFilesRecursively n fs factory isCanceled", OF rec inv2 c2,
        of factory isCanceled directory "entryInfoList fs directory" "[]"]
    obtain r st' where
      "scanEntries (scanForFilesRecursively n fs factory isCanceled) fs factory isCanceled directory
         (entryInfoList fs directory) [] ?st2 = Some (r, st')"
      "scanInv fs D st'" "visited ?st2 \<subseteq> visited st'" by blast
    then show ?thesis using neq by (auto simp: Let_def)
  qed
qed

text \<open>
  C6. Let the canonical paths of all directories lie in a finite set \<open>D\<close> (a file system
  has finitely many directories, however many names symbolic links give them). Then
  \<open>scanForFiles\<close> returns, for every answer of the cancellation polls, as soon as the
  recursion is allowed more levels than \<open>D\<close> has elements. The canonical paths of the
  directories whose entries were read are pairwise different and are the set \<open>visited\<close>;
  and a call for a directory whose canonical path is in \<open>visited\<close> returns at once, with
  no file node and the state as it was.
\<close>

theorem scanForFiles_terminates:
  assumes "finite D" and "\<forall>d. canonicalPath fs d \<in> D" and "card D < fuel"
  shows "(\<exists>result st.
           scanForFilesRecursively fuel fs factory isCanceled directory scan_start = Some (result, st) \<and>
           scanForFiles fuel fs factory isCanceled directory = Some result \<and>
           distinct (map (canonicalPath fs) (listed st)) \<and>
           set (map (canonicalPath fs) (listed st)) = visited st) \<and>
         (\<forall>n d st. finite (visited st) \<longrightarrow> canonicalPath fs d \<in> visited st \<longrightarrow>
           scanForFilesRecursively (Suc n) fs factory isCanceled d st = Some ([], st))"
proof
  have inv: "scanInv fs D scan_start" using assms(1) by (simp add: scanInv_def scan_start_def)
  have c: "card (D - visited scan_start) < fuel" using assms(3) by (simp add: scan_start_def)
  from scanForFilesRecursively_total[OF inv assms(2) c, of factory isCanceled directory]
  show "\<exists>result st.
           scanForFilesRecursively fuel fs factory isCanceled directory scan_start = Some (result, st) \<and>
           scanForFiles fuel fs factory isCanceled directory = Some result \<and>
           distinct (map (canonicalPath fs) (listed st)) \<and>
           set (map (canonicalPath fs) (listed st)) = visited st"
    by (auto simp: scanInv_def scanForFiles_def)
  show "\<forall>n d st. finite (visited st) \<longrightarrow> canonicalPath fs d \<in> visited st \<longrightarrow>
           scanForFilesRecursively (Suc n) fs factory isCanceled d st = Some ([], st)"
    by (simp add: insert_absorb Let_def)
qed

theorem scanForFiles_terminates_witness:
  "finite {''/a''} \<and> (\<forall>d. canonicalPath ex_fs d \<in> {''/a''}) \<and> card {''/a''} < (2::nat) \<and>
   (\<exists>result st.
           scanForFilesRecursively 2 ex_fs id (\<lambda>k. False) ''/a'' scan_start = Some (result, st) \<and>
           scanForFiles 2 ex_fs id (\<lambda>k. False) ''/a'' = Some result \<and>
           distinct (map (canonicalPath ex_fs) (listed st)) \<and>
           set (map (canonicalPath ex_fs) (listed st)) = visited st) \<and>
   scanForFilesRecursively 1 ex_fs id (\<lambda>k. False) ''/a/loop'' (scan_start\<lparr>visited := {''/a''}\<rparr>) =
     Some ([], scan_start\<lparr>visited := {''/a''}\<rparr>) \<and>
   scanForFiles 2 ex_fs id (\<lambda>k. False) ''/a'' = Some [''/a/f.txt'', ''/a/g.txt'']"
proof -
  have 1: "finite {''/a''}" by simp
  have 2: "\<forall>d. canonicalPath ex_fs d \<in> {''/a''}" by (simp add: ex_fs_def)
  have 3: "card {''/a''} < (2::nat)" by simp
  have 4: "scanForFiles 2 ex_fs id (\<lambda>k. False) ''/a'' = Some [''/a/f.txt'', ''/a/g.txt'']"
    by code_simp
  have 5: "scanForFilesRecursively 1 ex_fs id (\<lambda>k. False) ''/a/loop''
             (scan_start\<lparr>visited := {''/a''}\<rparr>) = Some ([], scan_start\<lparr>visited := {''/a''}\<rparr>)"
    using scanForFiles_terminates[OF 1 2 3, of id "\<lambda>k. False" "''/a''"]
    by (simp add: ex_fs_def scan_start_def)
  from scanForFiles_terminates[OF 1 2 3, of id "\<lambda>k. False" "''/a''"] 1 2 3 4 5 show ?thesis
    by blast
qed

text \<open>Once every further poll answers yes, the loop hands back what it has.\<close>

text \<open>
  C7. Let the cancellation flag be set from the poll number \<open>k0\<close> on. The scan returns
  (no error); what it returns is the list of the file nodes the factory has made in
  this run, in the order of the calls; and the scan that is never cancelled returns this
  list followed by the nodes the cancelled scan did not get to. The flag is polled once
  before each directory entry (\<open>scanEntries\<close>).
\<close>

subsection \<open>buildTree: a file that is no longer listed\<close>

lemma eraseEach_mset: "eraseEach xs rs i = Some ys \<Longrightarrow> mset ys + mset rs = mset xs"
proof (induction rs arbitrary: xs i)
  case Nil
  then show ?case by simp
next
  case (Cons r rs)
  from Cons.prems obtain it where it: "advance xs i r = Some it"
    "eraseEach (erase xs it) rs it = Some ys" by (auto split: option.splits)
  from advance_Some[OF it(1)] have b: "it < length xs" "xs ! it = r" by simp_all
  have "xs = take it xs @ r # drop (Suc it) xs" using id_take_nth_drop[OF b(1)] b(2) by simp
  then have "mset xs = add_mset r (mset (erase xs it))"
    by (metis erase_def mset.simps(2) mset_append union_mset_add_mset_right)
  with Cons.IH[OF it(2)] show ?case by simp
qed

lemma removeFileNodes_loop_post:
  "removeFileNodes_loop p rs i s = Inr s' \<Longrightarrow> heap s p = Some pd \<Longrightarrow>
     \<exists>ys. eraseEach (m_fileNodes pd) rs i = Some ys \<and>
          heap s' p = Some (pd\<lparr>m_fileNodes := ys\<rparr>) \<and>
          events s' = events s \<and>
          (\<forall>r \<in> set rs. heap s' r = None) \<and>
          (\<forall>b. b \<noteq> p \<and> b \<notin> set rs \<longrightarrow> heap s' b = heap s b)"
proof (induction rs arbitrary: s pd i)
  case Nil
  then show ?case by simp
next
  case (Cons r rs)
  from Cons.prems obtain it s1 s2 where
    it: "advance (m_fileNodes pd) i r = Some it" and
    d: "deleteFileNode r s = Inr s1" and
    u: "setFields p (\<lambda>n. n\<lparr>m_fileNodes := erase (m_fileNodes n) it\<rparr>) s1 = Inr s2" and
    l: "removeFileNodes_loop p rs it s2 = Inr s'"
    by (auto simp: and_then_eq_Inr split: option.splits)
  from d have s1: "s1 = s\<lparr>heap := (heap s)(r := None)\<rparr>" by (simp add: deleteFileNode_eq_Inr)
  from u obtain n1 where n1: "heap s1 p = Some n1" by (auto simp: setFields_eq_Inr)
  have rp: "r \<noteq> p" using n1 by (auto simp: s1)
  then have "n1 = pd" using n1 Cons.prems(2) by (simp add: s1)
  define pd2 where "pd2 = pd\<lparr>m_fileNodes := erase (m_fileNodes pd) it\<rparr>"
  have s2: "s2 = s1\<lparr>heap := (heap s1)(p \<mapsto> pd2)\<rparr>"
    using u n1 \<open>n1 = pd\<close> by (auto simp: setFields_eq_Inr pd2_def)
  have p2: "heap s2 p = Some pd2" by (simp add: s2)
  from Cons.IH[OF l p2] obtain ys where
    y1: "eraseEach (m_fileNodes pd2) rs it = Some ys" and
    y2: "heap s' p = Some (pd2\<lparr>m_fileNodes := ys\<rparr>)" and
    y3: "events s' = events s2" and
    y4: "\<forall>r \<in> set rs. heap s' r = None" and
    y5: "\<forall>b. b \<noteq> p \<and> b \<notin> set rs \<longrightarrow> heap s' b = heap s2 b" by blast
  have a: "eraseEach (m_fileNodes pd) (r # rs) i = Some ys" using it y1 by (simp add: pd2_def)
  have b: "heap s' p = Some (pd\<lparr>m_fileNodes := ys\<rparr>)" using y2 by (simp add: pd2_def)
  have c: "events s' = events s" using y3 by (simp add: s2 s1)
  have r2: "heap s2 r = None" using rp by (simp add: s2 s1)
  have d': "\<forall>x \<in> set (r # rs). heap s' x = None"
  proof
    fix x assume "x \<in> set (r # rs)"
    then show "heap s' x = None"
    proof (cases "x \<in> set rs")
      case True with y4 show ?thesis by blast
    next
      case False
      with \<open>x \<in> set (r # rs)\<close> have "x = r" by simp
      with y5 rp False r2 show ?thesis by auto
    qed
  qed
  have e: "\<forall>b. b \<noteq> p \<and> b \<notin> set (r # rs) \<longrightarrow> heap s' b = heap s b"
    using y5 by (auto simp: s2 s1)
  from a b c d' e show ?case by blast
qed

lemma removeFileNodes_post:
  assumes "removeFileNodes p fns s = Inr s'" "heap s p = Some pd"
  shows "\<exists>ys. heap s' p = Some (pd\<lparr>m_fileNodes := ys\<rparr>) \<and>
          mset ys + mset fns = mset (m_fileNodes pd) \<and>
          (\<forall>f \<in> set fns. heap s' f = None) \<and>
          (\<forall>a. a \<noteq> p \<and> a \<notin> set fns \<longrightarrow> heap s' a = heap s a)"
proof (cases "fns = []")
  case True
  with assms have "s' = s"
    by (auto simp: removeFileNodes_def and_then_eq_Inr dest: assertManagingProject_eq_Inr)
  with True assms(2) show ?thesis by (auto intro: exI[of _ "m_fileNodes pd"])
next
  case False
  with assms(1) obtain s1 where
    l: "removeFileNodes_loop p (sort fns) 0 (emit (FilesAboutToBeRemoved p (sort fns)) s) = Inr s1" and
    s': "s' = emit (FilesRemoved p) s1"
    by (auto simp: removeFileNodes_def and_then_eq_Inr Let_def dest!: assertManagingProject_eq_Inr)
  have h: "heap (emit (FilesAboutToBeRemoved p (sort fns)) s) p = Some pd" using assms(2) by simp
  from removeFileNodes_loop_post[OF l h] obtain ys where
    "eraseEach (m_fileNodes pd) (sort fns) 0 = Some ys"
    "heap s1 p = Some (pd\<lparr>m_fileNodes := ys\<rparr>)"
    "\<forall>r \<in> set (sort fns). heap s1 r = None"
    "\<forall>b. b \<noteq> p \<and> b \<notin> set (sort fns) \<longrightarrow> heap s1 b = heap s b" by auto
  moreover from eraseEach_mset[OF this(1)] have "mset ys + mset fns = mset (m_fileNodes pd)" by simp
  ultimately show ?thesis by (auto simp: s')
qed

text \<open>Removing one childless folder.\<close>

lemma deleteNode_childless:
  "deleteNode fuel c s = Inr s' \<Longrightarrow> heap s c = Some cd \<Longrightarrow>
     m_fileNodes cd = [] \<Longrightarrow> m_folderNodes cd = [] \<Longrightarrow> s' = s\<lparr>heap := (heap s)(c := None)\<rparr>"
  by (cases fuel) auto

lemma removeFolderNodes_childless_post:
  assumes "removeFolderNodes fuel g [c] s = Inr s'" "heap s g = Some gd" "heap s c = Some cd"
    "m_fileNodes cd = []" "m_folderNodes cd = []"
  shows "\<exists>it. it < length (m_folderNodes gd) \<and> m_folderNodes gd ! it = c \<and>
          c \<notin> set (take it (m_folderNodes gd)) \<and>
          heap s' g = Some (gd\<lparr>m_folderNodes := erase (m_folderNodes gd) it\<rparr>) \<and>
          heap s' c = None \<and>
          (\<forall>a. a \<noteq> g \<and> a \<noteq> c \<longrightarrow> heap s' a = heap s a)"
proof -
  let ?s0 = "emit (FoldersAboutToBeRemoved g [c]) s"
  from assms(1) obtain s1 where
    l: "removeFolderNodes_loop fuel g [c] 0 ?s0 = Inr s1" and
    s': "s' = emit (FoldersRemoved g) s1"
    by (auto simp: removeFolderNodes_def and_then_eq_Inr Let_def dest!: assertManagingProject_eq_Inr)
  from l assms(2) obtain it s2 where
    it: "advance (m_folderNodes gd) 0 c = Some it" and
    d: "deleteNode fuel c ?s0 = Inr s2" and
    u: "setFields g (\<lambda>n. n\<lparr>m_folderNodes := erase (m_folderNodes n) it\<rparr>) s2 = Inr s1"
    by (auto simp: and_then_eq_Inr split: option.splits)
  have s2: "s2 = ?s0\<lparr>heap := (heap ?s0)(c := None)\<rparr>"
    by (rule deleteNode_childless[OF d _ assms(4,5)]) (simp add: assms(3))
  from u obtain n1 where n1: "heap s2 g = Some n1" and
    s1: "s1 = s2\<lparr>heap := (heap s2)(g \<mapsto> n1\<lparr>m_folderNodes := erase (m_folderNodes n1) it\<rparr>)\<rparr>"
    by (auto simp: setFields_eq_Inr)
  have gc: "g \<noteq> c" using n1 by (auto simp: s2)
  then have "n1 = gd" using n1 assms(2) by (simp add: s2)
  from advance_Some[OF it] have b: "it < length (m_folderNodes gd)" "m_folderNodes gd ! it = c"
    "c \<notin> set (take it (m_folderNodes gd))" by simp_all
  show ?thesis using b gc \<open>n1 = gd\<close> by (intro exI[of _ it]) (simp add: s' s1 s2)
qed

lemma foldM_deleteFileNode_post:
  "foldM deleteFileNode ds s = Inr s' \<Longrightarrow>
     events s' = events s \<and> (\<forall>d \<in> set ds. heap s' d = None) \<and>
     (\<forall>a. a \<notin> set ds \<longrightarrow> heap s' a = heap s a)"
proof (induction ds arbitrary: s)
  case Nil
  then show ?case by simp
next
  case (Cons d ds)
  from Cons.prems obtain s1 where 1: "deleteFileNode d s = Inr s1" "foldM deleteFileNode ds s1 = Inr s'"
    by (auto simp: and_then_eq_Inr)
  from 1(1) have s1: "s1 = s\<lparr>heap := (heap s)(d := None)\<rparr>" by (simp add: deleteFileNode_eq_Inr)
  from Cons.IH[OF 1(2)] have ih: "events s' = events s1" "\<forall>x \<in> set ds. heap s' x = None"
    "\<forall>a. a \<notin> set ds \<longrightarrow> heap s' a = heap s1 a" by simp_all
  have "heap s' d = None"
  proof (cases "d \<in> set ds")
    case True with ih(2) show ?thesis by blast
  next
    case False with ih(3) show ?thesis by (simp add: s1)
  qed
  with ih show ?case by (auto simp: s1)
qed

lemma sortByPath_pathOf: "sortByPath h a b = (pathOf h a < pathOf h b)"
  by (simp add: sortByPath_def pathOf_def)

lemma compare_same_keys:
  "map key old = map key new \<Longrightarrow>
     compareSortedLists (\<lambda>a b. key a < (key b :: 'k :: linorder)) old new = ([], [])"
proof (induction old arbitrary: new)
  case Nil
  then show ?case by simp
next
  case (Cons ol old)
  then obtain nw new' where n: "new = nw # new'" by (cases new) auto
  with Cons.prems have "key ol = key nw" "map key old = map key new'" by simp_all
  with Cons.IH[of new'] show ?case by (simp add: n)
qed

lemma compare_one_missing:
  "sorted (map key old) \<Longrightarrow> distinct (map key old) \<Longrightarrow> f \<in> set old \<Longrightarrow>
   map key new = map key (remove1 f old) \<Longrightarrow>
     compareSortedLists (\<lambda>a b. key a < (key b :: 'k :: linorder)) old new = ([f], [])"
proof (induction old arbitrary: new)
  case Nil
  then show ?case by simp
next
  case (Cons ol old)
  show ?case
  proof (cases "ol = f")
    case True
    with Cons.prems(4) have k: "map key new = map key old" by simp
    show ?thesis
    proof (cases new)
      case Nil
      with k have "old = []" by simp
      with True Nil show ?thesis by simp
    next
      case (Cons nw new')
      with k obtain o2 old' where o: "old = o2 # old'" by (cases old) auto
      with k Cons have "key nw = key o2" by simp
      moreover have "key f < key o2" using Cons.prems(1,2) True o
        by (simp add: order_less_le)
      ultimately have lt: "key ol < key nw" using True by simp
      have "compareSortedLists (\<lambda>a b. key a < key b) old new = ([], [])"
        by (rule compare_same_keys) (simp add: k)
      with lt show ?thesis using True Cons by simp
    qed
  next
    case False
    with Cons.prems(3) have fin: "f \<in> set old" by simp
    from False Cons.prems(4) obtain nw new' where n: "new = nw # new'" "key nw = key ol"
      "map key new' = map key (remove1 f old)" by (cases new) auto
    have "compareSortedLists (\<lambda>a b. key a < key b) old new' = ([f], [])"
      using Cons.IH[OF _ _ fin n(3)] Cons.prems(1,2) by simp
    then show ?thesis using n by simp
  qed
qed

lemma sorted_mset_unique:
  "sorted xs \<Longrightarrow> sorted ys \<Longrightarrow> mset xs = mset ys \<Longrightarrow> xs = (ys :: 'k :: linorder list)"
  by (metis properties_for_sort)

lemma sorted_remove1_map:
  "sorted (map key xs) \<Longrightarrow> sorted (map key (remove1 f xs))"
  by (induction xs) (auto dest: notin_set_remove1)

lemma mset_map_remove1: "f \<in> set xs \<Longrightarrow>
  mset (map key (remove1 f xs)) + {#key f#} = mset (map key xs)"
  by (induction xs) auto

lemma erase_first: "advance xs 0 c = Some it \<Longrightarrow> erase xs it = remove1 c xs"
proof -
  assume a: "advance xs 0 c = Some it"
  from advance_Some[OF a] have b: "it < length xs" "xs ! it = c" "c \<notin> set (take it xs)" by simp_all
  have "xs = take it xs @ c # drop (Suc it) xs" using id_take_nth_drop[OF b(1)] b(2) by simp
  then have "remove1 c xs = remove1 c (take it xs @ c # drop (Suc it) xs)" by simp
  also have "\<dots> = take it xs @ drop (Suc it) xs" using b(3) by (simp add: remove1_append)
  finally show ?thesis by (simp add: erase_def)
qed

lemma erase_first_nth:
  "it < length xs \<Longrightarrow> xs ! it = c \<Longrightarrow> c \<notin> set (take it xs) \<Longrightarrow> erase xs it = remove1 c xs"
proof -
  assume b: "it < length xs" "xs ! it = c" "c \<notin> set (take it xs)"
  have "xs = take it xs @ c # drop (Suc it) xs" using id_take_nth_drop[OF b(1)] b(2) by simp
  then have "remove1 c xs = remove1 c (take it xs @ c # drop (Suc it) xs)" by simp
  also have "\<dots> = take it xs @ drop (Suc it) xs" using b(3) by (simp add: remove1_append)
  finally show ?thesis by (simp add: erase_def)
qed

lemma onlyChildChain_cong:
  "(\<forall>a \<in> set qs. h' a = h a) \<Longrightarrow>
   map_option m_parentFolderNode (h' q) = map_option m_parentFolderNode (h q) \<Longrightarrow>
   onlyChildChain h' q qs g = onlyChildChain h q qs g"
proof (induction qs arbitrary: q)
  case Nil
  then show ?case by (auto simp: hasParent_def split: option.splits)
next
  case (Cons q2 qs)
  have 1: "hasParent h' q q2 = hasParent h q q2"
    using Cons.prems(2) by (auto simp: hasParent_def split: option.splits)
  have 2: "h' q2 = h q2" using Cons.prems(1) by simp
  have 3: "onlyChildChain h' q2 qs g = onlyChildChain h q2 qs g"
    by (rule Cons.IH) (use Cons.prems(1) 2 in auto)
  show ?case by (simp add: 1 2 3)
qed

lemma removeEmpty_chain:
  "buildTree_removeEmpty n this q s = Inr s' \<Longrightarrow>
   heap s q = Some qd \<Longrightarrow> m_fileNodes qd = [] \<Longrightarrow> m_folderNodes qd = [] \<Longrightarrow>
   onlyChildChain (heap s) q qs g \<Longrightarrow> heap s g = Some gd \<Longrightarrow>
   distinct (q # qs @ [g]) \<Longrightarrow> this \<notin> set qs \<Longrightarrow>
   (g = this \<or> m_fileNodes gd \<noteq> [] \<or> remove1 (last (q # qs)) (m_folderNodes gd) \<noteq> []) \<Longrightarrow>
     heap s' g = Some (gd\<lparr>m_folderNodes := remove1 (last (q # qs)) (m_folderNodes gd)\<rparr>) \<and>
     (\<forall>x \<in> set (q # qs). heap s' x = None) \<and>
     (\<forall>a. a \<noteq> g \<and> a \<notin> set (q # qs) \<longrightarrow> heap s' a = heap s a)"
proof (induction qs arbitrary: n q qd s)
  case Nil
  from Nil.prems(1) obtain m where n: "n = Suc m" by (cases n) auto
  from Nil.prems(5) Nil.prems(2) have par: "m_parentFolderNode qd = Some g"
    by (simp add: hasParent_def)
  from Nil.prems(1) obtain s1 where
    1: "removeFolderNodes (Suc m) g [q] s = Inr s1" and
    2: "(if g = this then Inr s1 else buildTree_removeEmpty m this g s1) = Inr s'"
    by (auto simp: n Nil.prems(2,3,4) par and_then_eq_Inr)
  from removeFolderNodes_childless_post[OF 1 Nil.prems(6) Nil.prems(2) Nil.prems(3) Nil.prems(4)]
  obtain it where it: "it < length (m_folderNodes gd)" "m_folderNodes gd ! it = q"
    "q \<notin> set (take it (m_folderNodes gd))"
    "heap s1 g = Some (gd\<lparr>m_folderNodes := erase (m_folderNodes gd) it\<rparr>)"
    "heap s1 q = None" "\<forall>a. a \<noteq> g \<and> a \<noteq> q \<longrightarrow> heap s1 a = heap s a" by blast
  have er: "erase (m_folderNodes gd) it = remove1 q (m_folderNodes gd)"
    by (rule erase_first_nth[OF it(1,2,3)])
  have "s' = s1"
  proof (cases "g = this")
    case True
    with 2 show ?thesis by simp
  next
    case False
    with 2 have r: "buildTree_removeEmpty m this g s1 = Inr s'" by simp
    from False Nil.prems(9) have ne: "m_fileNodes gd \<noteq> [] \<or> remove1 q (m_folderNodes gd) \<noteq> []"
      by simp
    from r obtain m' where m: "m = Suc m'" by (cases m) auto
    from r show ?thesis using ne by (auto simp: m it(4) er)
  qed
  then show ?case using it er by auto
next
  case (Cons q2 qs)
  from Cons.prems(1) obtain m where n: "n = Suc m" by (cases n) auto
  from Cons.prems(5) have hp: "hasParent (heap s) q q2" and
    ch: "onlyChildChain (heap s) q2 qs g" by simp_all
  from Cons.prems(5) obtain q2d where q2d: "heap s q2 = Some q2d"
    "m_fileNodes q2d @ m_folderNodes q2d = [q]" by (auto split: option.splits)
  from hp Cons.prems(2) have par: "m_parentFolderNode qd = Some q2" by (simp add: hasParent_def)
  have q2this: "q2 \<noteq> this" using Cons.prems(8) by simp
  from Cons.prems(1) obtain s1 where
    1: "removeFolderNodes (Suc m) q2 [q] s = Inr s1" and
    2: "buildTree_removeEmpty m this q2 s1 = Inr s'"
    using q2this by (auto simp: n Cons.prems(2,3,4) par and_then_eq_Inr)
  from removeFolderNodes_childless_post[OF 1 q2d(1) Cons.prems(2) Cons.prems(3) Cons.prems(4)]
  obtain it where it: "it < length (m_folderNodes q2d)" "m_folderNodes q2d ! it = q"
    "heap s1 q2 = Some (q2d\<lparr>m_folderNodes := erase (m_folderNodes q2d) it\<rparr>)"
    "heap s1 q = None" "\<forall>a. a \<noteq> q2 \<and> a \<noteq> q \<longrightarrow> heap s1 a = heap s a" by blast
  have lists: "m_fileNodes q2d = []" "m_folderNodes q2d = [q]"
    using q2d(2) it(1) by (auto simp: append_eq_Cons_conv)
  then have it0: "it = 0" using it(1) by simp
  define q2d' where "q2d' = q2d\<lparr>m_folderNodes := erase (m_folderNodes q2d) it\<rparr>"
  have e1: "m_fileNodes q2d' = []" "m_folderNodes q2d' = []"
    by (simp_all add: q2d'_def lists it0 erase_def)
  have h1: "heap s1 q2 = Some q2d'" using it(3) by (simp add: q2d'_def)
  have dist: "distinct (q2 # qs @ [g])" "q \<notin> set (q2 # qs)" "q \<noteq> g" using Cons.prems(7) by auto
  have same: "\<forall>a \<in> set qs. heap s1 a = heap s a" using it(5) dist by auto
  have ch1: "onlyChildChain (heap s1) q2 qs g"
    using onlyChildChain_cong[OF same, of q2 g] ch h1 q2d(1) by (simp add: q2d'_def)
  have g1: "heap s1 g = Some gd" using it(5) dist Cons.prems(6) by auto
  have stop: "g = this \<or> m_fileNodes gd \<noteq> [] \<or> remove1 (last (q2 # qs)) (m_folderNodes gd) \<noteq> []"
    using Cons.prems(9) by simp
  have t: "this \<notin> set qs" using Cons.prems(8) by simp
  from Cons.IH[OF 2 h1 e1 ch1 g1 dist(1) t stop] have
    r: "heap s' g = Some (gd\<lparr>m_folderNodes := remove1 (last (q2 # qs)) (m_folderNodes gd)\<rparr>)"
    "\<forall>x \<in> set (q2 # qs). heap s' x = None"
    "\<forall>a. a \<noteq> g \<and> a \<notin> set (q2 # qs) \<longrightarrow> heap s' a = heap s1 a" by simp_all
  have "heap s' q = None" using r(3) dist it(4) by auto
  moreover have "\<forall>a. a \<noteq> g \<and> a \<notin> set (q # q2 # qs) \<longrightarrow> heap s' a = heap s a"
    using r(3) it(5) by auto
  ultimately show ?case using r(1,2) by simp
qed

lemma sortByPath_eq: "sortByPath h = (\<lambda>a b. pathOf h a < pathOf h b)"
  by (intro ext) (rule sortByPath_pathOf)

lemma envOk_sorted:
  "envOk env \<Longrightarrow> mset (sortedBy env key xs) = mset xs \<and> sorted (map key (sortedBy env key xs))"
  by (simp add: envOk_def)

lemma envOk_hashOrder_Nil: "envOk env \<Longrightarrow> hashOrder env [] = []"
proof -
  assume "envOk env"
  then have "mset (hashOrder env []) = mset ([] :: addr list)" by (simp add: envOk_def)
  then show ?thesis by simp
qed

lemma envOk_hashOrder_single: "envOk env \<Longrightarrow> hashOrder env [p] = [p]"
proof -
  assume "envOk env"
  then have "mset (hashOrder env [p]) = mset [p]" by (simp add: envOk_def)
  then show ?thesis by (metis mset_single_iff_right mset.simps(1) mset.simps(2) add_mset_eq_single)
qed

lemma partition_unfold:
  assumes "buildTree_partition fuel env this newFiles s = Inr (fs', del, add)"
  shows "\<exists>old. recursiveFileNodes fuel (heap s) this = Inr old \<and>
           fs' = sortedBy env (pathOf (heap s)) newFiles \<and>
           (del, add) = compareSortedLists (\<lambda>a b. pathOf (heap s) a < pathOf (heap s) b)
                          (sortedBy env (pathOf (heap s)) old) fs'"
proof -
  from assms obtain old where
    o: "recursiveFileNodes fuel (heap s) this = Inr old" and
    r: "(if \<exists>f \<in> set (old @ newFiles). heap s f = None then Inl DanglingPointer
         else
           let oldFiles = sortedBy env (pathOf (heap s)) old;
               fls = sortedBy env (pathOf (heap s)) newFiles;
               (deleted, added) = compareSortedLists (sortByPath (heap s)) oldFiles fls
           in Inr (fls, deleted, added)) = Inr (fs', del, add)"
    unfolding buildTree_partition_def and_then_eq_Inr by blast
  from r have "(let oldFiles = sortedBy env (pathOf (heap s)) old;
               fls = sortedBy env (pathOf (heap s)) newFiles;
               (deleted, added) = compareSortedLists (sortByPath (heap s)) oldFiles fls
           in (Inr (fls, deleted, added) :: error + _)) = Inr (fs', del, add)"
    by (simp split: if_splits)
  then have "fs' = sortedBy env (pathOf (heap s)) newFiles \<and>
           (del, add) = compareSortedLists (\<lambda>a b. pathOf (heap s) a < pathOf (heap s) b)
                          (sortedBy env (pathOf (heap s)) old) fs'"
    by (auto simp: Let_def sortByPath_eq split: prod.splits)
  with o show ?thesis by blast
qed

lemma partition_one_missing:
  assumes env: "envOk env"
    and rfn: "recursiveFileNodes fuel (heap s) this = Inr old"
    and dp: "distinct (map (pathOf (heap s)) old)"
    and f: "f \<in> set old"
    and same: "mset (map (pathOf (heap s)) newFiles) + {#pathOf (heap s) f#} =
               mset (map (pathOf (heap s)) old)"
    and part: "buildTree_partition fuel env this newFiles s = Inr (fs', del, add)"
  shows "del = [f] \<and> add = [] \<and> mset fs' = mset newFiles"
proof -
  let ?key = "pathOf (heap s)"
  let ?old = "sortedBy env ?key old"
  from partition_unfold[OF part] rfn have
    fs': "fs' = sortedBy env ?key newFiles" and
    cmp: "(del, add) = compareSortedLists (\<lambda>a b. ?key a < ?key b) ?old fs'" by auto
  have so: "mset ?old = mset old" "sorted (map ?key ?old)" using envOk_sorted[OF env] by auto
  have sf: "mset fs' = mset newFiles" "sorted (map ?key fs')" using envOk_sorted[OF env] fs' by auto
  have mo: "mset (map ?key ?old) = mset (map ?key old)" using so(1) by (metis mset_map)
  have mf: "mset (map ?key fs') = mset (map ?key newFiles)" using sf(1) by (metis mset_map)
  have dso: "distinct (map ?key ?old)" using mset_eq_imp_distinct_iff[OF mo] dp by simp
  have fin: "f \<in> set ?old" using so(1) f by (metis mset_eq_setD)
  have "mset (map ?key (remove1 f ?old)) + {#?key f#} = mset (map ?key fs') + {#?key f#}"
    using mset_map_remove1[OF fin, of ?key] mo mf same by simp
  then have "mset (map ?key (remove1 f ?old)) = mset (map ?key fs')" by simp
  then have "map ?key fs' = map ?key (remove1 f ?old)"
    using sorted_mset_unique[OF sf(2) sorted_remove1_map[OF so(2)]] by simp
  from compare_one_missing[OF so(2) dso fin this] cmp sf(1) show ?thesis by simp
qed

text \<open>
  What a run of \<open>buildTree\<close> that comes to its end has done when the new list lacks
  the path of one file \<open>f\<close> whose folders \<open>p # ps\<close> hold nothing else.
\<close>

lemma buildTree_one_missing_post:
  assumes env: "envOk env"
    and rfn: "recursiveFileNodes fuel (heap s) this = Inr old"
    and dp: "distinct (map (pathOf (heap s)) old)"
    and f: "f \<in> set old"
    and same: "mset (map (pathOf (heap s)) newFiles) + {#pathOf (heap s) f#} =
               mset (map (pathOf (heap s)) old)"
    and chain: "onlyChildChain (heap s) f (p # ps) g"
    and gd: "heap s g = Some gd"
    and dist: "distinct (f # p # ps @ [g])"
    and nthis: "this \<notin> set (f # p # ps)"
    and new: "set newFiles \<inter> set (this # f # p # ps @ [g]) = {}"
    and stop: "g = this \<or> m_fileNodes gd \<noteq> [] \<or>
               remove1 (last (p # ps)) (m_folderNodes gd) \<noteq> []"
    and run: "buildTree fuel env this newFiles overrideBaseDir fresh s = Inr s'"
  shows "heap s' f = None \<and> (\<forall>q \<in> set (p # ps). heap s' q = None) \<and>
         heap s' g = Some (gd\<lparr>m_folderNodes := remove1 (last (p # ps)) (m_folderNodes gd)\<rparr>) \<and>
         heap s' this \<noteq> None \<and>
         (\<forall>x \<in> set newFiles. heap s' x = None) \<and>
         (\<forall>a. a \<notin> set (f # p # ps @ [g]) \<union> set newFiles \<longrightarrow> heap s' a = heap s a)"
proof -
  from run obtain fs' del add s1 am s2 s3 dm where
    part: "buildTree_partition fuel env this newFiles s = Inr (fs', del, add)" and
    dl: "foldM deleteFileNode (subtractSortedList fs' add) s = Inr s1" and
    ad: "buildTree_addedMapping env this overrideBaseDir add [] fresh s1 = Inr (am, s2)" and
    af: "foldM (\<lambda>(folder, fns). addFileNodes folder fns) (hashEntries env am) s2 = Inr s3" and
    dmap: "buildTree_deletedMapping (heap s3) del [] = Inr dm" and
    rm: "foldM (buildTree_removeDeleted fuel this) (hashEntries env dm) s3 = Inr s'"
    by (auto simp: buildTree_def and_then_eq_Inr split: prod.splits)
  from partition_one_missing[OF env rfn dp f same part] have
    del: "del = [f]" and add: "add = []" and fs': "mset fs' = mset newFiles" by simp_all
  have setfs: "set fs' = set newFiles" using fs' by (metis mset_eq_setD)
  from dl have dl': "foldM deleteFileNode fs' s = Inr s1" by (simp add: add subtractSortedList_def)
  from foldM_deleteFileNode_post[OF dl'] have
    s1: "\<forall>d \<in> set newFiles. heap s1 d = None" "\<forall>a. a \<notin> set newFiles \<longrightarrow> heap s1 a = heap s a"
    by (simp_all add: setfs)
  from ad have "am = []" "s2 = s1" by (simp_all add: add)
  with af have s3: "s3 = s1" by (simp add: hashEntries_def envOk_hashOrder_Nil[OF env])
  have nf: "f \<notin> set newFiles" "p \<notin> set newFiles" "g \<notin> set newFiles" "this \<notin> set newFiles"
    "\<forall>a \<in> set ps. a \<notin> set newFiles" using new by auto
  from chain have hp: "hasParent (heap s) f p" and
    ch: "onlyChildChain (heap s) p ps g" by simp_all
  from chain obtain pd where pd: "heap s p = Some pd" "m_fileNodes pd @ m_folderNodes pd = [f]"
    by (auto split: option.splits)
  from hp obtain fd where fd: "heap s f = Some fd" "m_parentFolderNode fd = Some p"
    by (auto simp: hasParent_def split: option.splits)
  have "heap s1 f = Some fd" using s1(2) nf(1) fd(1) by simp
  with dmap have dm: "dm = [(p, [f])]" by (simp add: del s3 fd(2))
  have he: "hashEntries env dm = [(p, [f])]"
    by (simp add: dm hashEntries_def envOk_hashOrder_single[OF env])
  have pthis: "p \<noteq> this" using nthis by auto
  from rm obtain s4 where
    r1: "removeFileNodes p [f] s1 = Inr s4" and
    r2: "buildTree_removeEmpty fuel this p s4 = Inr s'"
    using pthis by (auto simp: he s3 buildTree_removeDeleted_def and_then_eq_Inr)
  have p1: "heap s1 p = Some pd" using s1(2) nf(2) pd(1) by simp
  from removeFileNodes_post[OF r1 p1] obtain ys where
    ys: "heap s4 p = Some (pd\<lparr>m_fileNodes := ys\<rparr>)" "mset ys + mset [f] = mset (m_fileNodes pd)"
    "heap s4 f = None" "\<forall>a. a \<noteq> p \<and> a \<notin> set [f] \<longrightarrow> heap s4 a = heap s1 a" by auto
  have "f \<in> set (m_fileNodes pd)" using ys(2) by (metis mset_eq_setD list.set_intros(1) set_mset_mset union_iff set_append mset_append)
  with pd(2) have lists: "m_fileNodes pd = [f]" "m_folderNodes pd = []"
    by (auto simp: append_eq_Cons_conv)
  with ys(2) have ysn: "ys = []" by simp
  define pd' where "pd' = pd\<lparr>m_fileNodes := ys\<rparr>"
  have p4: "heap s4 p = Some pd'" using ys(1) by (simp add: pd'_def)
  have e: "m_fileNodes pd' = []" "m_folderNodes pd' = []" by (simp_all add: pd'_def ysn lists)
  have fr4: "\<And>a. a \<noteq> p \<Longrightarrow> a \<noteq> f \<Longrightarrow> a \<notin> set newFiles \<Longrightarrow> heap s4 a = heap s a"
    using ys(4) s1(2) by simp
  have samech: "\<forall>a \<in> set ps. heap s4 a = heap s a"
  proof
    fix a assume a: "a \<in> set ps"
    then have "a \<noteq> p" "a \<noteq> f" "a \<notin> set newFiles" using dist nf(5) by auto
    then show "heap s4 a = heap s a" by (rule fr4)
  qed
  have ch4: "onlyChildChain (heap s4) p ps g"
    using onlyChildChain_cong[OF samech, of p g] ch p4 pd(1) by (simp add: pd'_def)
  have g4: "heap s4 g = Some gd"
  proof -
    have "g \<noteq> p" "g \<noteq> f" using dist by auto
    then show ?thesis using fr4 nf(3) gd by simp
  qed
  have d4: "distinct (p # ps @ [g])" using dist by simp
  have t4: "this \<notin> set ps" using nthis by simp
  from removeEmpty_chain[OF r2 p4 e ch4 g4 d4 t4 stop] have
    r: "heap s' g = Some (gd\<lparr>m_folderNodes := remove1 (last (p # ps)) (m_folderNodes gd)\<rparr>)"
    "\<forall>x \<in> set (p # ps). heap s' x = None"
    "\<forall>a. a \<noteq> g \<and> a \<notin> set (p # ps) \<longrightarrow> heap s' a = heap s4 a" by simp_all
  have c1: "heap s' f = None" using r(3) dist ys(3) by auto
  have c4: "\<forall>x \<in> set newFiles. heap s' x = None"
  proof
    fix x assume x: "x \<in> set newFiles"
    then have "x \<noteq> g" "x \<notin> set (p # ps)" "x \<noteq> f" using new by auto
    then have "heap s' x = heap s1 x" using r(3) ys(4) by simp
    then show "heap s' x = None" using s1(1) x by simp
  qed
  have c5: "\<forall>a. a \<notin> set (f # p # ps @ [g]) \<union> set newFiles \<longrightarrow> heap s' a = heap s a"
    using r(3) fr4 by auto
  have live: "heap s this \<noteq> None" using rfn by (cases fuel) (auto split: option.splits)
  have c3: "heap s' this \<noteq> None"
  proof (cases "this = g")
    case True
    then show ?thesis using r(1) by simp
  next
    case False
    then have "this \<notin> set (f # p # ps @ [g]) \<union> set newFiles" using nthis nf(4) by auto
    with c5 live show ?thesis by simp
  qed
  from c1 r(1,2) c3 c4 c5 show ?thesis by blast
qed

lemma ex_env_ok: "envOk ex_env"
  by (simp add: envOk_def ex_env_def)


subsection \<open>trim: what the null pointer means\<close>







subsection \<open>buildTree: the tree it leaves\<close>

text \<open>
  The lemmas of this part follow a run of \<open>buildTree\<close> on a store that holds a tree:
  each step of the run leaves a store that holds a tree again, and the files of the
  trees are accounted for as multisets.
\<close>

lemma root_in_nodes [simp]: "root t \<in> set (nodes t)"
  by (cases t) simp

lemma root_in_folders [simp]: "root t \<in> set (folders t)"
  by (cases t) simp

lemma mset_nodes: "mset (nodes t) = mset (folders t) + mset (allFiles t)"
proof (induction t)
  case (FTree a fs ts)
  have "mset (concat (map nodes ts)) = mset (concat (map folders ts)) + mset (concat (map allFiles ts))"
    using FTree.IH by (induction ts) auto
  then show ?case by simp
qed

lemma set_nodes: "set (nodes t) = set (folders t) \<union> set (allFiles t)"
  using mset_nodes[of t] by (metis set_mset_mset set_mset_union)

lemma repr_cong:
  "(\<And>a. a \<in> set (nodes t) \<Longrightarrow> h' a = h a) \<Longrightarrow> repr h' t = repr h t"
proof (induction t)
  case (FTree a fs ts)
  have a: "h' a = h a" using FTree.prems by simp
  have f: "\<And>f. f \<in> set fs \<Longrightarrow> hasParent h' f a = hasParent h f a"
    using FTree.prems by (simp add: hasParent_def)
  have t: "\<And>t. t \<in> set ts \<Longrightarrow> repr h' t = repr h t"
    using FTree.IH FTree.prems by auto
  have r: "\<And>t. t \<in> set ts \<Longrightarrow> hasParent h' (root t) a = hasParent h (root t) a"
  proof -
    fix t assume "t \<in> set ts"
    then have "root t \<in> set (nodes (FTree a fs ts))" by (auto intro!: bexI[of _ t])
    then have "h' (root t) = h (root t)" by (rule FTree.prems)
    then show "hasParent h' (root t) a = hasParent h (root t) a" by (simp add: hasParent_def)
  qed
  show ?case using a f t r by (auto split: option.splits)
qed

lemma appendAll_map:
  "(\<And>x. x \<in> set xs \<Longrightarrow> f x = Inr (g x)) \<Longrightarrow> appendAll f xs = Inr (concat (map g xs))"
  by (induction xs) simp_all

lemma fold_max_ge: "(x::nat) \<in> set xs \<Longrightarrow> x \<le> fold max xs k"
proof (induction xs arbitrary: k)
  case Nil then show ?case by simp
next
  case (Cons y ys)
  have m: "\<And>k. k \<le> fold max ys k" by (induction ys) (auto intro: order_trans[OF max.cobounded2])
  from Cons show ?case
  proof (cases "x = y")
    case True
    then show ?thesis using m[of "max y k"] by simp
  next
    case False
    with Cons show ?thesis by simp
  qed
qed

lemma height_sub: "t \<in> set ts \<Longrightarrow> height t \<le> fold max (map height ts) 0"
  by (rule fold_max_ge) simp

lemma recursiveFileNodes_repr:
  "repr h t \<Longrightarrow> height t \<le> n \<Longrightarrow> recursiveFileNodes n h (root t) = Inr (allFiles t)"
proof (induction n arbitrary: t)
  case 0
  then show ?case by (cases t) simp
next
  case (Suc n)
  obtain a fs ts where t: "t = FTree a fs ts" by (cases t)
  from Suc.prems(1) obtain nd where nd: "h a = Some nd" "m_fileNodes nd = fs"
    "m_folderNodes nd = map root ts" and sub: "\<And>t. t \<in> set ts \<Longrightarrow> repr h t"
    by (auto simp: t split: option.splits)
  have "\<And>t'. t' \<in> set ts \<Longrightarrow> recursiveFileNodes n h (root t') = Inr (allFiles t')"
  proof -
    fix t' assume m: "t' \<in> set ts"
    have "height t' \<le> n" using height_sub[OF m] Suc.prems(2) by (simp add: t)
    with Suc.IH[OF sub[OF m]] show "recursiveFileNodes n h (root t') = Inr (allFiles t')" by simp
  qed
  then have "appendAll (recursiveFileNodes n h) (map root ts) = Inr (concat (map allFiles ts))"
    by (induction ts) simp_all
  then show ?case by (simp add: t nd)
qed

text \<open>In a run that comes back, the traversal yields the files of the tree, whatever the fuel.\<close>

lemma appendAll_Inr:
  "appendAll f xs = Inr r \<Longrightarrow> \<exists>rs. length rs = length xs \<and> r = concat rs \<and>
      (\<forall>i < length xs. f (xs ! i) = Inr (rs ! i))"
proof (induction xs arbitrary: r)
  case Nil
  then show ?case by simp
next
  case (Cons x xs)
  from Cons.prems obtain r1 r2 where 1: "f x = Inr r1" "appendAll f xs = Inr r2" "r = r1 @ r2"
    by (auto simp: and_then_eq_Inr)
  from Cons.IH[OF 1(2)] obtain rs where rs: "length rs = length xs" "r2 = concat rs"
    "\<forall>i < length xs. f (xs ! i) = Inr (rs ! i)" by blast
  have "\<forall>i < length (x # xs). f ((x # xs) ! i) = Inr ((r1 # rs) ! i)"
    using 1(1) rs(3) by (auto simp: nth_Cons split: nat.splits)
  with rs 1 show ?case by (intro exI[of _ "r1 # rs"]) auto
qed

lemma recursiveFileNodes_post:
  "recursiveFileNodes n h (root t) = Inr xs \<Longrightarrow> repr h t \<Longrightarrow> xs = allFiles t"
proof (induction n arbitrary: t xs)
  case 0
  then show ?case by simp
next
  case (Suc n)
  obtain a fs ts where t: "t = FTree a fs ts" by (cases t)
  from Suc.prems(2) obtain nd where nd: "h a = Some nd" "m_fileNodes nd = fs"
    "m_folderNodes nd = map root ts" and sub: "\<And>t. t \<in> set ts \<Longrightarrow> repr h t"
    by (auto simp: t split: option.splits)
  from Suc.prems(1) obtain rest where
    rest: "appendAll (recursiveFileNodes n h) (map root ts) = Inr rest" "xs = fs @ rest"
    by (auto simp: t nd and_then_eq_Inr)
  from appendAll_Inr[OF rest(1)] obtain rs where rs: "length rs = length ts" "rest = concat rs"
    "\<forall>i < length ts. recursiveFileNodes n h (root (ts ! i)) = Inr (rs ! i)" by auto
  have "\<forall>i < length ts. rs ! i = allFiles (ts ! i)"
    using rs(3) Suc.IH sub by (metis nth_mem)
  then have "rs = map allFiles ts" using rs(1) by (simp add: list_eq_iff_nth_eq)
  then show ?case by (simp add: t rest rs)
qed

lemma firstSome_Some:
  "firstSome (map f xs) = Some y \<Longrightarrow>
     \<exists>xs1 x xs2. xs = xs1 @ x # xs2 \<and> (\<forall>z \<in> set xs1. f z = None) \<and> f x = Some y"
proof (induction xs)
  case Nil
  then show ?case by simp
next
  case (Cons x xs)
  show ?case
  proof (cases "f x")
    case None
    with Cons.prems have "firstSome (map f xs) = Some y" by simp
    from Cons.IH[OF this] obtain xs1 x' xs2 where
      "xs = xs1 @ x' # xs2" "\<forall>z \<in> set xs1. f z = None" "f x' = Some y" by blast
    with None have "x # xs = (x # xs1) @ x' # xs2 \<and> (\<forall>z \<in> set (x # xs1). f z = None) \<and> f x' = Some y"
      by simp
    then show ?thesis by blast
  next
    case (Some v)
    with Cons.prems have "x # xs = [] @ x # xs \<and> (\<forall>z \<in> set []. f z = None) \<and> f x = Some y" by simp
    then show ?thesis by blast
  qed
qed

lemma firstSome_mem: "firstSome (map f xs) = Some y \<Longrightarrow> \<exists>x \<in> set xs. f x = Some y"
proof (induction xs)
  case Nil then show ?case by simp
next
  case (Cons x xs) then show ?case by (cases "f x") auto
qed

lemma firstSome_None: "firstSome (map f xs) = None \<longleftrightarrow> (\<forall>x \<in> set xs. f x = None)"
proof (induction xs)
  case Nil then show ?case by simp
next
  case (Cons x xs) then show ?case by (cases "f x") auto
qed

lemma subtreeAt_None: "subtreeAt p t = None \<longleftrightarrow> p \<notin> set (folders t)"
proof (induction t)
  case (FTree a fs ts)
  then show ?case by (auto simp: firstSome_None)
qed

lemma subtreeAt_Some:
  "subtreeAt p t = Some tp \<Longrightarrow> root tp = p \<and> set (nodes tp) \<subseteq> set (nodes t)"
proof (induction t)
  case (FTree a fs ts)
  show ?case
  proof (cases "a = p")
    case True
    with FTree.prems show ?thesis by auto
  next
    case False
    with FTree.prems have "firstSome (map (subtreeAt p) ts) = Some tp" by simp
    from firstSome_mem[OF this] obtain x where x: "x \<in> set ts" "subtreeAt p x = Some tp" by blast
    from FTree.IH[OF x] have "root tp = p" "set (nodes tp) \<subseteq> set (nodes x)" by simp_all
    moreover have "set (nodes x) \<subseteq> set (nodes (FTree a fs ts))" using x(1) by auto
    ultimately show ?thesis by blast
  qed
qed

lemma subtreeAt_repr: "subtreeAt p t = Some tp \<Longrightarrow> repr h t \<Longrightarrow> repr h tp"
proof (induction t)
  case (FTree a fs ts)
  show ?case
  proof (cases "a = p")
    case True
    with FTree.prems show ?thesis by auto
  next
    case False
    with FTree.prems have "firstSome (map (subtreeAt p) ts) = Some tp" by simp
    from firstSome_mem[OF this] obtain x where x: "x \<in> set ts" "subtreeAt p x = Some tp" by blast
    from FTree.prems(2) x(1) have "repr h x" by (auto split: option.splits)
    with FTree.IH x show ?thesis by auto
  qed
qed

lemma folders_subset_nodes: "set (folders t) \<subseteq> set (nodes t)"
  by (simp add: set_nodes)

lemma replace_absent: "p \<notin> set (folders t) \<Longrightarrow> replace p tp' t = t"
proof (induction t)
  case (FTree a fs ts)
  then have "map (replace p tp') ts = ts" by (intro map_idI) auto
  with FTree.prems show ?case by simp
qed

lemma root_replace: "root tp' = p \<Longrightarrow> root (replace p tp' t) = root t"
  by (cases t) simp

text \<open>The one generic step: exchanging the subtree at a folder.\<close>

lemma replace_step:
  assumes "distinct (nodes (FTree a fs ts))" "a \<noteq> p" "subtreeAt p (FTree a fs ts) = Some tp"
  obtains ts1 tj ts2 where "ts = ts1 @ tj # ts2" "subtreeAt p tj = Some tp"
    "map (replace p tp') ts = ts1 @ replace p tp' tj # ts2"
    "distinct (nodes tj)"
    "a \<notin> set (nodes tj)" "set fs \<inter> set (nodes tj) = {}"
    "\<forall>x \<in> set (ts1 @ ts2). set (nodes x) \<inter> set (nodes tj) = {}"
proof -
  from assms(2,3) have "firstSome (map (subtreeAt p) ts) = Some tp" by simp
  from firstSome_Some[OF this] obtain ts1 tj ts2 where
    d: "ts = ts1 @ tj # ts2" and n1: "\<forall>z \<in> set ts1. subtreeAt p z = None" and
    s: "subtreeAt p tj = Some tp" by blast
  have dc: "distinct (concat (map nodes ts))" using assms(1) by simp
  have dj: "distinct (nodes tj)" using dc by (simp add: d)
  have disj: "\<forall>x \<in> set (ts1 @ ts2). set (nodes x) \<inter> set (nodes tj) = {}"
    using dc by (auto simp: d)
  have pj: "p \<in> set (nodes tj)" using subtreeAt_Some[OF s] root_in_nodes[of tp] by auto
  have "\<forall>x \<in> set (ts1 @ ts2). p \<notin> set (folders x)"
    using disj pj folders_subset_nodes by blast
  then have "map (replace p tp') ts1 = ts1" "map (replace p tp') ts2 = ts2"
    by (auto intro!: map_idI replace_absent)
  then have m: "map (replace p tp') ts = ts1 @ replace p tp' tj # ts2" by (simp add: d)
  have a: "a \<notin> set (nodes tj)" "set fs \<inter> set (nodes tj) = {}"
    using assms(1) by (auto simp: d)
  from d s m dj a disj show ?thesis by (rule that)
qed

lemma replace_folders:
  "subtreeAt p t = Some tp \<Longrightarrow> distinct (nodes t) \<Longrightarrow>
     mset (folders (replace p tp' t)) + mset (folders tp) = mset (folders t) + mset (folders tp')"
proof (induction t)
  case (FTree a fs ts)
  show ?case
  proof (cases "a = p")
    case True
    with FTree.prems show ?thesis by auto
  next
    case False
    from replace_step[OF FTree.prems(2) False FTree.prems(1), of tp'] obtain ts1 tj ts2 where
      d: "ts = ts1 @ tj # ts2" and s: "subtreeAt p tj = Some tp" and
      m: "map (replace p tp') ts = ts1 @ replace p tp' tj # ts2" and dj: "distinct (nodes tj)"
      by metis
    have "tj \<in> set ts" by (simp add: d)
    from FTree.IH[OF this s dj] show ?thesis using False
      by (simp add: m) (simp add: d)
  qed
qed

lemma replace_allFiles:
  "subtreeAt p t = Some tp \<Longrightarrow> distinct (nodes t) \<Longrightarrow>
     mset (allFiles (replace p tp' t)) + mset (allFiles tp) = mset (allFiles t) + mset (allFiles tp')"
proof (induction t)
  case (FTree a fs ts)
  show ?case
  proof (cases "a = p")
    case True
    with FTree.prems show ?thesis by auto
  next
    case False
    from replace_step[OF FTree.prems(2) False FTree.prems(1), of tp'] obtain ts1 tj ts2 where
      d: "ts = ts1 @ tj # ts2" and s: "subtreeAt p tj = Some tp" and
      m: "map (replace p tp') ts = ts1 @ replace p tp' tj # ts2" and dj: "distinct (nodes tj)"
      by metis
    have "tj \<in> set ts" by (simp add: d)
    from FTree.IH[OF this s dj] show ?thesis using False
      by (simp add: m) (simp add: d)
  qed
qed

lemma replace_nodes:
  assumes "subtreeAt p t = Some tp" "distinct (nodes t)"
  shows "mset (nodes (replace p tp' t)) + mset (nodes tp) = mset (nodes t) + mset (nodes tp')"
  using replace_folders[OF assms, of tp'] replace_allFiles[OF assms, of tp']
  by (simp add: mset_nodes) (metis (no_types, lifting) add.assoc add.commute)

lemma replace_repr:
  assumes "repr h t" "distinct (nodes t)" "subtreeAt p t = Some tp"
    and "repr h' tp'" "root tp' = p"
    and par: "\<And>g. hasParent h p g \<Longrightarrow> hasParent h' p g"
    and frame: "\<And>a. a \<in> set (nodes t) \<Longrightarrow> a \<notin> set (nodes tp) \<Longrightarrow> h' a = h a"
  shows "repr h' (replace p tp' t)"
  using assms(1,2,3) frame
proof (induction t)
  case (FTree a fs ts)
  show ?case
  proof (cases "a = p")
    case True
    then show ?thesis using assms(4) by simp
  next
    case False
    from replace_step[OF FTree.prems(2) False FTree.prems(3), of tp'] obtain ts1 tj ts2 where
      d: "ts = ts1 @ tj # ts2" and s: "subtreeAt p tj = Some tp" and
      m: "map (replace p tp') ts = ts1 @ replace p tp' tj # ts2" and dj: "distinct (nodes tj)" and
      a: "a \<notin> set (nodes tj)" "set fs \<inter> set (nodes tj) = {}" and
      disj: "\<forall>x \<in> set (ts1 @ ts2). set (nodes x) \<inter> set (nodes tj) = {}"
      by metis
    have sub: "set (nodes tp) \<subseteq> set (nodes tj)" using subtreeAt_Some[OF s] by simp
    have tj: "tj \<in> set ts" by (simp add: d)
    from FTree.prems(1) obtain nd where nd: "h a = Some nd" "m_fileNodes nd = fs"
      "m_folderNodes nd = map root ts" and
      fp: "\<And>f. f \<in> set fs \<Longrightarrow> hasParent h f a" and
      tr: "\<And>t. t \<in> set ts \<Longrightarrow> repr h t \<and> hasParent h (root t) a"
      by (auto split: option.splits)
    have ha: "h' a = h a" using FTree.prems(4)[of a] a(1) sub by auto
    have hf: "\<And>f. f \<in> set fs \<Longrightarrow> hasParent h' f a"
    proof -
      fix f assume f: "f \<in> set fs"
      then have "f \<notin> set (nodes tp)" using a(2) sub by auto
      then have "h' f = h f" using FTree.prems(4)[of f] f by simp
      then show "hasParent h' f a" using fp[OF f] by (simp add: hasParent_def)
    qed
    have others: "\<And>x. x \<in> set (ts1 @ ts2) \<Longrightarrow> repr h' x \<and> hasParent h' (root x) a"
    proof -
      fix x assume x: "x \<in> set (ts1 @ ts2)"
      then have xs: "x \<in> set ts" by (auto simp: d)
      have eq: "\<And>b. b \<in> set (nodes x) \<Longrightarrow> h' b = h b"
      proof -
        fix b assume b: "b \<in> set (nodes x)"
        then have "b \<notin> set (nodes tp)" using disj x sub by blast
        moreover have "b \<in> set (nodes (FTree a fs ts))" using b xs by auto
        ultimately show "h' b = h b" by (rule FTree.prems(4)[rotated])
      qed
      have "repr h' x = repr h x" by (rule repr_cong) (rule eq)
      moreover have "h' (root x) = h (root x)" by (rule eq) simp
      ultimately show "repr h' x \<and> hasParent h' (root x) a"
        using tr[OF xs] by (simp add: hasParent_def)
    qed
    have fr: "\<And>b. b \<in> set (nodes tj) \<Longrightarrow> b \<notin> set (nodes tp) \<Longrightarrow> h' b = h b"
      using FTree.prems(4) tj by auto
    have rj: "repr h' (replace p tp' tj)"
      using FTree.IH[OF tj] tr[OF tj] dj s fr by blast
    have pj: "hasParent h' (root tj) a"
    proof (cases "root tj = p")
      case True
      then show ?thesis using par tr[OF tj] by simp
    next
      case F: False
      have "root tj \<notin> set (nodes tp)"
      proof
        assume in_tp: "root tj \<in> set (nodes tp)"
        obtain b gs us where tjd: "tj = FTree b gs us" by (cases tj)
        with F s have "firstSome (map (subtreeAt p) us) = Some tp" by simp
        from firstSome_mem[OF this] obtain u where u: "u \<in> set us" "subtreeAt p u = Some tp" by blast
        have "set (nodes tp) \<subseteq> set (nodes u)" using subtreeAt_Some[OF u(2)] by simp
        with in_tp have "b \<in> set (nodes u)" by (auto simp: tjd)
        with u(1) dj show False by (auto simp: tjd)
      qed
      then have "h' (root tj) = h (root tj)" using fr by simp
      then show ?thesis using tr[OF tj] by (simp add: hasParent_def)
    qed
    have rr: "root (replace p tp' tj) = root tj" using assms(5) by (rule root_replace)
    have "map root (ts1 @ replace p tp' tj # ts2) = map root ts" by (simp add: d rr)
    then show ?thesis
      using False ha nd hf others rj pj rr
      by (auto simp: m)
  qed
qed

lemma distinct_iff_count_le1: "distinct xs \<longleftrightarrow> (\<forall>a. count (mset xs) a \<le> 1)"
proof (induction xs)
  case Nil
  then show ?case by simp
next
  case (Cons x xs)
  show ?case
  proof
    assume d: "distinct (x # xs)"
    then have nx: "x \<notin> set xs" and le: "\<forall>a. count (mset xs) a \<le> 1" using Cons.IH by simp_all
    have z: "count (mset xs) x = 0" using nx by (simp add: count_eq_zero_iff)
    show "\<forall>a. count (mset (x # xs)) a \<le> 1"
    proof
      fix a
      have e: "count (mset (x # xs)) a = (if a = x then Suc (count (mset xs) a) else count (mset xs) a)"
        by simp
      show "count (mset (x # xs)) a \<le> 1"
      proof (cases "a = x")
        case True
        with e z show ?thesis by presburger
      next
        case False
        with e le show ?thesis by presburger
      qed
    qed
  next
    assume c: "\<forall>a. count (mset (x # xs)) a \<le> 1"
    have e: "\<And>a. count (mset (x # xs)) a =
               (if a = x then Suc (count (mset xs) a) else count (mset xs) a)"
      by simp
    from c have "count (mset (x # xs)) x \<le> 1" by blast
    with e[of x] have "count (mset xs) x = 0" by presburger
    then have nx: "x \<notin> set xs" by (simp add: count_eq_zero_iff)
    have "\<forall>a. count (mset xs) a \<le> 1"
    proof
      fix a
      from c have "count (mset (x # xs)) a \<le> 1" by blast
      with e[of a] show "count (mset xs) a \<le> 1" by presburger
    qed
    with Cons.IH nx show "distinct (x # xs)" by simp
  qed
qed

lemma subtreeAt_distinct: "subtreeAt p t = Some tp \<Longrightarrow> distinct (nodes t) \<Longrightarrow> distinct (nodes tp)"
proof (induction t)
  case (FTree a fs ts)
  show ?case
  proof (cases "a = p")
    case True
    with FTree.prems show ?thesis by auto
  next
    case False
    with FTree.prems have "firstSome (map (subtreeAt p) ts) = Some tp" by simp
    from firstSome_mem[OF this] obtain x where x: "x \<in> set ts" "subtreeAt p x = Some tp" by blast
    have "distinct (concat (map nodes ts))" using FTree.prems(2) by simp
    then have "distinct (nodes x)" using x(1) by (auto simp: distinct_concat_iff)
    with FTree.IH[OF x] show ?thesis by simp
  qed
qed

lemma distinct_from_mset_eq:
  assumes eq: "mset xs' + mset yp = mset xs + mset yp'"
    and dx: "distinct xs" and dy: "distinct yp'"
    and sub: "set yp \<subseteq> set xs" and dyp: "distinct yp"
    and disj: "set yp' \<inter> (set xs - set yp) = {}"
  shows "distinct xs'"
proof -
  have "count (mset xs') a \<le> 1" for a
  proof -
    have c: "count (mset xs') a + count (mset yp) a = count (mset xs) a + count (mset yp') a"
      using eq by (metis count_union)
    have cx: "count (mset xs) a \<le> 1" using dx by (simp add: distinct_iff_count_le1)
    have cy: "count (mset yp') a \<le> 1" using dy by (simp add: distinct_iff_count_le1)
    show ?thesis
    proof (cases "a \<in> set yp'")
      case False
      then have "count (mset yp') a = 0" by (simp add: count_eq_zero_iff)
      with c cx show ?thesis by simp
    next
      case True
      with disj have "a \<notin> set xs \<or> a \<in> set yp" by auto
      then show ?thesis
      proof
        assume "a \<notin> set xs"
        then have "count (mset xs) a = 0" by (simp add: count_eq_zero_iff)
        with c cy show ?thesis by simp
      next
        assume "a \<in> set yp"
        then have "count (mset yp) a \<noteq> 0" by (simp add: count_eq_zero_iff)
        with c cx cy show ?thesis by linarith
      qed
    qed
  qed
  then show ?thesis by (simp add: distinct_iff_count_le1)
qed

lemma surgery:
  assumes tr: "treeAt h this t" and st: "subtreeAt p t = Some tp"
    and r': "repr h' tp'" and ro: "root tp' = p" and d': "distinct (nodes tp')"
    and par: "\<And>g. hasParent h p g \<Longrightarrow> hasParent h' p g"
    and frame: "\<And>a. a \<in> set (nodes t) \<Longrightarrow> a \<notin> set (nodes tp) \<Longrightarrow> h' a = h a"
    and disj: "set (nodes tp') \<inter> (set (nodes t) - set (nodes tp)) = {}"
  shows "\<exists>t'. treeAt h' this t' \<and>
           mset (folders t') + mset (folders tp) = mset (folders t) + mset (folders tp') \<and>
           mset (allFiles t') + mset (allFiles tp) = mset (allFiles t) + mset (allFiles tp') \<and>
           mset (nodes t') + mset (nodes tp) = mset (nodes t) + mset (nodes tp')"
proof -
  let ?t' = "replace p tp' t"
  from tr have r: "repr h t" and rt: "root t = this" and d: "distinct (nodes t)"
    by (simp_all add: treeAt_def)
  have 1: "repr h' ?t'" by (rule replace_repr[OF r d st r' ro par frame])
  have 2: "root ?t' = this" using root_replace[OF ro] rt by simp
  have n: "mset (nodes ?t') + mset (nodes tp) = mset (nodes t) + mset (nodes tp')"
    by (rule replace_nodes[OF st d])
  have sub: "set (nodes tp) \<subseteq> set (nodes t)" using subtreeAt_Some[OF st] by simp
  have dtp: "distinct (nodes tp)" by (rule subtreeAt_distinct[OF st d])
  have 3: "distinct (nodes ?t')"
    by (rule distinct_from_mset_eq[OF n d d' sub dtp disj])
  show ?thesis
    using 1 2 3 n replace_folders[OF st d, of tp'] replace_allFiles[OF st d, of tp']
    by (auto simp: treeAt_def)
qed

lemma insertNode_index: "\<exists>i \<le> length xs. insertNode xs x = take i xs @ x # drop i xs"
proof (cases "length xs = 0 \<or> last xs < x")
  case True
  then have "insertNode xs x = take (length xs) xs @ x # drop (length xs) xs"
    by (simp add: insertNode_def)
  then show ?thesis by blast
next
  case False
  let ?i = "min (lower_bound xs x) (length xs)"
  have "take (lower_bound xs x) xs = take ?i xs" "drop (lower_bound xs x) xs = drop ?i xs"
    by (simp_all add: min_def)
  then have "insertNode xs x = take ?i xs @ x # drop ?i xs"
    using False by (simp add: insertNode_def Let_def)
  moreover have "?i \<le> length xs" by simp
  ultimately show ?thesis by blast
qed

lemma addFolderNodes_single_post:
  assumes "addFolderNodes p [c] s = Inr s'" "p \<noteq> c"
  shows "\<exists>pd cd. heap s p = Some pd \<and> heap s c = Some cd \<and>
           heap s' = (heap s)(c \<mapsto> cd\<lparr>m_parentFolderNode := Some p\<rparr>,
                              p \<mapsto> pd\<lparr>m_folderNodes := insertNode (m_folderNodes pd) c\<rparr>) \<and>
           events s' = events s @ [FoldersAboutToBeAdded p [c], FoldersAdded p]"
proof -
  from assms(1) obtain s0 s1 s2 where
    a: "assertManagingProject p s = Inr s0" and
    1: "setFields c (\<lambda>n. n\<lparr>m_parentFolderNode := Some p\<rparr>)
          (emit (FoldersAboutToBeAdded p [c]) s0) = Inr s1" and
    2: "setFields p (\<lambda>n. n\<lparr>m_folderNodes := insertNode (m_folderNodes n) c\<rparr>) s1 = Inr s2" and
    3: "s' = emit (FoldersAdded p) s2"
    by (auto simp: addFolderNodes_def and_then_eq_Inr)
  have s0: "s0 = s" using a by (rule assertManagingProject_eq_Inr)
  from 1 obtain cd where cd: "heap s c = Some cd" and
    s1: "s1 = (emit (FoldersAboutToBeAdded p [c]) s)\<lparr>heap := (heap s)(c \<mapsto> cd\<lparr>m_parentFolderNode := Some p\<rparr>)\<rparr>"
    by (auto simp: setFields_eq_Inr s0)
  from 2 obtain pd where pd: "heap s1 p = Some pd" and
    s2: "s2 = s1\<lparr>heap := (heap s1)(p \<mapsto> pd\<lparr>m_folderNodes := insertNode (m_folderNodes pd) c\<rparr>)\<rparr>"
    by (auto simp: setFields_eq_Inr)
  have "heap s p = Some pd" using pd assms(2) by (simp add: s1)
  then show ?thesis using cd by (simp add: 3 s2 s1)
qed

lemma addFileNodes_loop_post:
  "addFileNodes_loop p fns s = Inr s' \<Longrightarrow> p \<notin> set fns \<Longrightarrow> heap s p = Some pd \<Longrightarrow>
     \<exists>ys. heap s' p = Some (pd\<lparr>m_fileNodes := ys\<rparr>) \<and>
          mset ys = mset (m_fileNodes pd) + mset fns \<and>
          (\<forall>f \<in> set fns. \<exists>fd. heap s f = Some fd \<and>
               heap s' f = Some (fd\<lparr>m_parentFolderNode := Some p\<rparr>)) \<and>
          (\<forall>a. a \<noteq> p \<and> a \<notin> set fns \<longrightarrow> heap s' a = heap s a) \<and>
          events s' = events s"
proof (induction fns arbitrary: s pd)
  case Nil
  then show ?case by (auto intro: exI[of _ "m_fileNodes pd"])
next
  case (Cons f fns)
  from Cons.prems(1) obtain s1 s2 where
    1: "setFields f (\<lambda>n. n\<lparr>m_parentFolderNode := Some p\<rparr>) s = Inr s1" and
    2: "setFields p (\<lambda>n. n\<lparr>m_fileNodes := insertNode (m_fileNodes n) f\<rparr>) s1 = Inr s2" and
    3: "addFileNodes_loop p fns s2 = Inr s'"
    by (auto simp: and_then_eq_Inr)
  from 1 obtain fd where fd: "heap s f = Some fd" and
    s1: "s1 = s\<lparr>heap := (heap s)(f \<mapsto> fd\<lparr>m_parentFolderNode := Some p\<rparr>)\<rparr>"
    by (auto simp: setFields_eq_Inr)
  have pf: "p \<noteq> f" "p \<notin> set fns" using Cons.prems(2) by auto
  have p1: "heap s1 p = Some pd" using Cons.prems(3) pf by (simp add: s1)
  define pd2 where "pd2 = pd\<lparr>m_fileNodes := insertNode (m_fileNodes pd) f\<rparr>"
  have s2: "s2 = s1\<lparr>heap := (heap s1)(p \<mapsto> pd2)\<rparr>"
    using 2 p1 by (auto simp: setFields_eq_Inr pd2_def)
  have p2: "heap s2 p = Some pd2" by (simp add: s2)
  from Cons.IH[OF 3 pf(2) p2] obtain ys where
    y1: "heap s' p = Some (pd2\<lparr>m_fileNodes := ys\<rparr>)" and
    y2: "mset ys = mset (m_fileNodes pd2) + mset fns" and
    y3: "\<forall>g \<in> set fns. \<exists>gd. heap s2 g = Some gd \<and>
               heap s' g = Some (gd\<lparr>m_parentFolderNode := Some p\<rparr>)" and
    y4: "\<forall>a. a \<noteq> p \<and> a \<notin> set fns \<longrightarrow> heap s' a = heap s2 a" and
    y5: "events s' = events s2" by blast
  have h2: "\<And>a. a \<noteq> p \<Longrightarrow> a \<noteq> f \<Longrightarrow> heap s2 a = heap s a" by (simp add: s2 s1)
  have h2f: "heap s2 f = Some (fd\<lparr>m_parentFolderNode := Some p\<rparr>)" using pf by (simp add: s2 s1)
  have a: "heap s' p = Some (pd\<lparr>m_fileNodes := ys\<rparr>)" using y1 by (simp add: pd2_def)
  have b: "mset ys = mset (m_fileNodes pd) + mset (f # fns)"
    using y2 by (simp add: pd2_def mset_insertNode)
  have c: "\<forall>g \<in> set (f # fns). \<exists>gd. heap s g = Some gd \<and>
               heap s' g = Some (gd\<lparr>m_parentFolderNode := Some p\<rparr>)"
  proof
    fix g assume g: "g \<in> set (f # fns)"
    show "\<exists>gd. heap s g = Some gd \<and> heap s' g = Some (gd\<lparr>m_parentFolderNode := Some p\<rparr>)"
    proof (cases "g \<in> set fns")
      case True
      with y3 obtain gd where gd: "heap s2 g = Some gd"
        "heap s' g = Some (gd\<lparr>m_parentFolderNode := Some p\<rparr>)" by blast
      show ?thesis
      proof (cases "g = f")
        case True
        with gd h2f fd show ?thesis by auto
      next
        case False
        have "g \<noteq> p" using True pf by auto
        with gd h2[OF this False] show ?thesis by auto
      qed
    next
      case False
      with g have gf: "g = f" by simp
      have "heap s' f = heap s2 f" using y4 pf False gf by auto
      with h2f fd gf show ?thesis by simp
    qed
  qed
  have d: "\<forall>a. a \<noteq> p \<and> a \<notin> set (f # fns) \<longrightarrow> heap s' a = heap s a"
    using y4 h2 by auto
  have e: "events s' = events s" using y5 by (simp add: s2 s1)
  from a b c d e show ?case by blast
qed

lemma addFileNodes_post:
  assumes "addFileNodes p fns s = Inr s'" "p \<notin> set fns" "heap s p = Some pd"
  shows "\<exists>ys. heap s' p = Some (pd\<lparr>m_fileNodes := ys\<rparr>) \<and>
          mset ys = mset (m_fileNodes pd) + mset fns \<and>
          (\<forall>f \<in> set fns. \<exists>fd. heap s f = Some fd \<and>
               heap s' f = Some (fd\<lparr>m_parentFolderNode := Some p\<rparr>)) \<and>
          (\<forall>a. a \<noteq> p \<and> a \<notin> set fns \<longrightarrow> heap s' a = heap s a)"
proof (cases "fns = []")
  case True
  with assms have "s' = s"
    by (auto simp: addFileNodes_def and_then_eq_Inr dest: assertManagingProject_eq_Inr)
  with True assms(3) show ?thesis by (auto intro: exI[of _ "m_fileNodes pd"])
next
  case False
  with assms(1) obtain s1 where
    l: "addFileNodes_loop p fns (emit (FilesAboutToBeAdded p fns) s) = Inr s1" and
    s': "s' = emit (FilesAdded p) s1"
    by (auto simp: addFileNodes_def and_then_eq_Inr dest!: assertManagingProject_eq_Inr)
  have h: "heap (emit (FilesAboutToBeAdded p fns) s) p = Some pd" using assms(3) by simp
  from addFileNodes_loop_post[OF l assms(2) h] show ?thesis by (auto simp: s')
qed

lemma hasParent_unique: "hasParent h c p \<Longrightarrow> hasParent h c q \<Longrightarrow> p = q"
  by (auto simp: hasParent_def split: option.splits)

lemma repr_unfold:
  "repr h (FTree p fs ts) \<Longrightarrow>
     \<exists>pd. h p = Some pd \<and> m_fileNodes pd = fs \<and> m_folderNodes pd = map root ts \<and>
          (\<forall>f \<in> set fs. hasParent h f p) \<and> (\<forall>t \<in> set ts. repr h t \<and> hasParent h (root t) p)"
  by (auto split: option.splits)

lemma subtreeAt_folder:
  "p \<in> set (folders t) \<Longrightarrow> \<exists>fs ts. subtreeAt p t = Some (FTree p fs ts)"
proof -
  assume "p \<in> set (folders t)"
  then obtain tp where tp: "subtreeAt p t = Some tp" using subtreeAt_None[of p t] by fastforce
  from subtreeAt_Some[OF tp] have "root tp = p" by simp
  then show ?thesis using tp by (cases tp) auto
qed

lemma firstSome_append_None:
  "(\<forall>z \<in> set xs1. f z = None) \<Longrightarrow> firstSome (map f (xs1 @ xs2)) = firstSome (map f xs2)"
  by (induction xs1) auto

lemma subtreeAt_child:
  assumes d: "distinct (nodes (FTree a fs ts))" and x: "x \<in> set ts"
    and s: "subtreeAt p x = Some tp"
  shows "subtreeAt p (FTree a fs ts) = Some tp"
proof -
  from subtreeAt_Some[OF s] have px: "p \<in> set (nodes x)" using root_in_nodes[of tp] by auto
  have ap: "a \<noteq> p" using d x px by auto
  from split_list[OF x] obtain ts1 ts2 where ts: "ts = ts1 @ x # ts2" by blast
  have dc: "distinct (concat (map nodes ts))" using d by simp
  have "\<forall>z \<in> set ts1. set (nodes z) \<inter> set (nodes x) = {}" using dc by (auto simp: ts)
  then have "\<forall>z \<in> set ts1. p \<notin> set (folders z)" using px folders_subset_nodes by blast
  then have "\<forall>z \<in> set ts1. subtreeAt p z = None" by (simp add: subtreeAt_None)
  then have "firstSome (map (subtreeAt p) ts) = firstSome (map (subtreeAt p) (x # ts2))"
    unfolding ts by (rule firstSome_append_None)
  then show ?thesis using ap s by simp
qed

lemma distinct_child: "distinct (nodes (FTree a fs ts)) \<Longrightarrow> x \<in> set ts \<Longrightarrow> distinct (nodes x)"
  by (auto simp: distinct_concat_iff)

text \<open>The folder that holds a file of the tree, and the folder that holds a folder of it.\<close>

lemma container_file:
  "repr h t \<Longrightarrow> distinct (nodes t) \<Longrightarrow> f \<in> set (allFiles t) \<Longrightarrow>
     \<exists>p fs ts. hasParent h f p \<and> subtreeAt p t = Some (FTree p fs ts) \<and> f \<in> set fs"
proof (induction t)
  case (FTree a fs ts)
  show ?case
  proof (cases "f \<in> set fs")
    case True
    with FTree.prems(1) have "hasParent h f a" by (auto split: option.splits)
    with True show ?thesis by auto
  next
    case False
    with FTree.prems(3) obtain x where x: "x \<in> set ts" "f \<in> set (allFiles x)" by auto
    have rx: "repr h x" using FTree.prems(1) x(1) by (auto split: option.splits)
    from FTree.IH[OF x(1) rx distinct_child[OF FTree.prems(2) x(1)] x(2)] obtain p gs us where
      p: "hasParent h f p" "subtreeAt p x = Some (FTree p gs us)" "f \<in> set gs" by blast
    from subtreeAt_child[OF FTree.prems(2) x(1) p(2)] p show ?thesis by blast
  qed
qed

lemma container_folder:
  "repr h t \<Longrightarrow> distinct (nodes t) \<Longrightarrow> c \<in> set (folders t) \<Longrightarrow> c \<noteq> root t \<Longrightarrow>
     \<exists>g fs ts. hasParent h c g \<and> subtreeAt g t = Some (FTree g fs ts) \<and> c \<in> root ` set ts"
proof (induction t)
  case (FTree a fs ts)
  from FTree.prems(3,4) obtain x where x: "x \<in> set ts" "c \<in> set (folders x)" by auto
  have rx: "repr h x" "hasParent h (root x) a" using FTree.prems(1) x(1) by (auto split: option.splits)
  show ?case
  proof (cases "c = root x")
    case True
    then show ?thesis using rx(2) x(1) by auto
  next
    case False
    from FTree.IH[OF x(1) rx(1) distinct_child[OF FTree.prems(2) x(1)] x(2) False] obtain g gs us where
      g: "hasParent h c g" "subtreeAt g x = Some (FTree g gs us)" "c \<in> root ` set us" by blast
    from subtreeAt_child[OF FTree.prems(2) x(1) g(2)] g show ?thesis by blast
  qed
qed

lemma tree_setFiles:
  assumes tr: "treeAt h this t" and st: "subtreeAt p t = Some (FTree p fs ts)"
    and hp: "h p = Some pd" and h'p: "h' p = Some (pd\<lparr>m_fileNodes := ys\<rparr>)"
    and par: "\<forall>f \<in> set ys. hasParent h' f p"
    and frame: "\<forall>a \<in> set (nodes t). a \<noteq> p \<and> a \<notin> set fs \<longrightarrow> h' a = h a"
    and dy: "distinct ys" and disj: "set ys \<inter> (set (nodes t) - set fs) = {}"
  shows "\<exists>t'. treeAt h' this t' \<and>
           mset (allFiles t') + mset fs = mset (allFiles t) + mset ys \<and>
           mset (folders t') = mset (folders t) \<and>
           mset (nodes t') + mset fs = mset (nodes t) + mset ys"
proof -
  let ?tp = "FTree p fs ts" and ?tp' = "FTree p ys ts"
  from tr have r: "repr h t" and d: "distinct (nodes t)" by (simp_all add: treeAt_def)
  have rp: "repr h ?tp" by (rule subtreeAt_repr[OF st r])
  have dp: "distinct (nodes ?tp)" by (rule subtreeAt_distinct[OF st d])
  have sub: "set (nodes ?tp) \<subseteq> set (nodes t)" using subtreeAt_Some[OF st] by simp
  from repr_unfold[OF rp] hp have pd: "m_fileNodes pd = fs" "m_folderNodes pd = map root ts"
    and subs: "\<forall>x \<in> set ts. repr h x \<and> hasParent h (root x) p" by auto
  have eq: "\<And>x a. x \<in> set ts \<Longrightarrow> a \<in> set (nodes x) \<Longrightarrow> h' a = h a"
  proof -
    fix x a assume x: "x \<in> set ts" and a: "a \<in> set (nodes x)"
    have "a \<in> set (nodes t)" using sub x a by auto
    moreover have "a \<noteq> p" "a \<notin> set fs" using dp x a by auto
    ultimately show "h' a = h a" using frame by blast
  qed
  have r': "repr h' ?tp'"
  proof -
    have "\<forall>x \<in> set ts. repr h' x \<and> hasParent h' (root x) p"
    proof
      fix x assume x: "x \<in> set ts"
      have "repr h' x = repr h x" by (rule repr_cong) (rule eq[OF x])
      moreover have "h' (root x) = h (root x)" by (rule eq[OF x]) simp
      ultimately show "repr h' x \<and> hasParent h' (root x) p" using subs x by (simp add: hasParent_def)
    qed
    then show ?thesis using h'p pd par by simp
  qed
  have pn: "p \<in> set (nodes t)" "p \<notin> set fs" using sub dp by auto
  have d': "distinct (nodes ?tp')"
  proof -
    have "p \<notin> set ys" using disj pn by auto
    moreover have "set ys \<inter> set (concat (map nodes ts)) = {}"
    proof -
      have "set (concat (map nodes ts)) \<subseteq> set (nodes t) - set fs" using sub dp by auto
      with disj show ?thesis by blast
    qed
    ultimately show ?thesis using dp dy by auto
  qed
  have par': "\<And>g. hasParent h p g \<Longrightarrow> hasParent h' p g" using hp h'p by (simp add: hasParent_def)
  have fr: "\<And>a. a \<in> set (nodes t) \<Longrightarrow> a \<notin> set (nodes ?tp) \<Longrightarrow> h' a = h a" using frame by auto
  have dj: "set (nodes ?tp') \<inter> (set (nodes t) - set (nodes ?tp)) = {}" using disj by auto
  from surgery[OF tr st r' _ d' par' fr dj] obtain t' where
    t': "treeAt h' this t'"
    "mset (folders t') + mset (folders ?tp) = mset (folders t) + mset (folders ?tp')"
    "mset (allFiles t') + mset (allFiles ?tp) = mset (allFiles t) + mset (allFiles ?tp')"
    "mset (nodes t') + mset (nodes ?tp) = mset (nodes t) + mset (nodes ?tp')" by auto
  have "mset (folders t') = mset (folders t)" using t'(2) by simp
  moreover have "mset (allFiles t') + mset fs = mset (allFiles t) + mset ys"
    using t'(3) by (simp add: add.assoc[symmetric])
  moreover have "mset (nodes t') + mset fs = mset (nodes t) + mset ys"
    using t'(4) by (simp add: add.assoc[symmetric])
  ultimately show ?thesis using t'(1) by blast
qed

lemma concat_map_take_drop:
  "concat (map f (take i xs)) @ concat (map f (drop i xs)) = concat (map f xs)"
proof -
  have "concat (map f (take i xs @ drop i xs)) = concat (map f xs)" by simp
  then show ?thesis unfolding map_append concat_append .
qed

lemma mset_concat_take_drop:
  "mset (concat (map f (take i xs))) + mset (concat (map f (drop i xs))) = mset (concat (map f xs))"
  using concat_map_take_drop[of f i xs] by (metis mset_append)

lemma tree_addFolder:
  assumes tr: "treeAt h this t" and pin: "p \<in> set (folders t)" and fresh: "tmp \<notin> set (nodes t)"
    and hp: "h p = Some pd"
    and h': "h' = h(tmp \<mapsto> nf, p \<mapsto> pd\<lparr>m_folderNodes := insertNode (m_folderNodes pd) tmp\<rparr>)"
    and nf: "m_fileNodes nf = []" "m_folderNodes nf = []" "m_parentFolderNode nf = Some p"
  shows "\<exists>t'. treeAt h' this t' \<and>
           mset (folders t') = add_mset tmp (mset (folders t)) \<and>
           mset (allFiles t') = mset (allFiles t) \<and>
           mset (nodes t') = add_mset tmp (mset (nodes t))"
proof -
  from subtreeAt_folder[OF pin] obtain fs ts where st: "subtreeAt p t = Some (FTree p fs ts)" by blast
  let ?tp = "FTree p fs ts"
  from tr have r: "repr h t" and d: "distinct (nodes t)" by (simp_all add: treeAt_def)
  have rp: "repr h ?tp" by (rule subtreeAt_repr[OF st r])
  have dp: "distinct (nodes ?tp)" by (rule subtreeAt_distinct[OF st d])
  have sub: "set (nodes ?tp) \<subseteq> set (nodes t)" using subtreeAt_Some[OF st] by simp
  from repr_unfold[OF rp] hp have pd: "m_fileNodes pd = fs" "m_folderNodes pd = map root ts"
    and fl: "\<forall>f \<in> set fs. hasParent h f p"
    and subs: "\<forall>x \<in> set ts. repr h x \<and> hasParent h (root x) p" by auto
  from insertNode_index[of "map root ts" tmp] obtain i where
    i: "i \<le> length ts" "insertNode (map root ts) tmp = take i (map root ts) @ tmp # drop i (map root ts)"
    by auto
  define ts' where "ts' = take i ts @ FTree tmp [] [] # drop i ts"
  let ?tp' = "FTree p fs ts'"
  have ptmp: "p \<noteq> tmp" using pin fresh folders_subset_nodes by blast
  have mr: "map root ts' = insertNode (map root ts) tmp" by (simp add: ts'_def i(2) take_map drop_map)
  have old: "\<And>a. a \<in> set (nodes t) \<Longrightarrow> a \<noteq> p \<Longrightarrow> h' a = h a" using fresh by (auto simp: h')
  have h'p: "h' p = Some (pd\<lparr>m_folderNodes := insertNode (m_folderNodes pd) tmp\<rparr>)" by (simp add: h')
  have h't: "h' tmp = Some nf" using ptmp by (simp add: h')
  have eqx: "\<And>x a. x \<in> set ts \<Longrightarrow> a \<in> set (nodes x) \<Longrightarrow> h' a = h a"
  proof -
    fix x a assume x: "x \<in> set ts" and a: "a \<in> set (nodes x)"
    have "a \<in> set (nodes t)" using sub x a by auto
    moreover have "a \<noteq> p" using dp x a by auto
    ultimately show "h' a = h a" by (rule old)
  qed
  have keep: "\<forall>x \<in> set ts. repr h' x \<and> hasParent h' (root x) p"
  proof
    fix x assume x: "x \<in> set ts"
    have "repr h' x = repr h x" by (rule repr_cong) (rule eqx[OF x])
    moreover have "h' (root x) = h (root x)" by (rule eqx[OF x]) simp
    ultimately show "repr h' x \<and> hasParent h' (root x) p" using subs x by (simp add: hasParent_def)
  qed
  have new: "repr h' (FTree tmp [] []) \<and> hasParent h' tmp p"
    using h't nf by (simp add: hasParent_def)
  have sets: "set ts' = insert (FTree tmp [] []) (set ts)"
  proof -
    have "set (take i ts @ drop i ts) = set ts" by simp
    then have "set (take i ts) \<union> set (drop i ts) = set ts" unfolding set_append .
    then show ?thesis by (auto simp: ts'_def)
  qed
  have fl': "\<forall>f \<in> set fs. hasParent h' f p"
  proof
    fix f assume f: "f \<in> set fs"
    have "f \<in> set (nodes t)" "f \<noteq> p" using sub dp f by auto
    then have "h' f = h f" by (rule old)
    then show "hasParent h' f p" using fl f by (simp add: hasParent_def)
  qed
  have r': "repr h' ?tp'"
    using h'p pd mr fl' keep new by (simp add: sets)
  have mc: "mset (concat (map nodes ts')) = add_mset tmp (mset (concat (map nodes ts)))"
  proof -
    have "mset (concat (map nodes (take i ts))) + mset (concat (map nodes (drop i ts)))
            = mset (concat (map nodes ts))"
      by (rule mset_concat_take_drop)
    then show ?thesis by (simp add: ts'_def)
  qed
  have mn: "mset (nodes ?tp') = mset (tmp # nodes ?tp)" using mc by simp
  have "distinct (tmp # nodes ?tp)" using dp fresh sub by auto
  then have d': "distinct (nodes ?tp')" using mset_eq_imp_distinct_iff[OF mn] by simp
  have par': "\<And>g. hasParent h p g \<Longrightarrow> hasParent h' p g" using hp h'p by (simp add: hasParent_def)
  have fr: "\<And>a. a \<in> set (nodes t) \<Longrightarrow> a \<notin> set (nodes ?tp) \<Longrightarrow> h' a = h a" using old by auto
  have "set (nodes ?tp') = insert tmp (set (nodes ?tp))" using mset_eq_setD[OF mn] by simp
  then have dj: "set (nodes ?tp') \<inter> (set (nodes t) - set (nodes ?tp)) = {}" using fresh by auto
  from surgery[OF tr st r' _ d' par' fr dj] obtain t' where
    t': "treeAt h' this t'"
    "mset (folders t') + mset (folders ?tp) = mset (folders t) + mset (folders ?tp')"
    "mset (allFiles t') + mset (allFiles ?tp) = mset (allFiles t) + mset (allFiles ?tp')"
    "mset (nodes t') + mset (nodes ?tp) = mset (nodes t) + mset (nodes ?tp')" by auto
  have mf: "mset (concat (map folders ts')) = add_mset tmp (mset (concat (map folders ts)))"
  proof -
    have "mset (concat (map folders (take i ts))) + mset (concat (map folders (drop i ts)))
            = mset (concat (map folders ts))"
      by (rule mset_concat_take_drop)
    then show ?thesis by (simp add: ts'_def)
  qed
  have ma: "mset (concat (map allFiles ts')) = mset (concat (map allFiles ts))"
  proof -
    have "mset (concat (map allFiles (take i ts))) + mset (concat (map allFiles (drop i ts)))
            = mset (concat (map allFiles ts))"
      by (rule mset_concat_take_drop)
    then show ?thesis by (simp add: ts'_def)
  qed
  have "mset (folders t') = add_mset tmp (mset (folders t))" using t'(2) mf by simp
  moreover have "mset (allFiles t') = mset (allFiles t)" using t'(3) ma by simp
  moreover have "mset (nodes t') = add_mset tmp (mset (nodes t))" using t'(4) mn by simp
  ultimately show ?thesis using t'(1) by blast
qed

lemma tree_removeSub:
  assumes tr: "treeAt h this t" and st: "subtreeAt g t = Some (FTree g fs ts)"
    and hg: "h g = Some gd" and it: "it < length ts" and c: "ts ! it = FTree c [] []"
    and h'g: "h' g = Some (gd\<lparr>m_folderNodes := erase (m_folderNodes gd) it\<rparr>)"
    and frame: "\<forall>a \<in> set (nodes t). a \<noteq> g \<and> a \<noteq> c \<longrightarrow> h' a = h a"
  shows "\<exists>t'. treeAt h' this t' \<and>
           mset (allFiles t') = mset (allFiles t) \<and>
           add_mset c (mset (folders t')) = mset (folders t) \<and>
           add_mset c (mset (nodes t')) = mset (nodes t)"
proof -
  let ?tp = "FTree g fs ts"
  from tr have r: "repr h t" and d: "distinct (nodes t)" by (simp_all add: treeAt_def)
  have rp: "repr h ?tp" by (rule subtreeAt_repr[OF st r])
  have dp: "distinct (nodes ?tp)" by (rule subtreeAt_distinct[OF st d])
  have sub: "set (nodes ?tp) \<subseteq> set (nodes t)" using subtreeAt_Some[OF st] by simp
  from repr_unfold[OF rp] hg have gd: "m_fileNodes gd = fs" "m_folderNodes gd = map root ts"
    and fl: "\<forall>f \<in> set fs. hasParent h f g"
    and subs: "\<forall>x \<in> set ts. repr h x \<and> hasParent h (root x) g" by auto
  define ts' where "ts' = take it ts @ drop (Suc it) ts"
  let ?tp' = "FTree g fs ts'"
  have split: "ts = take it ts @ FTree c [] [] # drop (Suc it) ts"
    using id_take_nth_drop[OF it] c by simp
  have mr: "map root ts' = erase (map root ts) it"
    by (simp add: ts'_def erase_def take_map drop_map)
  have sets: "set ts' \<subseteq> set ts"
    using set_take_subset[of it ts] set_drop_subset[of "Suc it" ts] by (auto simp: ts'_def)
  have dc: "distinct (concat (map nodes ts))" using dp by simp
  have mc: "mset (concat (map nodes ts)) = add_mset c (mset (concat (map nodes ts')))"
    by (subst split) (simp add: ts'_def)
  have cn: "c \<notin> set (concat (map nodes ts'))"
  proof -
    have "mset (concat (map nodes ts)) = mset (c # concat (map nodes ts'))" using mc by simp
    from mset_eq_imp_distinct_iff[OF this] dc have "distinct (c # concat (map nodes ts'))" by simp
    then show ?thesis by simp
  qed
  have eqx: "\<And>x a. x \<in> set ts' \<Longrightarrow> a \<in> set (nodes x) \<Longrightarrow> h' a = h a"
  proof -
    fix x a assume x: "x \<in> set ts'" and a: "a \<in> set (nodes x)"
    have xs: "x \<in> set ts" using sets x by auto
    have "a \<in> set (nodes t)" using sub xs a by auto
    moreover have "a \<noteq> g" using dp xs a by auto
    moreover have "a \<noteq> c" using cn x a by auto
    ultimately show "h' a = h a" using frame by blast
  qed
  have keep: "\<forall>x \<in> set ts'. repr h' x \<and> hasParent h' (root x) g"
  proof
    fix x assume x: "x \<in> set ts'"
    have "repr h' x = repr h x" by (rule repr_cong) (rule eqx[OF x])
    moreover have "h' (root x) = h (root x)" by (rule eqx[OF x]) simp
    ultimately show "repr h' x \<and> hasParent h' (root x) g"
      using subs sets x by (auto simp: hasParent_def)
  qed
  have cin: "c \<in> set (nodes ?tp)" by (subst split) simp
  have fl': "\<forall>f \<in> set fs. hasParent h' f g"
  proof
    fix f assume f: "f \<in> set fs"
    have "f \<in> set (nodes t)" "f \<noteq> g" using sub dp f by auto
    moreover have "f \<noteq> c"
    proof
      assume "f = c"
      then have "c \<in> set fs" using f by simp
      moreover have "c \<in> set (concat (map nodes ts))" by (subst split) simp
      ultimately show False using dp by auto
    qed
    ultimately have "h' f = h f" using frame by blast
    then show "hasParent h' f g" using fl f by (simp add: hasParent_def)
  qed
  have r': "repr h' ?tp'" using h'g gd mr fl' keep by simp
  have mn: "mset (nodes ?tp) = add_mset c (mset (nodes ?tp'))" using mc by simp
  have d': "distinct (nodes ?tp')"
  proof -
    have "mset (nodes ?tp) = mset (c # nodes ?tp')" using mn by simp
    from mset_eq_imp_distinct_iff[OF this] dp have "distinct (c # nodes ?tp')" by simp
    then show ?thesis by simp
  qed
  have par': "\<And>q. hasParent h g q \<Longrightarrow> hasParent h' g q" using hg h'g by (simp add: hasParent_def)
  have fr: "\<And>a. a \<in> set (nodes t) \<Longrightarrow> a \<notin> set (nodes ?tp) \<Longrightarrow> h' a = h a"
    using frame cin by auto
  have "mset (nodes ?tp) = mset (c # nodes ?tp')" using mn by simp
  from mset_eq_setD[OF this] have "set (nodes ?tp') \<subseteq> set (nodes ?tp)" by auto
  then have dj: "set (nodes ?tp') \<inter> (set (nodes t) - set (nodes ?tp)) = {}" by auto
  from surgery[OF tr st r' _ d' par' fr dj] obtain t' where
    t': "treeAt h' this t'"
    "mset (folders t') + mset (folders ?tp) = mset (folders t) + mset (folders ?tp')"
    "mset (allFiles t') + mset (allFiles ?tp) = mset (allFiles t) + mset (allFiles ?tp')"
    "mset (nodes t') + mset (nodes ?tp) = mset (nodes t) + mset (nodes ?tp')" by auto
  have mf: "mset (concat (map folders ts)) = add_mset c (mset (concat (map folders ts')))"
    by (subst split) (simp add: ts'_def)
  have ma: "mset (concat (map allFiles ts)) = mset (concat (map allFiles ts'))"
    by (subst split) (simp add: ts'_def)
  have "add_mset c (mset (folders t')) = mset (folders t)" using t'(2) mf by simp
  moreover have "mset (allFiles t') = mset (allFiles t)" using t'(3) ma by simp
  moreover have "add_mset c (mset (nodes t')) = mset (nodes t)" using t'(4) mn by simp
  ultimately show ?thesis using t'(1) by blast
qed

lemma keeps_refl: "keeps X h h"
  by (simp add: keeps_def)

lemma keeps_trans: "keeps X h h1 \<Longrightarrow> keeps X h1 h2 \<Longrightarrow> keeps X h h2"
  unfolding keeps_def by (metis (no_types, lifting))

lemma keeps_mono: "keeps X h h' \<Longrightarrow> X \<subseteq> Y \<Longrightarrow> keeps Y h h'"
  unfolding keeps_def by blast

lemma keeps_pathOf: "keeps X h h' \<Longrightarrow> a \<notin> X \<Longrightarrow> h' a \<noteq> None \<Longrightarrow> pathOf h' a = pathOf h a"
  unfolding keeps_def pathOf_def by (auto split: option.splits)

lemma keeps_live: "keeps X h h' \<Longrightarrow> a \<notin> X \<Longrightarrow> h' a \<noteq> None \<Longrightarrow> h a \<noteq> None"
  unfolding keeps_def by auto

lemma keeps_frame:
  "(\<And>a. a \<notin> X \<Longrightarrow> h' a = None \<or> h' a = h a \<or>
        (\<exists>n. h a = Some n \<and> (\<exists>n'. h' a = Some n' \<and> m_filePath n' = m_filePath n))) \<Longrightarrow>
     keeps X h h'"
  unfolding keeps_def by (metis option.discI option.inject)

text \<open>The comparison, counted in keys.\<close>

lemma subseteq_add_mset: "A \<subseteq># B \<Longrightarrow> A \<subseteq># add_mset x B"
  by (simp add: subseteq_mset_def le_SucI)

lemma compare_keys:
  fixes key :: "'a \<Rightarrow> 'k :: linorder"
  shows "compareSortedLists (\<lambda>a b. key a < key b) old new = (del, add) \<Longrightarrow>
     mset (map key old) + mset (map key add) = mset (map key new) + mset (map key del)"
proof (induction "\<lambda>a b. key a < key b" old new arbitrary: del add rule: compareSortedLists.induct)
  case (1 newList)
  then show ?case by simp
next
  case (2 ol oldList)
  then show ?case by simp
next
  case (3 ol oldList nw newList)
  show ?case
  proof (cases "key ol < key nw")
    case True
    with 3(4) obtain r where r: "compareSortedLists (\<lambda>a b. key a < key b) oldList (nw # newList) = (r, add)"
      and d: "del = ol # r" by (auto split: prod.splits)
    from 3(1)[OF True r] d show ?thesis by simp
  next
    case False
    show ?thesis
    proof (cases "key nw < key ol")
      case True
      with False 3(4) obtain a where
        r: "compareSortedLists (\<lambda>a b. key a < key b) (ol # oldList) newList = (del, a)"
        and d: "add = nw # a" by (auto split: prod.splits)
      from 3(2)[OF False True r] d show ?thesis by simp
    next
      case nlt: False
      with False 3(4) have r: "compareSortedLists (\<lambda>a b. key a < key b) oldList newList = (del, add)"
        by simp
      from False nlt have "key ol = key nw" by simp
      with 3(3)[OF False nlt r] show ?thesis by simp
    qed
  qed
qed

lemma compare_sub:
  fixes old :: "'a list"
  shows "compareSortedLists sorter old new = (del, add) \<Longrightarrow> mset del \<subseteq># mset old \<and> mset add \<subseteq># mset new"
proof (induction sorter old new arbitrary: del add rule: compareSortedLists.induct)
  case (1 sorter newList)
  then show ?case by simp
next
  case (2 sorter ol oldList)
  then show ?case by simp
next
  case (3 sorter ol oldList nw newList)
  show ?case
  proof (cases "sorter ol nw")
    case True
    with 3(4) obtain r where r: "compareSortedLists sorter oldList (nw # newList) = (r, add)"
      and d: "del = ol # r" by (auto split: prod.splits)
    from 3(1)[OF True r] d show ?thesis by simp
  next
    case False
    show ?thesis
    proof (cases "sorter nw ol")
      case True
      with False 3(4) obtain a where
        r: "compareSortedLists sorter (ol # oldList) newList = (del, a)"
        and d: "add = nw # a" by (auto split: prod.splits)
      from 3(2)[OF False True r] d show ?thesis by simp
    next
      case nlt: False
      with False 3(4) have r: "compareSortedLists sorter oldList newList = (del, add)"
        by simp
      from 3(3)[OF False nlt r] show ?thesis
        by (simp add: subseteq_add_mset)
    qed
  qed
qed

text \<open>The hash.\<close>

lemma hashAppend_keys:
  "map fst (hashAppend m k f) = (if k \<in> fst ` set m then map fst m else map fst m @ [k])"
  by (induction m k f rule: hashAppend.induct) auto

lemma hashAppend_distinct: "distinct (map fst m) \<Longrightarrow> distinct (map fst (hashAppend m k f))"
  by (simp add: hashAppend_keys)

lemma hashAppend_values:
  "mset (concat (map snd (hashAppend m k f))) = add_mset f (mset (concat (map snd m)))"
  by (induction m k f rule: hashAppend.induct) auto

lemma hashAppend_entry:
  "(k', v') \<in> set (hashAppend m k f) \<Longrightarrow>
     (k', v') \<in> set m \<or> (k' = k \<and> (v' = [f] \<or> (\<exists>v. (k, v) \<in> set m \<and> v' = v @ [f])))"
  by (induction m k f rule: hashAppend.induct) (auto split: if_splits)

lemma hashEntries_mset:
  assumes env: "envOk env" and d: "distinct (map fst m)"
  shows "mset (hashEntries env m) = mset m"
proof -
  let ?g = "\<lambda>k. (k, case map_of m k of None \<Rightarrow> [] | Some v \<Rightarrow> v)"
  have ks: "mset (hashOrder env (map fst m)) = mset (map fst m)"
    using env d by (simp add: envOk_def)
  have "mset (hashEntries env m) = image_mset ?g (mset (hashOrder env (map fst m)))"
    by (simp add: hashEntries_def)
  also have "\<dots> = image_mset ?g (mset (map fst m))" by (simp only: ks)
  also have "\<dots> = mset (map (\<lambda>e. ?g (fst e)) m)"
    by (simp add: multiset.map_comp comp_def)
  also have "map (\<lambda>e. ?g (fst e)) m = map (\<lambda>e. e) m"
  proof (rule map_cong[OF refl])
    fix e assume "e \<in> set m"
    then have "(fst e, snd e) \<in> set m" by simp
    from map_of_is_SomeI[OF d this] show "?g (fst e) = e" by simp
  qed
  finally show ?thesis by simp
qed

lemma mset_concat_sum:
  "mset (concat (map snd xs)) = (\<Sum>e \<in># mset xs. mset (snd e))"
  by (induction xs) auto

lemma mset_concat_snd:
  "mset es = mset m \<Longrightarrow> mset (concat (map snd es)) = mset (concat (map snd m))"
  by (simp add: mset_concat_sum)

text \<open>Discarding the incoming nodes whose paths the tree has.\<close>

lemma phase_discard:
  assumes del: "foldM deleteFileNode ds s = Inr s1"
    and tr: "treeAt (heap s) this t" and disj: "set ds \<inter> set (nodes t) = {}"
  shows "treeAt (heap s1) this t \<and> events s1 = events s \<and> keeps X (heap s) (heap s1) \<and>
         (\<forall>a. a \<notin> set ds \<longrightarrow> heap s1 a = heap s a)"
proof -
  from foldM_deleteFileNode_post[OF del] have
    e: "events s1 = events s" and dd: "\<forall>d \<in> set ds. heap s1 d = None" and
    fr: "\<forall>a. a \<notin> set ds \<longrightarrow> heap s1 a = heap s a" by simp_all
  have "repr (heap s1) t = repr (heap s) t"
    by (rule repr_cong) (use fr disj in auto)
  with tr have "treeAt (heap s1) this t" by (simp add: treeAt_def)
  moreover have "keeps X (heap s) (heap s1)"
    by (rule keeps_frame) (metis fr dd)
  ultimately show ?thesis using e fr by simp
qed

lemma subtreeAt_folders:
  "subtreeAt p t = Some tp \<Longrightarrow> set (folders tp) \<subseteq> set (folders t)"
proof (induction t)
  case (FTree a fs ts)
  show ?case
  proof (cases "a = p")
    case True
    with FTree.prems show ?thesis by auto
  next
    case False
    with FTree.prems have "firstSome (map (subtreeAt p) ts) = Some tp" by simp
    from firstSome_mem[OF this] obtain x where x: "x \<in> set ts" "subtreeAt p x = Some tp" by blast
    from FTree.IH[OF x] have "set (folders tp) \<subseteq> set (folders x)" .
    moreover have "set (folders x) \<subseteq> set (folders (FTree a fs ts))" using x(1) by auto
    ultimately show ?thesis by blast
  qed
qed

lemma set_nodes_eq:
  "mset (folders t') = mset (folders t) + mset us \<Longrightarrow> mset (allFiles t') = mset (allFiles t) + mset vs \<Longrightarrow>
     set (nodes t') = set (nodes t) \<union> set us \<union> set vs \<and> set (folders t') = set (folders t) \<union> set us \<and>
     set (allFiles t') = set (allFiles t) \<union> set vs"
proof -
  assume f: "mset (folders t') = mset (folders t) + mset us"
    and a: "mset (allFiles t') = mset (allFiles t) + mset vs"
  have 1: "set (folders t') = set (folders t) \<union> set us"
    using f by (metis mset_append mset_eq_setD set_append)
  have 2: "set (allFiles t') = set (allFiles t) \<union> set vs"
    using a by (metis mset_append mset_eq_setD set_append)
  show ?thesis using 1 2 by (auto simp: set_nodes)
qed

lemma child_in_folders:
  assumes tr: "treeAt h this t" and p: "p \<in> set (folders t)" and hp: "h p = Some pd"
    and c: "c \<in> set (m_folderNodes pd)"
  shows "c \<in> set (folders t)"
proof -
  from subtreeAt_folder[OF p] obtain fs ts where st: "subtreeAt p t = Some (FTree p fs ts)" by blast
  from tr have r: "repr h t" by (simp add: treeAt_def)
  from repr_unfold[OF subtreeAt_repr[OF st r]] hp have "m_folderNodes pd = map root ts" by auto
  with c obtain x where x: "x \<in> set ts" "c = root x" by auto
  then have "c \<in> set (folders (FTree p fs ts))" by (auto intro!: bexI[of _ x])
  with subtreeAt_folders[OF st] show ?thesis by blast
qed

lemma findFolder_mem: "findFolder h cs d = Inr (Some c) \<Longrightarrow> c \<in> set cs"
  by (induction cs) (auto split: option.splits if_splits)

lemma findOrCreate_loop_post:
  "findOrCreate_loop env parts parent path fresh s = Inr (folder, fresh', s') \<Longrightarrow>
   treeAt (heap s) this t \<Longrightarrow> parent \<in> set (folders t) \<Longrightarrow> distinct fresh \<Longrightarrow>
   set fresh \<inter> set (nodes t) = {} \<Longrightarrow>
     \<exists>t' used. fresh = used @ fresh' \<and> treeAt (heap s') this t' \<and>
        mset (allFiles t') = mset (allFiles t) \<and>
        mset (folders t') = mset (folders t) + mset used \<and>
        folder \<in> set (folders t') \<and>
        (\<forall>a. a \<notin> set (folders t) \<union> set used \<longrightarrow> heap s' a = heap s a) \<and>
        keeps (set fresh) (heap s) (heap s')"
proof (induction parts arbitrary: parent path fresh s t)
  case Nil
  then show ?case by (auto simp: keeps_refl intro!: exI[of _ t] exI[of _ "[]"])
next
  case (Cons part parts)
  let ?path = "appendPath env path part"
  from Cons.prems(1) obtain nxt where
    fn: "folderNode s parent ?path = Inr nxt" and
    rest: "(case nxt of
          Some nx \<Rightarrow> findOrCreate_loop env parts nx ?path fresh s
        | None \<Rightarrow>
            (case fresh of
               [] \<Rightarrow> Inl OutOfFuel
             | tmp # fresh \<Rightarrow>
                 and_then
                   (addFolderNodes parent [tmp]
                      (s\<lparr>heap := (heap s)(tmp \<mapsto> newFolderNode env ?path part)\<rparr>))
                   (findOrCreate_loop env parts tmp ?path fresh))) = Inr (folder, fresh', s')"
    by (auto simp: Let_def and_then_eq_Inr)
  from fn obtain pd where pd: "heap s parent = Some pd"
    and ff: "findFolder (heap s) (m_folderNodes pd) ?path = Inr nxt"
    by (auto simp: folderNode_def split: option.splits)
  show ?case
  proof (cases nxt)
    case (Some nx)
    with ff have "nx \<in> set (m_folderNodes pd)" by (simp add: findFolder_mem)
    from child_in_folders[OF Cons.prems(2,3) pd this] have nx: "nx \<in> set (folders t)" .
    from rest Some have "findOrCreate_loop env parts nx ?path fresh s = Inr (folder, fresh', s')"
      by simp
    from Cons.IH[OF this Cons.prems(2) nx Cons.prems(4,5)] show ?thesis .
  next
    case None
    with rest obtain tmp fr s1 where fresh: "fresh = tmp # fr" and
      add: "addFolderNodes parent [tmp]
              (s\<lparr>heap := (heap s)(tmp \<mapsto> newFolderNode env ?path part)\<rparr>) = Inr s1" and
      loop: "findOrCreate_loop env parts tmp ?path fr s1 = Inr (folder, fresh', s')"
      by (auto simp: and_then_eq_Inr split: list.splits)
    have tmpn: "tmp \<notin> set (nodes t)" using Cons.prems(5) fresh by auto
    have pt: "parent \<noteq> tmp" using tmpn Cons.prems(3) folders_subset_nodes by blast
    let ?nf = "(newFolderNode env ?path part)\<lparr>m_parentFolderNode := Some parent\<rparr>"
    from addFolderNodes_single_post[OF add pt] pd pt have
      h1: "heap s1 = (heap s)(tmp \<mapsto> ?nf,
             parent \<mapsto> pd\<lparr>m_folderNodes := insertNode (m_folderNodes pd) tmp\<rparr>)"
      by auto
    from tree_addFolder[OF Cons.prems(2,3) tmpn pd h1] obtain t1 where
      t1: "treeAt (heap s1) this t1" "mset (folders t1) = add_mset tmp (mset (folders t))"
      "mset (allFiles t1) = mset (allFiles t)" "mset (nodes t1) = add_mset tmp (mset (nodes t))"
      by (auto simp: newFolderNode_def)
    have s1set: "set (nodes t1) = insert tmp (set (nodes t))" "set (folders t1) = insert tmp (set (folders t))"
    proof -
      have "mset (nodes t1) = mset (tmp # nodes t)" "mset (folders t1) = mset (tmp # folders t)"
        using t1(2,4) by simp_all
      from mset_eq_setD[OF this(1)] mset_eq_setD[OF this(2)]
      show "set (nodes t1) = insert tmp (set (nodes t))" "set (folders t1) = insert tmp (set (folders t))"
        by simp_all
    qed
    have dfr: "distinct fr" and tfr: "tmp \<notin> set fr" using Cons.prems(4) fresh by simp_all
    have disj: "set fr \<inter> set (nodes t1) = {}" using Cons.prems(5) fresh tfr s1set by auto
    have tin: "tmp \<in> set (folders t1)" using s1set by simp
    from Cons.IH[OF loop t1(1) tin dfr disj] obtain t' used where
      r: "fr = used @ fresh'" "treeAt (heap s') this t'"
      "mset (allFiles t') = mset (allFiles t1)"
      "mset (folders t') = mset (folders t1) + mset used"
      "folder \<in> set (folders t')"
      "\<forall>a. a \<notin> set (folders t1) \<union> set used \<longrightarrow> heap s' a = heap s1 a"
      "keeps (set fr) (heap s1) (heap s')" by blast
    have k1: "keeps (set fresh) (heap s) (heap s1)"
      by (rule keeps_frame) (use pd in \<open>auto simp: h1 fresh\<close>)
    have k: "keeps (set fresh) (heap s) (heap s')"
      by (rule keeps_trans[OF k1 keeps_mono[OF r(7)]]) (auto simp: fresh)
    have fr': "\<forall>a. a \<notin> set (folders t) \<union> set (tmp # used) \<longrightarrow> heap s' a = heap s a"
    proof (intro allI impI)
      fix a assume a: "a \<notin> set (folders t) \<union> set (tmp # used)"
      then have "a \<notin> set (folders t1) \<union> set used" using s1set by auto
      with r(6) have "heap s' a = heap s1 a" by blast
      moreover have "a \<noteq> tmp" "a \<noteq> parent" using a Cons.prems(3) by auto
      ultimately show "heap s' a = heap s a" by (simp add: h1)
    qed
    show ?thesis
      apply (rule exI[of _ t'], rule exI[of _ "tmp # used"])
      using r(1,2,3,4,5) t1(2,3) fr' k fresh by simp
  qed
qed

lemma addedMapping_post:
  "buildTree_addedMapping env this base added m fresh s = Inr (m', s') \<Longrightarrow>
   treeAt (heap s) this t \<Longrightarrow> distinct fresh \<Longrightarrow> set fresh \<inter> set (nodes t) = {} \<Longrightarrow>
   fst ` set m \<subseteq> set (folders t) \<Longrightarrow> distinct (map fst m) \<Longrightarrow>
     \<exists>t'. treeAt (heap s') this t' \<and> mset (allFiles t') = mset (allFiles t) \<and>
        set (folders t) \<subseteq> set (folders t') \<and>
        set (nodes t') \<subseteq> set (nodes t) \<union> set fresh \<and>
        fst ` set m' \<subseteq> set (folders t') \<and> distinct (map fst m') \<and>
        mset (concat (map snd m')) = mset (concat (map snd m)) + mset added \<and>
        (\<forall>a. a \<notin> set (folders t') \<longrightarrow> heap s' a = heap s a) \<and>
        keeps (set fresh) (heap s) (heap s')"
proof (induction added arbitrary: m fresh s t)
  case Nil
  then show ?case by (auto simp: keeps_refl intro!: exI[of _ t])
next
  case (Cons fn added)
  from Cons.prems(1) obtain fd folder fresh1 s1 where
    fd: "heap s fn = Some fd" and
    rc: "recursiveFindOrCreateFolderNode env this (absolutePath env (m_filePath fd)) base fresh s
           = Inr (folder, fresh1, s1)" and
    loop: "buildTree_addedMapping env this base added (hashAppend m folder fn) fresh1 s1 = Inr (m', s')"
    by (auto simp: and_then_eq_Inr split: option.splits)
  from rc obtain parts path where
    fl: "findOrCreate_loop env parts this path fresh s = Inr (folder, fresh1, s1)"
    by (auto simp: recursiveFindOrCreateFolderNode_def Let_def split: option.splits)
  have root: "this \<in> set (folders t)" using Cons.prems(2) by (auto simp: treeAt_def)
  from findOrCreate_loop_post[OF fl Cons.prems(2) root Cons.prems(3,4)] obtain t1 used where
    r: "fresh = used @ fresh1" "treeAt (heap s1) this t1"
    "mset (allFiles t1) = mset (allFiles t)"
    "mset (folders t1) = mset (folders t) + mset used"
    "folder \<in> set (folders t1)"
    "\<forall>a. a \<notin> set (folders t) \<union> set used \<longrightarrow> heap s1 a = heap s a"
    "keeps (set fresh) (heap s) (heap s1)" by blast
  from set_nodes_eq[of t1 t used "[]"] r(3,4) have
    sets: "set (nodes t1) = set (nodes t) \<union> set used" "set (folders t1) = set (folders t) \<union> set used"
    by simp_all
  have d1: "distinct fresh1" using Cons.prems(3) r(1) by simp
  have dj1: "set fresh1 \<inter> set (nodes t1) = {}" using Cons.prems(3,4) r(1) sets by auto
  have keys: "fst ` set (hashAppend m folder fn) \<subseteq> set (folders t1)"
  proof -
    have "fst ` set (hashAppend m folder fn) = set (map fst (hashAppend m folder fn))" by simp
    also have "\<dots> \<subseteq> insert folder (fst ` set m)" by (auto simp: hashAppend_keys)
    finally show ?thesis using r(5) Cons.prems(5) sets by auto
  qed
  from Cons.IH[OF loop r(2) d1 dj1 keys hashAppend_distinct[OF Cons.prems(6)]] obtain t' where
    q: "treeAt (heap s') this t'" "mset (allFiles t') = mset (allFiles t1)"
    "set (folders t1) \<subseteq> set (folders t')"
    "set (nodes t') \<subseteq> set (nodes t1) \<union> set fresh1"
    "fst ` set m' \<subseteq> set (folders t')" "distinct (map fst m')"
    "mset (concat (map snd m')) = mset (concat (map snd (hashAppend m folder fn))) + mset added"
    "\<forall>a. a \<notin> set (folders t') \<longrightarrow> heap s' a = heap s1 a"
    "keeps (set fresh1) (heap s1) (heap s')" by blast
  have k: "keeps (set fresh) (heap s) (heap s')"
    by (rule keeps_trans[OF r(7) keeps_mono[OF q(9)]]) (auto simp: r(1))
  have fr: "\<forall>a. a \<notin> set (folders t') \<longrightarrow> heap s' a = heap s a"
    using q(8) r(6) q(3) sets by auto
  show ?case
    apply (rule exI[of _ t'])
    using q(1,2,5,6) r(3) q(3,4) sets r(1) q(7) fr k by (auto simp: hashAppend_values)
qed

lemma files_not_folders:
  "distinct (nodes t) \<Longrightarrow> f \<in> set (allFiles t) \<Longrightarrow> f \<notin> set (folders t)"
proof -
  assume d: "distinct (nodes t)" and f: "f \<in> set (allFiles t)"
  have "mset (nodes t) = mset (folders t @ allFiles t)" by (simp add: mset_nodes)
  from mset_eq_imp_distinct_iff[OF this] d have "distinct (folders t @ allFiles t)" by simp
  with f show ?thesis by auto
qed

lemma subtreeAt_allFiles:
  "subtreeAt p t = Some tp \<Longrightarrow> set (allFiles tp) \<subseteq> set (allFiles t)"
proof (induction t)
  case (FTree a fs ts)
  show ?case
  proof (cases "a = p")
    case True
    with FTree.prems show ?thesis by auto
  next
    case False
    with FTree.prems have "firstSome (map (subtreeAt p) ts) = Some tp" by simp
    from firstSome_mem[OF this] obtain x where x: "x \<in> set ts" "subtreeAt p x = Some tp" by blast
    from FTree.IH[OF x] have "set (allFiles tp) \<subseteq> set (allFiles x)" .
    moreover have "set (allFiles x) \<subseteq> set (allFiles (FTree a fs ts))" using x(1) by auto
    ultimately show ?thesis by blast
  qed
qed

lemma subtree_files:
  assumes st: "subtreeAt p t = Some (FTree p fs ts)" and d: "distinct (nodes t)"
  shows "distinct fs \<and> set fs \<subseteq> set (allFiles t) \<and> set fs \<subseteq> set (nodes t) \<and> p \<notin> set fs"
proof -
  have dp: "distinct (nodes (FTree p fs ts))" by (rule subtreeAt_distinct[OF st d])
  have "set fs \<subseteq> set (allFiles t)" using subtreeAt_allFiles[OF st] by simp
  with dp show ?thesis by (auto simp: set_nodes)
qed

text \<open>Putting the added files into their folders.\<close>

lemma phase_addFiles:
  "foldM (\<lambda>(folder, fns). addFileNodes folder fns) es s = Inr s' \<Longrightarrow>
   treeAt (heap s) this t \<Longrightarrow> fst ` set es \<subseteq> set (folders t) \<Longrightarrow>
   distinct (concat (map snd es)) \<Longrightarrow> set (concat (map snd es)) \<inter> set (nodes t) = {} \<Longrightarrow>
     \<exists>t'. treeAt (heap s') this t' \<and>
        mset (allFiles t') = mset (allFiles t) + mset (concat (map snd es)) \<and>
        mset (folders t') = mset (folders t) \<and>
        keeps X (heap s) (heap s')"
proof (induction es arbitrary: s t)
  case Nil
  then show ?case by (auto simp: keeps_refl intro!: exI[of _ t])
next
  case (Cons e es)
  obtain k fns where e: "e = (k, fns)" by (cases e)
  from Cons.prems(1) obtain s1 where
    a: "addFileNodes k fns s = Inr s1" and
    l: "foldM (\<lambda>(folder, fns). addFileNodes folder fns) es s1 = Inr s'"
    by (auto simp: e and_then_eq_Inr)
  from Cons.prems(2) have r: "repr (heap s) t" and d: "distinct (nodes t)" by (simp_all add: treeAt_def)
  have kin: "k \<in> set (folders t)" using Cons.prems(3) e by auto
  from subtreeAt_folder[OF kin] obtain fs ts where st: "subtreeAt k t = Some (FTree k fs ts)" by blast
  from repr_unfold[OF subtreeAt_repr[OF st r]] obtain pd where
    pd: "heap s k = Some pd" "m_fileNodes pd = fs" and par: "\<forall>f \<in> set fs. hasParent (heap s) f k"
    by auto
  from subtree_files[OF st d] have fs: "distinct fs" "set fs \<subseteq> set (nodes t)" "k \<notin> set fs" by auto
  have dfns: "distinct fns" and nfns: "set fns \<inter> set (nodes t) = {}"
    and rest: "distinct (concat (map snd es))" "set fns \<inter> set (concat (map snd es)) = {}"
    "set (concat (map snd es)) \<inter> set (nodes t) = {}"
    using Cons.prems(4,5) by (auto simp: e)
  have kn: "k \<notin> set fns" using kin nfns folders_subset_nodes by blast
  from addFileNodes_post[OF a kn pd(1)] obtain ys where
    ys: "heap s1 k = Some (pd\<lparr>m_fileNodes := ys\<rparr>)" "mset ys = mset (m_fileNodes pd) + mset fns"
    "\<forall>f \<in> set fns. \<exists>fd. heap s f = Some fd \<and> heap s1 f = Some (fd\<lparr>m_parentFolderNode := Some k\<rparr>)"
    "\<forall>a. a \<noteq> k \<and> a \<notin> set fns \<longrightarrow> heap s1 a = heap s a" by blast
  have mys: "mset ys = mset (fs @ fns)" using ys(2) pd(2) by simp
  have sys: "set ys = set fs \<union> set fns" using mset_eq_setD[OF mys] by simp
  have dys: "distinct ys" using mset_eq_imp_distinct_iff[OF mys] fs(1,2) dfns nfns by auto
  have par1: "\<forall>f \<in> set ys. hasParent (heap s1) f k"
  proof
    fix f assume "f \<in> set ys"
    then consider "f \<in> set fns" | "f \<in> set fs" "f \<notin> set fns" using sys by auto
    then show "hasParent (heap s1) f k"
    proof cases
      case 1
      with ys(3) show ?thesis by (auto simp: hasParent_def)
    next
      case 2
      then have "f \<noteq> k" using fs(3) by auto
      with 2 ys(4) have "heap s1 f = heap s f" by simp
      with par 2 show ?thesis by (simp add: hasParent_def)
    qed
  qed
  have fr: "\<forall>a \<in> set (nodes t). a \<noteq> k \<and> a \<notin> set fs \<longrightarrow> heap s1 a = heap s a"
    using ys(4) nfns by auto
  have dj: "set ys \<inter> (set (nodes t) - set fs) = {}" using sys nfns by auto
  from tree_setFiles[OF Cons.prems(2) st pd(1) ys(1) par1 fr dys dj] obtain t1 where
    t1: "treeAt (heap s1) this t1"
    "mset (allFiles t1) + mset fs = mset (allFiles t) + mset ys"
    "mset (folders t1) = mset (folders t)"
    "mset (nodes t1) + mset fs = mset (nodes t) + mset ys" by blast
  have af: "mset (allFiles t1) = mset (allFiles t) + mset fns" using t1(2) mys by simp
  have nd: "mset (nodes t1) = mset (nodes t @ fns)" using t1(4) mys by simp
  have sn: "set (nodes t1) = set (nodes t) \<union> set fns" using mset_eq_setD[OF nd] by simp
  have sf: "set (folders t1) = set (folders t)" using mset_eq_setD[OF t1(3)] .
  have keys: "fst ` set es \<subseteq> set (folders t1)" using Cons.prems(3) sf by auto
  have dj1: "set (concat (map snd es)) \<inter> set (nodes t1) = {}" using rest sn by auto
  from Cons.IH[OF l t1(1) keys rest(1) dj1] obtain t' where
    t': "treeAt (heap s') this t'"
    "mset (allFiles t') = mset (allFiles t1) + mset (concat (map snd es))"
    "mset (folders t') = mset (folders t1)" "keeps X (heap s1) (heap s')" by blast
  have k1: "keeps X (heap s) (heap s1)"
  proof (rule keeps_frame)
    fix a
    consider "a = k" | "a \<in> set fns" | "a \<noteq> k" "a \<notin> set fns" by blast
    then show "heap s1 a = None \<or> heap s1 a = heap s a \<or>
        (\<exists>n. heap s a = Some n \<and> (\<exists>n'. heap s1 a = Some n' \<and> m_filePath n' = m_filePath n))"
    proof cases
      case 1 then show ?thesis using pd(1) ys(1) by simp
    next
      case 2 with ys(3) show ?thesis by fastforce
    next
      case 3 with ys(4) show ?thesis by simp
    qed
  qed
  show ?case
    apply (rule exI[of _ t'])
    using t'(1,2,3) af t1(3) keeps_trans[OF k1 t'(4)] by (simp add: e)
qed

text \<open>The folders of the files that are no longer listed.\<close>

lemma deletedMapping_post:
  "buildTree_deletedMapping h del m = Inr m' \<Longrightarrow> distinct (map fst m) \<Longrightarrow>
   (\<forall>e \<in> set m. snd e \<noteq> [] \<and> (\<forall>f \<in> set (snd e). hasParent h f (fst e))) \<Longrightarrow>
     distinct (map fst m') \<and>
     mset (concat (map snd m')) = mset (concat (map snd m)) + mset del \<and>
     (\<forall>e \<in> set m'. snd e \<noteq> [] \<and> (\<forall>f \<in> set (snd e). hasParent h f (fst e)))"
proof (induction del arbitrary: m)
  case Nil
  then show ?case by simp
next
  case (Cons fn del)
  from Cons.prems(1) obtain fd p where
    fd: "h fn = Some fd" "m_parentFolderNode fd = Some p" and
    l: "buildTree_deletedMapping h del (hashAppend m p fn) = Inr m'"
    by (auto split: option.splits)
  have hp: "hasParent h fn p" using fd by (simp add: hasParent_def)
  have ent: "\<forall>e \<in> set (hashAppend m p fn). snd e \<noteq> [] \<and> (\<forall>f \<in> set (snd e). hasParent h f (fst e))"
  proof
    fix e assume "e \<in> set (hashAppend m p fn)"
    then have "(fst e, snd e) \<in> set (hashAppend m p fn)" by simp
    from hashAppend_entry[OF this] Cons.prems(3) hp
    show "snd e \<noteq> [] \<and> (\<forall>f \<in> set (snd e). hasParent h f (fst e))" by fastforce
  qed
  from Cons.IH[OF l hashAppend_distinct[OF Cons.prems(2)] ent]
  show ?case by (simp add: hashAppend_values)
qed

text \<open>Removing the folders that became empty, seen on the tree.\<close>

lemma removeEmpty_tree:
  "buildTree_removeEmpty n this q s = Inr s' \<Longrightarrow> treeAt (heap s) this t \<Longrightarrow>
   q \<in> set (folders t) \<Longrightarrow> q \<noteq> this \<Longrightarrow>
     \<exists>t'. treeAt (heap s') this t' \<and> mset (allFiles t') = mset (allFiles t) \<and>
        set (folders t') \<subseteq> set (folders t) \<and>
        (\<forall>a. a \<notin> set (folders t) \<longrightarrow> heap s' a = heap s a) \<and>
        keeps X (heap s) (heap s')"
proof (induction n arbitrary: q s t)
  case 0
  then show ?case by simp
next
  case (Suc n)
  from Suc.prems(2) have r: "repr (heap s) t" and d: "distinct (nodes t)" and ro: "root t = this"
    by (simp_all add: treeAt_def)
  from Suc.prems(1) obtain qd where qd: "heap s q = Some qd" by (auto split: option.splits)
  show ?case
  proof (cases "m_folderNodes qd = [] \<and> m_fileNodes qd = []")
    case False
    with Suc.prems(1) qd have "s' = s" by auto
    with Suc.prems(2) show ?thesis by (auto simp: keeps_refl intro!: exI[of _ t])
  next
    case True
    with Suc.prems(1) qd obtain g s1 where
      g: "m_parentFolderNode qd = Some g" and
      rm: "removeFolderNodes (Suc n) g [q] s = Inr s1" and
      rest: "(if g = this then Inr s1 else buildTree_removeEmpty n this g s1) = Inr s'"
      by (auto simp: and_then_eq_Inr split: option.splits)
    have qr: "q \<noteq> root t" using Suc.prems(4) ro by simp
    from container_folder[OF r d Suc.prems(3) qr] obtain g' fs ts where
      c: "hasParent (heap s) q g'" "subtreeAt g' t = Some (FTree g' fs ts)" "q \<in> root ` set ts"
      by blast
    from c(1) qd g have gg: "g' = g" by (simp add: hasParent_def)
    note st = c(2)[unfolded gg]
    from repr_unfold[OF subtreeAt_repr[OF st r]] obtain gd where
      gd: "heap s g = Some gd" "m_folderNodes gd = map root ts" and
      subs: "\<forall>x \<in> set ts. repr (heap s) x" by auto
    from True have e: "m_fileNodes qd = []" "m_folderNodes qd = []" by simp_all
    from removeFolderNodes_childless_post[OF rm gd(1) qd e] obtain it where
      it: "it < length (m_folderNodes gd)" "m_folderNodes gd ! it = q"
      "heap s1 g = Some (gd\<lparr>m_folderNodes := erase (m_folderNodes gd) it\<rparr>)"
      "heap s1 q = None" "\<forall>a. a \<noteq> g \<and> a \<noteq> q \<longrightarrow> heap s1 a = heap s a" by blast
    have itl: "it < length ts" using it(1) gd(2) by simp
    have rq: "root (ts ! it) = q" using it(2) gd(2) itl by simp
    have "repr (heap s) (ts ! it)" using subs itl by simp
    then have tq: "ts ! it = FTree q [] []"
      using rq qd e by (cases "ts ! it") (auto split: option.splits)
    have fr: "\<forall>a \<in> set (nodes t). a \<noteq> g \<and> a \<noteq> q \<longrightarrow> heap s1 a = heap s a" using it(5) by simp
    from tree_removeSub[OF Suc.prems(2) st gd(1) itl tq it(3) fr] obtain t1 where
      t1: "treeAt (heap s1) this t1" "mset (allFiles t1) = mset (allFiles t)"
      "add_mset q (mset (folders t1)) = mset (folders t)" by blast
    have "mset (q # folders t1) = mset (folders t)" using t1(3) by simp
    from mset_eq_setD[OF this] have sf: "set (folders t) = insert q (set (folders t1))" by simp
    have k1: "keeps X (heap s) (heap s1)"
    proof (rule keeps_frame)
      fix a
      consider "a = g" | "a = q" | "a \<noteq> g" "a \<noteq> q" by blast
      then show "heap s1 a = None \<or> heap s1 a = heap s a \<or>
        (\<exists>n. heap s a = Some n \<and> (\<exists>n'. heap s1 a = Some n' \<and> m_filePath n' = m_filePath n))"
      proof cases
        case 1 then show ?thesis using gd(1) it(3) by simp
      next
        case 2 then show ?thesis using it(4) by simp
      next
        case 3 with it(5) show ?thesis by simp
      qed
    qed
    have gin: "g \<in> set (folders t)" using st subtreeAt_None[of g t] by auto
    have fr1: "\<forall>a. a \<notin> set (folders t) \<longrightarrow> heap s1 a = heap s a"
      using it(5) gin Suc.prems(3) by auto
    show ?thesis
    proof (cases "g = this")
      case True
      with rest have "s' = s1" by simp
      then show ?thesis using t1(1,2) sf fr1 k1 by (auto intro!: exI[of _ t1])
    next
      case False
      with rest have l: "buildTree_removeEmpty n this g s1 = Inr s'" by simp
      have dq: "distinct (nodes (FTree g fs ts))" by (rule subtreeAt_distinct[OF st d])
      have "q \<in> set (concat (map nodes ts))" using c(3) by (auto intro!: bexI)
      with dq have gq: "g \<noteq> q" by auto
      have gin1: "g \<in> set (folders t1)" using gin sf gq by auto
      from Suc.IH[OF l t1(1) gin1 False] obtain t' where
        t': "treeAt (heap s') this t'" "mset (allFiles t') = mset (allFiles t1)"
        "set (folders t') \<subseteq> set (folders t1)"
        "\<forall>a. a \<notin> set (folders t1) \<longrightarrow> heap s' a = heap s1 a"
        "keeps X (heap s1) (heap s')" by blast
      have "\<forall>a. a \<notin> set (folders t) \<longrightarrow> heap s' a = heap s a" using t'(4) fr1 sf by auto
      then show ?thesis
        using t'(1,2,3) t1(2) sf keeps_trans[OF k1 t'(5)] by (auto intro!: exI[of _ t'])
    qed
  qed
qed

text \<open>Removing the files that are no longer listed.\<close>

lemma phase_remove:
  "foldM (buildTree_removeDeleted fuel this) es s = Inr s' \<Longrightarrow> treeAt (heap s) this t \<Longrightarrow>
   distinct (concat (map snd es)) \<Longrightarrow>
   (\<forall>e \<in> set es. snd e \<noteq> [] \<and>
      (\<forall>f \<in> set (snd e). hasParent (heap s) f (fst e) \<and> f \<in> set (allFiles t))) \<Longrightarrow>
     \<exists>t'. treeAt (heap s') this t' \<and>
        mset (allFiles t') + mset (concat (map snd es)) = mset (allFiles t) \<and>
        keeps X (heap s) (heap s')"
proof (induction es arbitrary: s t)
  case Nil
  then show ?case by (auto simp: keeps_refl intro!: exI[of _ t])
next
  case (Cons e es)
  obtain k fns where e: "e = (k, fns)" by (cases e)
  from Cons.prems(1) obtain s2 where
    rd: "buildTree_removeDeleted fuel this (k, fns) s = Inr s2" and
    l: "foldM (buildTree_removeDeleted fuel this) es s2 = Inr s'"
    by (auto simp: e and_then_eq_Inr)
  from rd obtain s1 where
    rf: "removeFileNodes k fns s = Inr s1" and
    re: "(if k = this then Inr s1 else buildTree_removeEmpty fuel this k s1) = Inr s2"
    by (auto simp: buildTree_removeDeleted_def and_then_eq_Inr)
  from Cons.prems(2) have r: "repr (heap s) t" and d: "distinct (nodes t)" and ro: "root t = this"
    by (simp_all add: treeAt_def)
  from Cons.prems(4) have ne: "fns \<noteq> []" and
    fp: "\<forall>f \<in> set fns. hasParent (heap s) f k \<and> f \<in> set (allFiles t)" by (simp_all add: e)
  from ne obtain f0 where f0: "f0 \<in> set fns" by (cases fns) auto
  from container_file[OF r d] fp f0 obtain p0 fs ts where
    c0: "hasParent (heap s) f0 p0" "subtreeAt p0 t = Some (FTree p0 fs ts)" by blast
  have "p0 = k" using hasParent_unique[OF c0(1)] fp f0 by blast
  with c0(2) have st: "subtreeAt k t = Some (FTree k fs ts)" by simp
  have sub: "set fns \<subseteq> set fs"
  proof
    fix f assume f: "f \<in> set fns"
    from container_file[OF r d] fp f obtain p1 fs1 ts1 where
      c1: "hasParent (heap s) f p1" "subtreeAt p1 t = Some (FTree p1 fs1 ts1)" "f \<in> set fs1" by blast
    have "p1 = k" using hasParent_unique[OF c1(1)] fp f by blast
    with c1(2,3) st show "f \<in> set fs" by simp
  qed
  from repr_unfold[OF subtreeAt_repr[OF st r]] obtain pd where
    pd: "heap s k = Some pd" "m_fileNodes pd = fs" and par: "\<forall>f \<in> set fs. hasParent (heap s) f k"
    by auto
  from subtree_files[OF st d] have fs: "distinct fs" "set fs \<subseteq> set (nodes t)" "k \<notin> set fs"
    "set fs \<subseteq> set (allFiles t)" by auto
  from removeFileNodes_post[OF rf pd(1)] obtain ys where
    ys: "heap s1 k = Some (pd\<lparr>m_fileNodes := ys\<rparr>)" "mset ys + mset fns = mset (m_fileNodes pd)"
    "\<forall>f \<in> set fns. heap s1 f = None"
    "\<forall>a. a \<noteq> k \<and> a \<notin> set fns \<longrightarrow> heap s1 a = heap s a" by blast
  have m: "mset (ys @ fns) = mset fs" using ys(2) pd(2) by simp
  have dyf: "distinct (ys @ fns)" using mset_eq_imp_distinct_iff[OF m] fs(1) by simp
  have sy: "set ys \<union> set fns = set fs" using mset_eq_setD[OF m] by simp
  have par1: "\<forall>f \<in> set ys. hasParent (heap s1) f k"
  proof
    fix f assume f: "f \<in> set ys"
    then have "f \<in> set fs" "f \<notin> set fns" using sy dyf by auto
    moreover from this have "f \<noteq> k" using fs(3) by auto
    ultimately show "hasParent (heap s1) f k" using ys(4) par by (simp add: hasParent_def)
  qed
  have fr: "\<forall>a \<in> set (nodes t). a \<noteq> k \<and> a \<notin> set fs \<longrightarrow> heap s1 a = heap s a"
    using ys(4) sub by auto
  have dy: "distinct ys" using dyf by simp
  have dj: "set ys \<inter> (set (nodes t) - set fs) = {}" using sy by auto
  from tree_setFiles[OF Cons.prems(2) st pd(1) ys(1) par1 fr dy dj] obtain t1 where
    t1: "treeAt (heap s1) this t1"
    "mset (allFiles t1) + mset fs = mset (allFiles t) + mset ys"
    "mset (folders t1) = mset (folders t)" by blast
  have "mset (allFiles t1) + (mset ys + mset fns) = mset (allFiles t) + mset ys"
    using t1(2) m by simp
  then have af1: "mset (allFiles t1) + mset fns = mset (allFiles t)" by simp
  have sf1: "set (folders t1) = set (folders t)" using mset_eq_setD[OF t1(3)] .
  have kin: "k \<in> set (folders t)" using st subtreeAt_None[of k t] by auto
  have k1: "keeps X (heap s) (heap s1)"
  proof (rule keeps_frame)
    fix a
    consider "a = k" | "a \<in> set fns" | "a \<noteq> k" "a \<notin> set fns" by blast
    then show "heap s1 a = None \<or> heap s1 a = heap s a \<or>
        (\<exists>n. heap s a = Some n \<and> (\<exists>n'. heap s1 a = Some n' \<and> m_filePath n' = m_filePath n))"
    proof cases
      case 1 then show ?thesis using pd(1) ys(1) by simp
    next
      case 2 with ys(3) show ?thesis by simp
    next
      case 3 with ys(4) show ?thesis by simp
    qed
  qed
  have "\<exists>t2. treeAt (heap s2) this t2 \<and> mset (allFiles t2) = mset (allFiles t1) \<and>
          (\<forall>a. a \<notin> set (folders t1) \<longrightarrow> heap s2 a = heap s1 a) \<and> keeps X (heap s1) (heap s2)"
  proof (cases "k = this")
    case True
    with re have "s2 = s1" by simp
    with t1(1) show ?thesis by (auto simp: keeps_refl intro!: exI[of _ t1])
  next
    case False
    with re have "buildTree_removeEmpty fuel this k s1 = Inr s2" by simp
    from removeEmpty_tree[OF this t1(1) _ False, of X] kin sf1 show ?thesis by blast
  qed
  then obtain t2 where
    t2: "treeAt (heap s2) this t2" "mset (allFiles t2) = mset (allFiles t1)"
    "\<forall>a. a \<notin> set (folders t1) \<longrightarrow> heap s2 a = heap s1 a" "keeps X (heap s1) (heap s2)" by blast
  have rest: "distinct (concat (map snd es))" "set fns \<inter> set (concat (map snd es)) = {}"
    using Cons.prems(3) by (auto simp: e)
  have ent: "\<forall>e \<in> set es. snd e \<noteq> [] \<and>
      (\<forall>f \<in> set (snd e). hasParent (heap s2) f (fst e) \<and> f \<in> set (allFiles t2))"
  proof (intro ballI conjI)
    fix e' assume e': "e' \<in> set es"
    with Cons.prems(4) show "snd e' \<noteq> []" by simp
    fix f assume f: "f \<in> set (snd e')"
    with e' Cons.prems(4) have hp: "hasParent (heap s) f (fst e')" and fa: "f \<in> set (allFiles t)"
      by auto
    from e' f have fc: "f \<in> set (concat (map snd es))" by auto
    with rest(2) have nf: "f \<notin> set fns" by auto
    have "f \<in># mset (allFiles t1) + mset fns" using fa af1 by simp
    with nf have f1: "f \<in> set (allFiles t1)" by simp
    then show "f \<in> set (allFiles t2)" using mset_eq_setD[OF t2(2)] by simp
    have nfo: "f \<notin> set (folders t)" by (rule files_not_folders[OF d fa])
    with kin have "f \<noteq> k" by auto
    with nf ys(4) have "heap s1 f = heap s f" by simp
    moreover have "heap s2 f = heap s1 f" using t2(3) nfo sf1 by simp
    ultimately show "hasParent (heap s2) f (fst e')" using hp by (simp add: hasParent_def)
  qed
  from Cons.IH[OF l t2(1) rest(1) ent] obtain t' where
    t': "treeAt (heap s') this t'"
    "mset (allFiles t') + mset (concat (map snd es)) = mset (allFiles t2)"
    "keeps X (heap s2) (heap s')" by blast
  have "mset (allFiles t') + mset (concat (map snd es)) + mset fns = mset (allFiles t)"
    using t'(2) t2(2) af1 by simp
  then have "mset (allFiles t') + mset (concat (map snd (e # es))) = mset (allFiles t)"
    by (simp add: e add.commute add.left_commute)
  with t'(1) keeps_trans[OF keeps_trans[OF k1 t2(4)] t'(3)] show ?case by blast
qed

lemma repr_live: "repr h t \<Longrightarrow> a \<in> set (nodes t) \<Longrightarrow> h a \<noteq> None"
proof (induction t)
  case (FTree r fs ts)
  from repr_unfold[OF FTree.prems(1)] obtain pd where
    pd: "h r = Some pd" and fl: "\<forall>f \<in> set fs. hasParent h f r" and
    subs: "\<forall>x \<in> set ts. repr h x" by auto
  from FTree.prems(2) consider "a = r" | "a \<in> set fs" | x where "x \<in> set ts" "a \<in> set (nodes x)"
    by auto
  then show ?case
  proof cases
    case 1 with pd show ?thesis by simp
  next
    case 2 with fl show ?thesis by (auto simp: hasParent_def split: option.splits)
  next
    case 3 with FTree.IH subs show ?thesis by blast
  qed
qed

lemma partition_live:
  "buildTree_partition fuel env this newFiles s = Inr r \<Longrightarrow> \<forall>x \<in> set newFiles. heap s x \<noteq> None"
  by (auto simp: buildTree_partition_def and_then_eq_Inr split: if_splits)

lemma distinct_sub: "mset xs \<subseteq># mset ys \<Longrightarrow> distinct ys \<Longrightarrow> distinct xs"
proof -
  assume sub: "mset xs \<subseteq># mset ys" and d: "distinct ys"
  have "\<forall>a. count (mset xs) a \<le> 1"
  proof
    fix a
    have "count (mset xs) a \<le> count (mset ys) a" by (rule mset_subset_eq_count[OF sub])
    also have "\<dots> \<le> 1" using d distinct_iff_count_le1[of ys] by blast
    finally show "count (mset xs) a \<le> 1" .
  qed
  then show ?thesis using distinct_iff_count_le1[of xs] by blast
qed

lemma buildTree_first_run:
  assumes env: "envOk env"
    and tr: "treeAt (heap s) this t"
    and new: "set newFiles \<inter> set (nodes t) = {}"
    and dn: "distinct newFiles"
    and df: "distinct fresh"
    and fr: "\<forall>a \<in> set fresh. heap s a = None"
    and run: "buildTree fuel env this newFiles base fresh s = Inr s'"
  shows "\<exists>t'. treeAt (heap s') this t' \<and>
           mset (map (pathOf (heap s')) (allFiles t')) = mset (map (pathOf (heap s)) newFiles)"
proof -
  let ?key = "pathOf (heap s)"
  from run obtain fs' del add s1 am s2 s3 dm where
    part: "buildTree_partition fuel env this newFiles s = Inr (fs', del, add)" and
    dl: "foldM deleteFileNode (subtractSortedList fs' add) s = Inr s1" and
    ad: "buildTree_addedMapping env this base add [] fresh s1 = Inr (am, s2)" and
    af: "foldM (\<lambda>(folder, fns). addFileNodes folder fns) (hashEntries env am) s2 = Inr s3" and
    dmap: "buildTree_deletedMapping (heap s3) del [] = Inr dm" and
    rm: "foldM (buildTree_removeDeleted fuel this) (hashEntries env dm) s3 = Inr s'"
    by (auto simp: buildTree_def and_then_eq_Inr split: prod.splits)
  from tr have r: "repr (heap s) t" and d: "distinct (nodes t)" and ro: "root t = this"
    by (simp_all add: treeAt_def)
  from partition_unfold[OF part] obtain old where
    rfn: "recursiveFileNodes fuel (heap s) this = Inr old" and
    fs': "fs' = sortedBy env ?key newFiles" and
    cmp: "(del, add) = compareSortedLists (\<lambda>a b. ?key a < ?key b) (sortedBy env ?key old) fs'"
    by blast
  have old: "old = allFiles t" using recursiveFileNodes_post[OF _ r] rfn ro by simp
  have live: "\<forall>x \<in> set newFiles. heap s x \<noteq> None" by (rule partition_live[OF part])
  let ?old = "sortedBy env ?key old"
  have mo: "mset ?old = mset (allFiles t)" using envOk_sorted[OF env] old by simp
  have mf: "mset fs' = mset newFiles" using envOk_sorted[OF env] fs' by simp
  from compare_keys[OF cmp[symmetric]] have
    ck: "mset (map ?key ?old) + mset (map ?key add) = mset (map ?key fs') + mset (map ?key del)" .
  from compare_sub[OF cmp[symmetric]] have
    cs: "mset del \<subseteq># mset (allFiles t)" "mset add \<subseteq># mset newFiles" using mo mf by simp_all
  have dfl: "distinct (allFiles t)"
  proof -
    have "mset (nodes t) = mset (folders t @ allFiles t)" by (simp add: mset_nodes)
    from mset_eq_imp_distinct_iff[OF this] d show ?thesis by simp
  qed
  have dadd: "distinct add" by (rule distinct_sub[OF cs(2) dn])
  have ddel: "distinct del" by (rule distinct_sub[OF cs(1) dfl])
  have sadd: "set add \<subseteq> set newFiles" using set_mset_mono[OF cs(2)] by simp
  have sdel: "set del \<subseteq> set (allFiles t)" using set_mset_mono[OF cs(1)] by simp
  have frn: "set fresh \<inter> set (nodes t) = {}"
  proof -
    have "\<And>a. a \<in> set (nodes t) \<Longrightarrow> a \<notin> set fresh"
    proof
      fix a assume "a \<in> set (nodes t)" "a \<in> set fresh"
      with fr repr_live[OF r, of a] show False
        apply -
        apply (drule bspec, assumption)
        apply simp
        done
    qed
    then show ?thesis by blast
  qed
  have frf: "set fresh \<inter> set newFiles = {}"
  proof -
    have "\<And>a. a \<in> set newFiles \<Longrightarrow> a \<notin> set fresh"
    proof
      fix a assume "a \<in> set newFiles" "a \<in> set fresh"
      with fr live show False
        apply -
        apply (drule bspec, assumption)
        apply (drule bspec, assumption)
        apply simp
        done
    qed
    then show ?thesis by blast
  qed
  have sds: "set (subtractSortedList fs' add) \<subseteq> set newFiles"
    using mset_eq_setD[OF mf] by (auto simp: subtractSortedList_def)
  then have "set (subtractSortedList fs' add) \<inter> set (nodes t) = {}" using new by auto
  from phase_discard[OF dl tr this, of "set fresh"] have
    t1: "treeAt (heap s1) this t" and k1: "keeps (set fresh) (heap s) (heap s1)" by simp_all
  from addedMapping_post[OF ad t1 df frn] obtain t2 where
    t2: "treeAt (heap s2) this t2" "mset (allFiles t2) = mset (allFiles t)"
    "set (nodes t2) \<subseteq> set (nodes t) \<union> set fresh"
    "fst ` set am \<subseteq> set (folders t2)" "distinct (map fst am)"
    "mset (concat (map snd am)) = mset add"
    "keeps (set fresh) (heap s1) (heap s2)" by auto
  have me: "mset (hashEntries env am) = mset am" by (rule hashEntries_mset[OF env t2(5)])
  have mc: "mset (concat (map snd (hashEntries env am))) = mset add"
    using mset_concat_snd[OF me] t2(6) by simp
  have keys: "fst ` set (hashEntries env am) \<subseteq> set (folders t2)"
    using mset_eq_setD[OF me] t2(4) by simp
  have dc: "distinct (concat (map snd (hashEntries env am)))"
    using mset_eq_imp_distinct_iff[OF mc] dadd by simp
  have sc: "set (concat (map snd (hashEntries env am))) = set add" using mset_eq_setD[OF mc] .
  have "set add \<inter> set (nodes t2) = {}" using sadd new frf t2(3) by blast
  then have dj: "set (concat (map snd (hashEntries env am))) \<inter> set (nodes t2) = {}"
    by (simp only: sc)
  from phase_addFiles[OF af t2(1) keys dc dj, of "set fresh"] obtain t3 where
    t3: "treeAt (heap s3) this t3"
    "mset (allFiles t3) = mset (allFiles t2) + mset (concat (map snd (hashEntries env am)))"
    "keeps (set fresh) (heap s2) (heap s3)" by blast
  have af3: "mset (allFiles t3) = mset (allFiles t) + mset add" using t3(2) t2(2) mc by simp
  from deletedMapping_post[OF dmap] have
    dm: "distinct (map fst dm)" "mset (concat (map snd dm)) = mset del"
    "\<forall>e \<in> set dm. snd e \<noteq> [] \<and> (\<forall>f \<in> set (snd e). hasParent (heap s3) f (fst e))"
    by simp_all
  have me2: "mset (hashEntries env dm) = mset dm" by (rule hashEntries_mset[OF env dm(1)])
  have mc2: "mset (concat (map snd (hashEntries env dm))) = mset del"
    using mset_concat_snd[OF me2] dm(2) by simp
  have dc2: "distinct (concat (map snd (hashEntries env dm)))"
    using mset_eq_imp_distinct_iff[OF mc2] ddel by simp
  have sc2: "set (concat (map snd (hashEntries env dm))) = set del" using mset_eq_setD[OF mc2] .
  have sa3: "set (allFiles t) \<subseteq> set (allFiles t3)"
  proof -
    have "mset (allFiles t3) = mset (allFiles t @ add)" using af3 by simp
    from mset_eq_setD[OF this] show ?thesis by auto
  qed
  have ent: "\<forall>e \<in> set (hashEntries env dm). snd e \<noteq> [] \<and>
      (\<forall>f \<in> set (snd e). hasParent (heap s3) f (fst e) \<and> f \<in> set (allFiles t3))"
  proof (intro ballI conjI)
    fix e assume e: "e \<in> set (hashEntries env dm)"
    then have e': "e \<in> set dm" using mset_eq_setD[OF me2] by simp
    with dm(3) show "snd e \<noteq> []" by simp
    fix f assume f: "f \<in> set (snd e)"
    with e' dm(3) show "hasParent (heap s3) f (fst e)" by simp
    from e f have "f \<in> set (concat (map snd (hashEntries env dm)))" by auto
    with sc2 sdel sa3 show "f \<in> set (allFiles t3)" by auto
  qed
  from phase_remove[OF rm t3(1) dc2 ent, of "set fresh"] obtain t4 where
    t4: "treeAt (heap s') this t4"
    "mset (allFiles t4) + mset (concat (map snd (hashEntries env dm))) = mset (allFiles t3)"
    "keeps (set fresh) (heap s3) (heap s')" by blast
  have acc: "mset (allFiles t4) + mset del = mset (allFiles t) + mset add"
    using t4(2) mc2 af3 by simp
  have k: "keeps (set fresh) (heap s) (heap s')"
    by (rule keeps_trans[OF keeps_trans[OF keeps_trans[OF k1 t2(7)] t3(3)] t4(3)])
  have r4: "repr (heap s') t4" using t4(1) by (simp add: treeAt_def)
  have paths: "map (pathOf (heap s')) (allFiles t4) = map ?key (allFiles t4)"
  proof (rule map_cong[OF refl])
    fix x assume x: "x \<in> set (allFiles t4)"
    then have "x \<in># mset (allFiles t4) + mset del" by simp
    then have "x \<in># mset (allFiles t) + mset add" using acc by simp
    then have "x \<in> set (allFiles t) \<union> set add" by simp
    then have nf: "x \<notin> set fresh" using frn frf sadd by (auto simp: set_nodes)
    have "heap s' x \<noteq> None" by (rule repr_live[OF r4]) (use x in \<open>simp add: set_nodes\<close>)
    from keeps_pathOf[OF k nf this] show "pathOf (heap s') x = ?key x" .
  qed
  have "image_mset ?key (mset (allFiles t4) + mset del) = image_mset ?key (mset (allFiles t) + mset add)"
    by (simp only: acc)
  then have "mset (map ?key (allFiles t4)) + mset (map ?key del) =
             mset (map ?key (allFiles t)) + mset (map ?key add)" by simp
  also have "mset (map ?key (allFiles t)) = mset (map ?key ?old)"
    using mo by (metis mset_map)
  also have "mset (map ?key ?old) + mset (map ?key add) = mset (map ?key fs') + mset (map ?key del)"
    by (rule ck)
  finally have "mset (map ?key (allFiles t4)) = mset (map ?key fs')" by simp
  also have "\<dots> = mset (map ?key newFiles)" using mf by (metis mset_map)
  finally have fin: "mset (map ?key (allFiles t4)) = mset (map ?key newFiles)" .
  have "mset (map (pathOf (heap s')) (allFiles t4)) = mset (map ?key newFiles)"
    unfolding paths by (rule fin)
  with t4(1) show ?thesis by blast
qed

lemma foldM_deleteFileNode_total:
  "distinct ds \<Longrightarrow> \<forall>d \<in> set ds. heap s d \<noteq> None \<Longrightarrow> \<exists>s1. foldM deleteFileNode ds s = Inr s1"
proof (induction ds arbitrary: s)
  case Nil
  then show ?case by simp
next
  case (Cons d ds)
  let ?s = "s\<lparr>heap := (heap s)(d := None)\<rparr>"
  have 1: "deleteFileNode d s = Inr ?s" using Cons.prems(2) by (simp add: deleteFileNode_eq_Inr)
  have "\<forall>x \<in> set ds. heap ?s x \<noteq> None" using Cons.prems by auto
  from Cons.IH[OF _ this] Cons.prems(1) obtain s1 where "foldM deleteFileNode ds ?s = Inr s1" by auto
  with 1 show ?case by simp
qed

lemma second_partition:
  assumes env: "envOk env"
    and tr: "treeAt (heap s') this t'"
    and same: "mset (map (pathOf (heap s')) files2) = mset (map (pathOf (heap s')) (allFiles t'))"
    and part: "buildTree_partition fuel2 env this files2 s' = Inr (fs2, del2, add2)"
  shows "del2 = [] \<and> add2 = [] \<and> mset fs2 = mset files2"
proof -
  let ?key = "pathOf (heap s')"
  from tr have r: "repr (heap s') t'" and ro: "root t' = this" by (simp_all add: treeAt_def)
  from partition_unfold[OF part] obtain old where
    rfn: "recursiveFileNodes fuel2 (heap s') this = Inr old" and
    fs2: "fs2 = sortedBy env ?key files2" and
    cmp: "(del2, add2) = compareSortedLists (\<lambda>a b. ?key a < ?key b) (sortedBy env ?key old) fs2"
    by blast
  have old: "old = allFiles t'" using recursiveFileNodes_post[OF _ r] rfn ro by simp
  let ?old = "sortedBy env ?key old"
  have so: "mset ?old = mset old" "sorted (map ?key ?old)" using envOk_sorted[OF env] by auto
  have sf: "mset fs2 = mset files2" "sorted (map ?key fs2)" using envOk_sorted[OF env] fs2 by auto
  have "mset (map ?key ?old) = mset (map ?key old)" using so(1) by (metis mset_map)
  moreover have "mset (map ?key fs2) = mset (map ?key files2)" using sf(1) by (metis mset_map)
  ultimately have "mset (map ?key ?old) = mset (map ?key fs2)" using same old by simp
  from sorted_mset_unique[OF so(2) sf(2) this] have "map ?key ?old = map ?key fs2" .
  from compare_same_keys[OF this] cmp sf(1) show ?thesis by simp
qed

lemma partition_total:
  assumes tr: "treeAt (heap s') this t'" and live: "\<forall>a \<in> set files2. heap s' a \<noteq> None"
    and k: "height t' \<le> k"
  shows "\<exists>r. buildTree_partition k env this files2 s' = Inr r"
proof -
  from tr have r: "repr (heap s') t'" and ro: "root t' = this" by (simp_all add: treeAt_def)
  have rfn: "recursiveFileNodes k (heap s') this = Inr (allFiles t')"
    using recursiveFileNodes_repr[OF r k] ro by simp
  have "\<forall>f \<in> set (allFiles t' @ files2). heap s' f \<noteq> None"
    using live repr_live[OF r] by (auto simp: set_nodes)
  then have "\<not> (\<exists>f \<in> set (allFiles t' @ files2). heap s' f = None)" by blast
  then show ?thesis
    unfolding buildTree_partition_def rfn and_then_Inr
    by (simp only: if_False Let_def split: prod.splits) blast
qed

text \<open>
  C1. Let the store hold a tree below \<open>this\<close>, let the incoming file nodes be distinct
  objects outside the tree, and let \<open>new\<close> return distinct addresses that are not in use.
  After a run of \<open>buildTree\<close> that comes to its end, take any list of file nodes with the
  paths of the first list. Then the partition that a second run computes has no deleted
  and no added node; a second run that comes to its end has emitted nothing and has
  changed no object but the nodes of its list, which it discards; and when these are
  distinct live objects, the second run does come to its end, whatever the fuel above a
  bound.
\<close>

theorem buildTree_idempotent:
  assumes env: "envOk env"
    and tr: "treeAt (heap s) this t"
    and new: "set newFiles \<inter> set (nodes t) = {}"
    and dn: "distinct newFiles"
    and df: "distinct fresh"
    and fr: "\<forall>a \<in> set fresh. heap s a = None"
    and run: "buildTree fuel env this newFiles base fresh s = Inr s'"
    and same: "mset (map (pathOf (heap s')) files2) = mset (map (pathOf (heap s)) newFiles)"
  shows "(buildTree_partition fuel2 env this files2 s' = Inr (fs2, del2, add2) \<longrightarrow>
           del2 = [] \<and> add2 = []) \<and>
         (buildTree fuel2 env this files2 base2 fresh2 s' = Inr s'' \<longrightarrow>
           events s'' = events s' \<and> (\<forall>a. a \<notin> set files2 \<longrightarrow> heap s'' a = heap s' a)) \<and>
         (distinct files2 \<and> (\<forall>a \<in> set files2. heap s' a \<noteq> None) \<longrightarrow>
           (\<exists>n. \<forall>k \<ge> n. \<exists>s2. buildTree k env this files2 base2 fresh2 s' = Inr s2))"
proof -
  from buildTree_first_run[OF env tr new dn df fr run] obtain t' where
    t': "treeAt (heap s') this t'"
    "mset (map (pathOf (heap s')) (allFiles t')) = mset (map (pathOf (heap s)) newFiles)" by blast
  have same': "mset (map (pathOf (heap s')) files2) = mset (map (pathOf (heap s')) (allFiles t'))"
    using same t'(2) by simp
  have rest: "\<And>k fs del add s2. buildTree_partition k env this files2 s' = Inr (fs, del, add) \<Longrightarrow>
      buildTree k env this files2 base2 fresh2 s' = foldM deleteFileNode fs s' \<and> mset fs = mset files2"
  proof -
    fix k fs del add
    assume p: "buildTree_partition k env this files2 s' = Inr (fs, del, add)"
    from second_partition[OF env t'(1) same' p] have e: "del = []" "add = []" "mset fs = mset files2"
      by simp_all
    have "buildTree k env this files2 base2 fresh2 s' =
            and_then (foldM deleteFileNode fs s') (\<lambda>s1. Inr s1)"
      by (simp add: buildTree_def p e subtractSortedList_def hashEntries_def
          envOk_hashOrder_Nil[OF env])
    also have "\<dots> = foldM deleteFileNode fs s'"
      by (cases "foldM deleteFileNode fs s'") simp_all
    finally show "buildTree k env this files2 base2 fresh2 s' = foldM deleteFileNode fs s' \<and>
      mset fs = mset files2" using e(3) by simp
  qed
  have 1: "buildTree_partition fuel2 env this files2 s' = Inr (fs2, del2, add2) \<longrightarrow>
           del2 = [] \<and> add2 = []"
    using second_partition[OF env t'(1) same'] by blast
  have 2: "buildTree fuel2 env this files2 base2 fresh2 s' = Inr s'' \<longrightarrow>
           events s'' = events s' \<and> (\<forall>a. a \<notin> set files2 \<longrightarrow> heap s'' a = heap s' a)"
  proof
    assume r2: "buildTree fuel2 env this files2 base2 fresh2 s' = Inr s''"
    then obtain fs del add where
      p: "buildTree_partition fuel2 env this files2 s' = Inr (fs, del, add)"
      by (auto simp: buildTree_def and_then_eq_Inr)
    from rest[OF p] r2 have d: "foldM deleteFileNode fs s' = Inr s''" and m: "mset fs = mset files2"
      by simp_all
    have "set fs = set files2" using mset_eq_setD[OF m] .
    with foldM_deleteFileNode_post[OF d]
    show "events s'' = events s' \<and> (\<forall>a. a \<notin> set files2 \<longrightarrow> heap s'' a = heap s' a)" by simp
  qed
  have 3: "distinct files2 \<and> (\<forall>a \<in> set files2. heap s' a \<noteq> None) \<longrightarrow>
           (\<exists>n. \<forall>k \<ge> n. \<exists>s2. buildTree k env this files2 base2 fresh2 s' = Inr s2)"
  proof
    assume a: "distinct files2 \<and> (\<forall>a \<in> set files2. heap s' a \<noteq> None)"
    have "\<forall>k \<ge> height t'. \<exists>s2. buildTree k env this files2 base2 fresh2 s' = Inr s2"
    proof (intro allI impI)
      fix k assume k: "height t' \<le> k"
      from partition_total[OF t'(1) _ k, of files2 env] a obtain fs del add where
        p: "buildTree_partition k env this files2 s' = Inr (fs, del, add)"
        by (metis prod_cases3)
      from rest[OF p] have b: "buildTree k env this files2 base2 fresh2 s' = foldM deleteFileNode fs s'"
        and m: "mset fs = mset files2" by simp_all
      have "distinct fs" using mset_eq_imp_distinct_iff[OF m] a by simp
      moreover have "\<forall>d \<in> set fs. heap s' d \<noteq> None" using mset_eq_setD[OF m] a by simp
      ultimately obtain s2 where "foldM deleteFileNode fs s' = Inr s2"
        using foldM_deleteFileNode_total by blast
      with b show "\<exists>s2. buildTree k env this files2 base2 fresh2 s' = Inr s2" by simp
    qed
    then show "\<exists>n. \<forall>k \<ge> n. \<exists>s2. buildTree k env this files2 base2 fresh2 s' = Inr s2" by blast
  qed
  from 1 2 3 show ?thesis by blast
qed

theorem buildTree_idempotent_witness:
  "treeAt (heap ex_build2) 10 (FTree 10 [30] [FTree 20 [40] []]) \<and>
   \<not> isl (buildTree 5 ex_env 10 [70, 60] [] [100, 101, 102] ex_build2) \<and>
   \<not> isl (buildTree_partition 5 ex_env 10 [90, 80]
            (projr (buildTree 5 ex_env 10 [70, 60] [] [100, 101, 102] ex_build2))) \<and>
   snd (projr (buildTree_partition 5 ex_env 10 [90, 80]
            (projr (buildTree 5 ex_env 10 [70, 60] [] [100, 101, 102] ex_build2)))) = ([], []) \<and>
   \<not> isl (buildTree 5 ex_env 10 [90, 80] [] [103]
            (projr (buildTree 5 ex_env 10 [70, 60] [] [100, 101, 102] ex_build2))) \<and>
   events (projr (buildTree 5 ex_env 10 [90, 80] [] [103]
            (projr (buildTree 5 ex_env 10 [70, 60] [] [100, 101, 102] ex_build2)))) =
   events (projr (buildTree 5 ex_env 10 [70, 60] [] [100, 101, 102] ex_build2)) \<and>
   heap (projr (buildTree 5 ex_env 10 [90, 80] [] [103]
            (projr (buildTree 5 ex_env 10 [70, 60] [] [100, 101, 102] ex_build2)))) 10 =
   heap (projr (buildTree 5 ex_env 10 [70, 60] [] [100, 101, 102] ex_build2)) 10"
proof -
  let ?R = "buildTree 5 ex_env 10 [70, 60] [] [100, 101, 102] ex_build2"
  let ?P = "buildTree_partition 5 ex_env 10 [90, 80] (projr ?R)"
  let ?S = "buildTree 5 ex_env 10 [90, 80] [] [103] (projr ?R)"
  have tr: "treeAt (heap ex_build2) 10 (FTree 10 [30] [FTree 20 [40] []])"
    by (simp add: treeAt_def ex_build2_def ex_build_def hasParent_def mkNode_def)
  have r0: "\<not> isl ?R" by code_simp
  then have run: "?R = Inr (projr ?R)" by simp
  have p0: "\<not> isl ?P" by code_simp
  then have part: "?P = Inr (fst (projr ?P), fst (snd (projr ?P)), snd (snd (projr ?P)))" by simp
  have s0: "\<not> isl ?S" by code_simp
  then have run2: "?S = Inr (projr ?S)" by simp
  have new: "set [70, 60] \<inter> set (nodes (FTree 10 [30] [FTree 20 [40] []])) = {}" by simp
  have dn: "distinct [70::nat, 60]" by simp
  have df: "distinct [100::nat, 101, 102]" by simp
  have fr: "\<forall>a \<in> set [100, 101, 102]. heap ex_build2 a = None"
    by (simp add: ex_build2_def ex_build_def)
  have k1: "pathOf (heap (projr ?R)) 90 = ''/p/new/deep/c.cpp''" by code_simp
  have k2: "pathOf (heap (projr ?R)) 80 = ''/p/sub/b.cpp''" by code_simp
  have k3: "pathOf (heap ex_build2) 70 = ''/p/new/deep/c.cpp''" by code_simp
  have k4: "pathOf (heap ex_build2) 60 = ''/p/sub/b.cpp''" by code_simp
  have same: "mset (map (pathOf (heap (projr ?R))) [90, 80]) =
              mset (map (pathOf (heap ex_build2)) [70, 60])" by (simp add: k1 k2 k3 k4)
  from buildTree_idempotent[OF ex_env_ok tr new dn df fr run same,
      of 5 "fst (projr ?P)" "fst (snd (projr ?P))" "snd (snd (projr ?P))" "[]" "[103]" "projr ?S"]
    part run2
  have c: "fst (snd (projr ?P)) = []" "snd (snd (projr ?P)) = []"
    "events (projr ?S) = events (projr ?R)" "heap (projr ?S) 10 = heap (projr ?R) 10"
    by simp_all
  have "snd (projr ?P) = ([], [])" using c(1,2) by (simp add: prod_eq_iff)
  with tr r0 p0 s0 c(3,4) show ?thesis by simp
qed


subsection \<open>Removing sub-projects: the run ends\<close>

lemma fileLeaves_sub: "fileLeaves h (FTree a fs ts) \<Longrightarrow> x \<in> set ts \<Longrightarrow> fileLeaves h x"
  by (auto simp: fileLeaves_def list_all_iff)

lemma fileLeaves_cong:
  "(\<And>a. a \<in> set (allFiles t) \<Longrightarrow> h' a = h a) \<Longrightarrow> fileLeaves h' t = fileLeaves h t"
  by (auto simp: fileLeaves_def list_all_iff)

lemma deleteNode_leaf:
  "heap s c = Some cd \<Longrightarrow> m_fileNodes cd = [] \<Longrightarrow> m_folderNodes cd = [] \<Longrightarrow>
     deleteNode (Suc n) c s = Inr (s\<lparr>heap := (heap s)(c := None)\<rparr>)"
  by simp

text \<open>Deleting the leaves of a list one after the other.\<close>

lemma foldM_deleteNode_leaves:
  "distinct fs \<Longrightarrow>
   \<forall>f \<in> set fs. \<exists>fd. heap s f = Some fd \<and> m_fileNodes fd = [] \<and> m_folderNodes fd = [] \<Longrightarrow>
     \<exists>s'. foldM (deleteNode (Suc n)) fs s = Inr s' \<and> events s' = events s \<and>
          (\<forall>a \<in> set fs. heap s' a = None) \<and> (\<forall>a. a \<notin> set fs \<longrightarrow> heap s' a = heap s a)"
proof (induction fs arbitrary: s)
  case Nil
  then show ?case by simp
next
  case (Cons f fs)
  from Cons.prems(2) obtain fd where fd: "heap s f = Some fd" "m_fileNodes fd = []"
    "m_folderNodes fd = []" by auto
  let ?s1 = "s\<lparr>heap := (heap s)(f := None)\<rparr>"
  have 1: "deleteNode (Suc n) f s = Inr ?s1" by (rule deleteNode_leaf[OF fd])
  have "\<forall>x \<in> set fs. \<exists>fd. heap ?s1 x = Some fd \<and> m_fileNodes fd = [] \<and> m_folderNodes fd = []"
    using Cons.prems by auto
  moreover have "distinct fs" using Cons.prems(1) by simp
  ultimately obtain s' where
    s': "foldM (deleteNode (Suc n)) fs ?s1 = Inr s'" "events s' = events ?s1"
    "\<forall>a \<in> set fs. heap s' a = None" "\<forall>a. a \<notin> set fs \<longrightarrow> heap s' a = heap ?s1 a"
    using Cons.IH[of ?s1] by blast
  have a: "foldM (deleteNode (Suc n)) (f # fs) s = Inr s'"
    by (simp only: foldM.simps 1 and_then_Inr s'(1))
  have b: "events s' = events s" using s'(2) by simp
  have "heap s' f = None" using s'(4) Cons.prems(1) by simp
  with s'(3) have c: "\<forall>a \<in> set (f # fs). heap s' a = None" by simp
  have d: "\<forall>a. a \<notin> set (f # fs) \<longrightarrow> heap s' a = heap s a" using s'(4) by simp
  from a b c d show ?case by blast
qed

text \<open>Deleting a folder deletes the tree below it, and nothing else.\<close>

lemma deleteNode_tree:
  "repr (heap s) t \<Longrightarrow> distinct (nodes t) \<Longrightarrow> fileLeaves (heap s) t \<Longrightarrow> height t < n \<Longrightarrow>
     \<exists>s'. deleteNode n (root t) s = Inr s' \<and> events s' = events s \<and>
          (\<forall>a \<in> set (nodes t). heap s' a = None) \<and>
          (\<forall>a. a \<notin> set (nodes t) \<longrightarrow> heap s' a = heap s a)"
proof (induction t arbitrary: s n)
  case (FTree a fs ts)
  from FTree.prems(4) obtain m where n: "n = Suc m" and hm: "fold max (map height ts) 0 < m"
    by (cases n) auto
  then obtain k where m: "m = Suc k" by (cases m) auto
  from repr_unfold[OF FTree.prems(1)] obtain nd where
    nd: "heap s a = Some nd" "m_fileNodes nd = fs" "m_folderNodes nd = map root ts" and
    subs: "\<forall>x \<in> set ts. repr (heap s) x" by auto
  from FTree.prems(2) have d: "a \<notin> set fs" "a \<notin> set (concat (map nodes ts))" "distinct fs"
    "distinct (concat (map nodes ts))" "set fs \<inter> set (concat (map nodes ts)) = {}" by auto
  have forest: "\<And>xs s0. set xs \<subseteq> set ts \<Longrightarrow> distinct (concat (map nodes xs)) \<Longrightarrow>
      (\<forall>x \<in> set xs. repr (heap s0) x \<and> fileLeaves (heap s0) x) \<Longrightarrow>
      \<exists>s1. foldM (deleteNode m) (map root xs) s0 = Inr s1 \<and> events s1 = events s0 \<and>
          (\<forall>b \<in> set (concat (map nodes xs)). heap s1 b = None) \<and>
          (\<forall>b. b \<notin> set (concat (map nodes xs)) \<longrightarrow> heap s1 b = heap s0 b)"
  proof -
    fix xs s0
    show "set xs \<subseteq> set ts \<Longrightarrow> distinct (concat (map nodes xs)) \<Longrightarrow>
      (\<forall>x \<in> set xs. repr (heap s0) x \<and> fileLeaves (heap s0) x) \<Longrightarrow>
      \<exists>s1. foldM (deleteNode m) (map root xs) s0 = Inr s1 \<and> events s1 = events s0 \<and>
          (\<forall>b \<in> set (concat (map nodes xs)). heap s1 b = None) \<and>
          (\<forall>b. b \<notin> set (concat (map nodes xs)) \<longrightarrow> heap s1 b = heap s0 b)"
    proof (induction xs arbitrary: s0)
      case Nil
      then show ?case by simp
    next
      case (Cons x xs)
      have xin: "x \<in> set ts" using Cons.prems(1) by simp
      have hx: "height x < m" using height_sub[OF xin] hm by simp
      from Cons.prems(2) have dx: "distinct (nodes x)" "distinct (concat (map nodes xs))"
        "set (nodes x) \<inter> set (concat (map nodes xs)) = {}" by simp_all
      from Cons.prems(3) have rx: "repr (heap s0) x" "fileLeaves (heap s0) x" by simp_all
      from FTree.IH[OF xin rx(1) dx(1) rx(2) hx] obtain s1 where
        s1: "deleteNode m (root x) s0 = Inr s1" "events s1 = events s0"
        "\<forall>b \<in> set (nodes x). heap s1 b = None"
        "\<forall>b. b \<notin> set (nodes x) \<longrightarrow> heap s1 b = heap s0 b" by blast
      have keep: "\<forall>y \<in> set xs. repr (heap s1) y \<and> fileLeaves (heap s1) y"
      proof
        fix y assume y: "y \<in> set xs"
        have e: "\<And>b. b \<in> set (nodes y) \<Longrightarrow> heap s1 b = heap s0 b"
        proof -
          fix b assume "b \<in> set (nodes y)"
          then have "b \<in> set (concat (map nodes xs))" using y by auto
          with dx(3) have "b \<notin> set (nodes x)" by blast
          with s1(4) show "heap s1 b = heap s0 b" by simp
        qed
        have "repr (heap s1) y = repr (heap s0) y" by (rule repr_cong) (rule e)
        moreover have "fileLeaves (heap s1) y = fileLeaves (heap s0) y"
          by (rule fileLeaves_cong) (rule e, simp add: set_nodes)
        ultimately show "repr (heap s1) y \<and> fileLeaves (heap s1) y" using Cons.prems(3) y by simp
      qed
      have sub: "set xs \<subseteq> set ts" using Cons.prems(1) by simp
      from Cons.IH[OF sub dx(2) keep] obtain s2 where
        s2: "foldM (deleteNode m) (map root xs) s1 = Inr s2" "events s2 = events s1"
        "\<forall>b \<in> set (concat (map nodes xs)). heap s2 b = None"
        "\<forall>b. b \<notin> set (concat (map nodes xs)) \<longrightarrow> heap s2 b = heap s1 b" by blast
      have a: "foldM (deleteNode m) (map root (x # xs)) s0 = Inr s2"
        by (simp only: list.map foldM.simps s1(1) and_then_Inr s2(1))
      have b: "\<forall>b \<in> set (concat (map nodes (x # xs))). heap s2 b = None"
      proof
        fix b assume b: "b \<in> set (concat (map nodes (x # xs)))"
        show "heap s2 b = None"
        proof (cases "b \<in> set (concat (map nodes xs))")
          case True with s2(3) show ?thesis by blast
        next
          case False
          with b have "b \<in> set (nodes x)" by simp
          with s1(3) s2(4) False show ?thesis by simp
        qed
      qed
      have c: "\<forall>b. b \<notin> set (concat (map nodes (x # xs))) \<longrightarrow> heap s2 b = heap s0 b"
        using s1(4) s2(4) by simp
      have e: "events s2 = events s0" using s1(2) s2(2) by simp
      from a b c e show ?case by blast
    qed
  qed
  have fl: "\<forall>x \<in> set ts. repr (heap s) x \<and> fileLeaves (heap s) x"
    using subs fileLeaves_sub[OF FTree.prems(3)] by blast
  from forest[OF subset_refl d(4) fl] obtain s1 where
    s1: "foldM (deleteNode m) (map root ts) s = Inr s1" "events s1 = events s"
    "\<forall>b \<in> set (concat (map nodes ts)). heap s1 b = None"
    "\<forall>b. b \<notin> set (concat (map nodes ts)) \<longrightarrow> heap s1 b = heap s b" by blast
  have lv: "\<forall>f \<in> set fs. \<exists>fd. heap s1 f = Some fd \<and> m_fileNodes fd = [] \<and> m_folderNodes fd = []"
  proof
    fix f assume f: "f \<in> set fs"
    then have "f \<notin> set (concat (map nodes ts))" using d(5) by blast
    with s1(4) have "heap s1 f = heap s f" by simp
    moreover from FTree.prems(3) f have
      "case heap s f of None \<Rightarrow> False | Some fd \<Rightarrow> m_fileNodes fd = [] \<and> m_folderNodes fd = []"
      by (simp add: fileLeaves_def list_all_iff)
    ultimately show "\<exists>fd. heap s1 f = Some fd \<and> m_fileNodes fd = [] \<and> m_folderNodes fd = []"
      by (auto split: option.splits)
  qed
  from foldM_deleteNode_leaves[OF d(3) lv, of k] obtain s2 where
    s2: "foldM (deleteNode m) fs s1 = Inr s2" "events s2 = events s1"
    "\<forall>b \<in> set fs. heap s2 b = None" "\<forall>b. b \<notin> set fs \<longrightarrow> heap s2 b = heap s1 b"
    unfolding m by blast
  let ?s' = "s2\<lparr>heap := (heap s2)(a := None)\<rparr>"
  have "deleteNode n a s = Inr ?s'"
    unfolding n deleteNode.simps nd option.case s1(1) and_then_Inr s2(1) ..
  moreover have "events ?s' = events s" using s1(2) s2(2) by simp
  moreover have "\<forall>b \<in> set (nodes (FTree a fs ts)). heap ?s' b = None"
  proof
    fix b assume b: "b \<in> set (nodes (FTree a fs ts))"
    show "heap ?s' b = None"
    proof (cases "b = a \<or> b \<in> set fs")
      case True with s2(3) show ?thesis by auto
    next
      case False
      with b have bc: "b \<in> set (concat (map nodes ts))" by simp
      have "heap s2 b = heap s1 b" using s2(4) False by blast
      moreover have "heap s1 b = None" using s1(3) bc by blast
      ultimately show ?thesis using False by simp
    qed
  qed
  moreover have "\<forall>b. b \<notin> set (nodes (FTree a fs ts)) \<longrightarrow> heap ?s' b = heap s b"
    using s1(4) s2(4) by simp
  ultimately show ?case unfolding ftree.sel by blast
qed

lemma ProjectNode_loop_total:
  "heap s this = Some nd \<Longrightarrow>
   eraseEach (m_projectNodes nd) (map root ts) pit = Some ps' \<Longrightarrow>
   eraseEach (m_folderNodes nd) (map root ts) fit = Some fs' \<Longrightarrow>
   \<forall>t \<in> set ts. repr (heap s) t \<and> fileLeaves (heap s) t \<and> height t < fuel \<Longrightarrow>
   distinct (concat (map nodes ts)) \<Longrightarrow> this \<notin> set (concat (map nodes ts)) \<Longrightarrow>
     \<exists>s'. ProjectNode_removeProjectNodes_loop fuel this (map root ts) fit pit s = Inr s' \<and>
          heap s' this = Some (nd\<lparr>m_projectNodes := ps', m_folderNodes := fs'\<rparr>) \<and>
          events s' = events s \<and>
          (\<forall>a \<in> set (concat (map nodes ts)). heap s' a = None) \<and>
          (\<forall>b. b \<noteq> this \<and> b \<notin> set (concat (map nodes ts)) \<longrightarrow> heap s' b = heap s b)"
proof (induction ts arbitrary: s nd pit fit)
  case Nil
  then show ?case by simp
next
  case (Cons x xs)
  let ?r = "root x"
  from Cons.prems(2) obtain p1 where p1: "advance (m_projectNodes nd) pit ?r = Some p1"
    and eP: "eraseEach (erase (m_projectNodes nd) p1) (map root xs) p1 = Some ps'"
    by (auto split: option.splits)
  from Cons.prems(3) obtain f1 where f1: "advance (m_folderNodes nd) fit ?r = Some f1"
    and eF: "eraseEach (erase (m_folderNodes nd) f1) (map root xs) f1 = Some fs'"
    by (auto split: option.splits)
  from Cons.prems(5) have dx: "distinct (nodes x)" "distinct (concat (map nodes xs))"
    "set (nodes x) \<inter> set (concat (map nodes xs)) = {}" by simp_all
  from Cons.prems(6) have tx: "this \<notin> set (nodes x)" "this \<notin> set (concat (map nodes xs))"
    by simp_all
  from Cons.prems(4) have rx: "repr (heap s) x" "fileLeaves (heap s) x" "height x < fuel"
    by simp_all
  from deleteNode_tree[OF rx(1) dx(1) rx(2) rx(3)] obtain s1 where
    s1: "deleteNode fuel ?r s = Inr s1" "events s1 = events s"
    "\<forall>b \<in> set (nodes x). heap s1 b = None"
    "\<forall>b. b \<notin> set (nodes x) \<longrightarrow> heap s1 b = heap s b" by blast
  define nd2 where "nd2 = nd\<lparr>m_projectNodes := erase (m_projectNodes nd) p1,
                             m_folderNodes := erase (m_folderNodes nd) f1\<rparr>"
  let ?s2 = "s1\<lparr>heap := (heap s1)(this \<mapsto> nd2)\<rparr>"
  have h1: "heap s1 this = Some nd" using s1(4) tx(1) Cons.prems(1) by simp
  have u: "setFields this (\<lambda>n. n\<lparr>m_projectNodes := erase (m_projectNodes n) p1,
                               m_folderNodes := erase (m_folderNodes n) f1\<rparr>) s1 = Inr ?s2"
    unfolding setFields_eq_Inr using h1 by (auto simp: nd2_def)
  have p2: "heap ?s2 this = Some nd2" by simp
  have e2: "eraseEach (m_projectNodes nd2) (map root xs) p1 = Some ps'"
    "eraseEach (m_folderNodes nd2) (map root xs) f1 = Some fs'" using eP eF by (simp_all add: nd2_def)
  have keep: "\<forall>y \<in> set xs. repr (heap ?s2) y \<and> fileLeaves (heap ?s2) y \<and> height y < fuel"
  proof
    fix y assume y: "y \<in> set xs"
    have e: "\<And>b. b \<in> set (nodes y) \<Longrightarrow> heap ?s2 b = heap s b"
    proof -
      fix b assume "b \<in> set (nodes y)"
      then have bc: "b \<in> set (concat (map nodes xs))" using y by auto
      with dx(3) have "b \<notin> set (nodes x)" by blast
      moreover have "b \<noteq> this" using bc tx(2) by blast
      ultimately show "heap ?s2 b = heap s b" using s1(4) by simp
    qed
    have "repr (heap ?s2) y = repr (heap s) y" by (rule repr_cong) (rule e)
    moreover have "fileLeaves (heap ?s2) y = fileLeaves (heap s) y"
      by (rule fileLeaves_cong) (rule e, simp add: set_nodes)
    ultimately show "repr (heap ?s2) y \<and> fileLeaves (heap ?s2) y \<and> height y < fuel"
      using Cons.prems(4) y by simp
  qed
  from Cons.IH[OF p2 e2 keep dx(2) tx(2)] obtain s' where
    s': "ProjectNode_removeProjectNodes_loop fuel this (map root xs) f1 p1 ?s2 = Inr s'"
    "heap s' this = Some (nd2\<lparr>m_projectNodes := ps', m_folderNodes := fs'\<rparr>)"
    "events s' = events ?s2"
    "\<forall>a \<in> set (concat (map nodes xs)). heap s' a = None"
    "\<forall>b. b \<noteq> this \<and> b \<notin> set (concat (map nodes xs)) \<longrightarrow> heap s' b = heap ?s2 b" by blast
  have a: "ProjectNode_removeProjectNodes_loop fuel this (map root (x # xs)) fit pit s = Inr s'"
    unfolding list.map ProjectNode_removeProjectNodes_loop.simps Cons.prems(1) option.case p1 f1
      s1(1) and_then_Inr u s'(1) ..
  have b: "heap s' this = Some (nd\<lparr>m_projectNodes := ps', m_folderNodes := fs'\<rparr>)"
    using s'(2) by (simp add: nd2_def)
  have c: "events s' = events s" using s'(3) s1(2) by simp
  have d: "\<forall>a \<in> set (concat (map nodes (x # xs))). heap s' a = None"
  proof
    fix a assume a: "a \<in> set (concat (map nodes (x # xs)))"
    show "heap s' a = None"
    proof (cases "a \<in> set (concat (map nodes xs))")
      case True with s'(4) show ?thesis by blast
    next
      case False
      with a have ax: "a \<in> set (nodes x)" by simp
      then have "a \<noteq> this" using tx(1) by blast
      with False s'(5) have "heap s' a = heap ?s2 a" by blast
      also have "\<dots> = heap s1 a" using \<open>a \<noteq> this\<close> by simp
      also have "\<dots> = None" using s1(3) ax by blast
      finally show ?thesis .
    qed
  qed
  have e: "\<forall>b. b \<noteq> this \<and> b \<notin> set (concat (map nodes (x # xs))) \<longrightarrow> heap s' b = heap s b"
    using s'(5) s1(4) by simp
  from a b c d e show ?case by blast
qed

lemma mset_concat_map_cong:
  "mset xs = mset ys \<Longrightarrow> mset (concat (map g xs)) = mset (concat (map g ys))"
proof -
  have "\<And>zs. mset (concat (map g zs)) = (\<Sum>e \<in># mset zs. mset (g e))"
  proof -
    fix zs show "mset (concat (map g zs)) = (\<Sum>e \<in># mset zs. mset (g e))"
      by (induction zs) auto
  qed
  then show "mset xs = mset ys \<Longrightarrow> mset (concat (map g xs)) = mset (concat (map g ys))" by simp
qed

lemma ProjectNode_removeProjectNodes_total:
  assumes nd: "heap s this = Some nd"
    and ne: "subProjects \<noteq> []"
    and di: "distinct subProjects"
    and inP: "set subProjects \<subseteq> set (m_projectNodes nd)"
    and inF: "set subProjects \<subseteq> set (m_folderNodes nd)"
    and soP: "sorted_wrt (<) (m_projectNodes nd)"
    and soF: "sorted_wrt (<) (m_folderNodes nd)"
    and trees: "\<forall>p \<in> set subProjects. root (tr p) = p \<and> repr (heap s) (tr p) \<and>
                  fileLeaves (heap s) (tr p) \<and> height (tr p) < fuel"
    and disj: "distinct (concat (map (\<lambda>p. nodes (tr p)) subProjects))"
    and out: "this \<notin> set (concat (map (\<lambda>p. nodes (tr p)) subProjects))"
  shows "\<exists>s'. ProjectNode_removeProjectNodes fuel this subProjects s = Inr s' \<and>
            heap s' this = Some (nd\<lparr>m_projectNodes := filter (\<lambda>p. p \<notin> set subProjects) (m_projectNodes nd),
                                    m_folderNodes := filter (\<lambda>p. p \<notin> set subProjects) (m_folderNodes nd)\<rparr>) \<and>
            events s' = events s @ [FoldersAboutToBeRemoved this (sort subProjects), FoldersRemoved this] \<and>
            (\<forall>a \<in> set (concat (map (\<lambda>p. nodes (tr p)) subProjects)). heap s' a = None) \<and>
            (\<forall>b. b \<noteq> this \<and> b \<notin> set (concat (map (\<lambda>p. nodes (tr p)) subProjects)) \<longrightarrow>
                 heap s' b = heap s b)"
proof -
  let ?rs = "sort subProjects"
  let ?ts = "map tr ?rs"
  let ?s0 = "emit (FoldersAboutToBeRemoved this ?rs) s"
  have mr: "map root ?ts = ?rs"
  proof -
    have "map (\<lambda>p. root (tr p)) ?rs = ?rs" by (rule map_idI) (use trees in simp)
    then show ?thesis by (simp add: comp_def)
  qed
  have eP: "eraseEach (m_projectNodes nd) (map root ?ts) 0 =
              Some (filter (\<lambda>p. p \<notin> set subProjects) (m_projectNodes nd))"
    unfolding mr by (rule eraseEach_sorted0[OF soP di inP])
  have eF: "eraseEach (m_folderNodes nd) (map root ?ts) 0 =
              Some (filter (\<lambda>p. p \<notin> set subProjects) (m_folderNodes nd))"
    unfolding mr by (rule eraseEach_sorted0[OF soF di inF])
  have h0: "heap ?s0 this = Some nd" using nd by simp
  have t0: "\<forall>t \<in> set ?ts. repr (heap ?s0) t \<and> fileLeaves (heap ?s0) t \<and> height t < fuel"
    using trees by simp
  have mc: "mset (concat (map nodes ?ts)) = mset (concat (map (\<lambda>p. nodes (tr p)) subProjects))"
    using mset_concat_map_cong[of ?rs subProjects "\<lambda>p. nodes (tr p)"] by (simp add: comp_def)
  have d0: "distinct (concat (map nodes ?ts))" using mset_eq_imp_distinct_iff[OF mc] disj by simp
  have sc: "set (concat (map nodes ?ts)) = set (concat (map (\<lambda>p. nodes (tr p)) subProjects))"
    by (rule mset_eq_setD[OF mc])
  have o0: "this \<notin> set (concat (map nodes ?ts))" using out unfolding sc .
  from ProjectNode_loop_total[OF h0 eP eF t0 d0 o0] obtain s1 where
    s1: "ProjectNode_removeProjectNodes_loop fuel this ?rs 0 0 ?s0 = Inr s1"
    "heap s1 this = Some (nd\<lparr>m_projectNodes := filter (\<lambda>p. p \<notin> set subProjects) (m_projectNodes nd),
                              m_folderNodes := filter (\<lambda>p. p \<notin> set subProjects) (m_folderNodes nd)\<rparr>)"
    "events s1 = events ?s0"
    "\<forall>a \<in> set (concat (map nodes ?ts)). heap s1 a = None"
    "\<forall>b. b \<noteq> this \<and> b \<notin> set (concat (map nodes ?ts)) \<longrightarrow> heap s1 b = heap ?s0 b"
    unfolding mr by blast
  have "ProjectNode_removeProjectNodes fuel this subProjects s = Inr (emit (FoldersRemoved this) s1)"
    using ne s1(1) by (simp add: ProjectNode_removeProjectNodes_def Let_def)
  then show ?thesis using s1(2,3,4,5) unfolding sc
    by (intro exI[of _ "emit (FoldersRemoved this) s1"]) simp
qed

text \<open>
  C8. Let the listed sub-projects be distinct children of \<open>this\<close>, found in both
  \<open>m_projectNodes\<close> and \<open>m_folderNodes\<close>, which are in ascending order of the addresses;
  let each of them be the root of a tree of live objects (\<open>tr p\<close>), the trees apart from
  each other and from \<open>this\<close>, and let the fuel exceed their heights.
  Then \<open>ProjectNode::removeProjectNodes\<close> comes to its end; it leaves both lists without
  the listed projects, every object of their trees is deleted, and every other object but
  \<open>this\<close> is as it was. \<open>SessionNode::removeProjectNodes\<close> comes to its end too; it
  leaves both lists without the listed projects, and every object but \<open>this\<close>, the
  listed projects among them, is as it was.
\<close>

theorem removeProjectNodes_delete_or_keep:
  assumes nd: "heap s this = Some nd"
    and ne: "subProjects \<noteq> []"
    and di: "distinct subProjects"
    and nt: "this \<notin> set subProjects"
    and inP: "set subProjects \<subseteq> set (m_projectNodes nd)"
    and inF: "set subProjects \<subseteq> set (m_folderNodes nd)"
    and soP: "sorted_wrt (<) (m_projectNodes nd)"
    and soF: "sorted_wrt (<) (m_folderNodes nd)"
    and trees: "\<forall>p \<in> set subProjects. root (tr p) = p \<and> repr (heap s) (tr p) \<and>
                  fileLeaves (heap s) (tr p) \<and> height (tr p) < fuel"
    and disj: "distinct (concat (map (\<lambda>p. nodes (tr p)) subProjects))"
    and out: "this \<notin> set (concat (map (\<lambda>p. nodes (tr p)) subProjects))"
  shows "(\<exists>s'. ProjectNode_removeProjectNodes fuel this subProjects s = Inr s' \<and>
            projectNodes s' this = filter (\<lambda>p. p \<notin> set subProjects) (m_projectNodes nd) \<and>
            folderNodes s' this = filter (\<lambda>p. p \<notin> set subProjects) (m_folderNodes nd) \<and>
            (\<forall>p \<in> set subProjects. \<forall>a \<in> set (nodes (tr p)). heap s' a = None) \<and>
            (\<forall>b. b \<noteq> this \<and> b \<notin> set (concat (map (\<lambda>p. nodes (tr p)) subProjects)) \<longrightarrow>
                 heap s' b = heap s b)) \<and>
         (\<exists>s''. SessionNode_removeProjectNodes this subProjects s = Inr s'' \<and>
            projectNodes s'' this = filter (\<lambda>p. p \<notin> set subProjects) (m_projectNodes nd) \<and>
            folderNodes s'' this = filter (\<lambda>p. p \<notin> set subProjects) (m_folderNodes nd) \<and>
            (\<forall>p \<in> set subProjects. heap s'' p = heap s p) \<and>
            (\<forall>b. b \<noteq> this \<longrightarrow> heap s'' b = heap s b))"
proof
  from ProjectNode_removeProjectNodes_total[OF nd ne di inP inF soP soF trees disj out]
  obtain s' where
    s': "ProjectNode_removeProjectNodes fuel this subProjects s = Inr s'"
    "heap s' this = Some (nd\<lparr>m_projectNodes := filter (\<lambda>p. p \<notin> set subProjects) (m_projectNodes nd),
                              m_folderNodes := filter (\<lambda>p. p \<notin> set subProjects) (m_folderNodes nd)\<rparr>)"
    "\<forall>a \<in> set (concat (map (\<lambda>p. nodes (tr p)) subProjects)). heap s' a = None"
    "\<forall>b. b \<noteq> this \<and> b \<notin> set (concat (map (\<lambda>p. nodes (tr p)) subProjects)) \<longrightarrow>
         heap s' b = heap s b" by blast
  have "\<forall>p \<in> set subProjects. \<forall>a \<in> set (nodes (tr p)). heap s' a = None"
    using s'(3) by auto
  with s'(1,2,4)
  show "\<exists>s'. ProjectNode_removeProjectNodes fuel this subProjects s = Inr s' \<and>
            projectNodes s' this = filter (\<lambda>p. p \<notin> set subProjects) (m_projectNodes nd) \<and>
            folderNodes s' this = filter (\<lambda>p. p \<notin> set subProjects) (m_folderNodes nd) \<and>
            (\<forall>p \<in> set subProjects. \<forall>a \<in> set (nodes (tr p)). heap s' a = None) \<and>
            (\<forall>b. b \<noteq> this \<and> b \<notin> set (concat (map (\<lambda>p. nodes (tr p)) subProjects)) \<longrightarrow>
                 heap s' b = heap s b)"
    by (intro exI[of _ s']) (simp add: projectNodes_def folderNodes_def)
  have eP: "eraseEach (m_projectNodes nd) (sort subProjects) 0 =
              Some (filter (\<lambda>p. p \<notin> set subProjects) (m_projectNodes nd))"
    by (rule eraseEach_sorted0[OF soP di inP])
  have eF: "eraseEach (m_folderNodes nd) (sort subProjects) 0 =
              Some (filter (\<lambda>p. p \<notin> set subProjects) (m_folderNodes nd))"
    by (rule eraseEach_sorted0[OF soF di inF])
  let ?s0 = "emit (FoldersAboutToBeRemoved this (sort subProjects)) s"
  have h0: "heap ?s0 this = Some nd" using nd by simp
  from SessionNode_loop_eraseEach[OF h0 eP eF]
  have "SessionNode_removeProjectNodes this subProjects s =
     Inr (emit (FoldersRemoved this) (?s0\<lparr>heap := (heap ?s0)(this \<mapsto>
        nd\<lparr>m_projectNodes := filter (\<lambda>p. p \<notin> set subProjects) (m_projectNodes nd),
            m_folderNodes := filter (\<lambda>p. p \<notin> set subProjects) (m_folderNodes nd)\<rparr>)\<rparr>))"
    using ne by (simp add: SessionNode_removeProjectNodes_def Let_def)
  then show "\<exists>s''. SessionNode_removeProjectNodes this subProjects s = Inr s'' \<and>
            projectNodes s'' this = filter (\<lambda>p. p \<notin> set subProjects) (m_projectNodes nd) \<and>
            folderNodes s'' this = filter (\<lambda>p. p \<notin> set subProjects) (m_folderNodes nd) \<and>
            (\<forall>p \<in> set subProjects. heap s'' p = heap s p) \<and>
            (\<forall>b. b \<noteq> this \<longrightarrow> heap s'' b = heap s b)"
    using nt by (auto simp: projectNodes_def folderNodes_def)
qed

theorem removeProjectNodes_delete_or_keep_witness:
  "repr (heap ex_projects) (FTree 20 [40] []) \<and> fileLeaves (heap ex_projects) (FTree 20 [40] []) \<and>
   \<not> isl (ProjectNode_removeProjectNodes 2 10 [20] ex_projects) \<and>
   projectNodes (projr (ProjectNode_removeProjectNodes 2 10 [20] ex_projects)) 10 = [30] \<and>
   folderNodes (projr (ProjectNode_removeProjectNodes 2 10 [20] ex_projects)) 10 = [30] \<and>
   heap ex_projects 20 \<noteq> None \<and> heap ex_projects 40 \<noteq> None \<and>
   heap (projr (ProjectNode_removeProjectNodes 2 10 [20] ex_projects)) 20 = None \<and>
   heap (projr (ProjectNode_removeProjectNodes 2 10 [20] ex_projects)) 40 = None \<and>
   heap (projr (ProjectNode_removeProjectNodes 2 10 [20] ex_projects)) 30 = heap ex_projects 30 \<and>
   \<not> isl (SessionNode_removeProjectNodes 10 [20] ex_projects) \<and>
   projectNodes (projr (SessionNode_removeProjectNodes 10 [20] ex_projects)) 10 = [30] \<and>
   folderNodes (projr (SessionNode_removeProjectNodes 10 [20] ex_projects)) 10 = [30] \<and>
   heap (projr (SessionNode_removeProjectNodes 10 [20] ex_projects)) 20 = heap ex_projects 20"
proof -
  let ?P = "ProjectNode_removeProjectNodes 2 10 [20] ex_projects"
  let ?S = "SessionNode_removeProjectNodes 10 [20] ex_projects"
  let ?t = "FTree 20 [40] []"
  have h10: "heap ex_projects 10 = Some (mkNode Project ''/p'' True (Some 5) [] [20, 30] [20, 30])"
    by (simp add: ex_projects_def)
  have r: "repr (heap ex_projects) ?t" by (simp add: ex_projects_def hasParent_def mkNode_def)
  have fl: "fileLeaves (heap ex_projects) ?t" by (simp add: fileLeaves_def ex_projects_def mkNode_def)
  have live: "heap ex_projects 20 \<noteq> None" "heap ex_projects 40 \<noteq> None"
    by (simp_all add: ex_projects_def)
  have trees: "\<forall>p \<in> set [20]. root ((\<lambda>p. ?t) p) = p \<and> repr (heap ex_projects) ((\<lambda>p. ?t) p) \<and>
                  fileLeaves (heap ex_projects) ((\<lambda>p. ?t) p) \<and> height ((\<lambda>p. ?t) p) < 2"
    using r fl by simp
  let ?nd = "mkNode Project ''/p'' True (Some 5) [] [20, 30] [20, 30]"
  have ne: "[20::nat] \<noteq> []" and di: "distinct [20::nat]" and nt: "(10::nat) \<notin> set [20]" by simp_all
  have inP: "set [20] \<subseteq> set (m_projectNodes ?nd)" and inF: "set [20] \<subseteq> set (m_folderNodes ?nd)"
    and soP: "sorted_wrt (<) (m_projectNodes ?nd)" and soF: "sorted_wrt (<) (m_folderNodes ?nd)"
    by (simp_all add: mkNode_def)
  have disj: "distinct (concat (map (\<lambda>p. nodes ((\<lambda>p. ?t) p)) [20::nat]))"
    and out: "(10::nat) \<notin> set (concat (map (\<lambda>p. nodes ((\<lambda>p. ?t) p)) [20::nat]))" by simp_all
  from removeProjectNodes_delete_or_keep[OF h10 ne di nt inP inF soP soF trees disj out]
  obtain s' s'' where
    P: "?P = Inr s'" "projectNodes s' 10 = [30]" "folderNodes s' 10 = [30]"
       "heap s' 20 = None" "heap s' 40 = None" "heap s' 30 = heap ex_projects 30" and
    S: "?S = Inr s''" "projectNodes s'' 10 = [30]" "folderNodes s'' 10 = [30]"
       "heap s'' 20 = heap ex_projects 20"
    by (auto simp: mkNode_def)
  from r fl live P S show ?thesis by simp
qed


subsection \<open>The directory scan: cancellation\<close>

lemma createdFiles_append [simp]: "createdFiles (xs @ ys) = createdFiles xs @ createdFiles ys"
  by (induction xs rule: createdFiles.induct) simp_all



lemma createdBefore_0 [simp]: "createdBefore 0 xs = []"
  by (simp add: createdBefore_def)

lemma createdBefore_Nil [simp]: "createdBefore m [] = []"
  by (simp add: createdBefore_def)
















subsection \<open>buildTree: the run for a file that is no longer listed ends\<close>

text \<open>
  \<open>managingProject()\<close> of a node depends only on the types and the parent pointers of
  the node and the nodes above it.
\<close>

lemma spine_Some:
  "map_option spine v' = map_option spine v \<Longrightarrow> v = Some n \<Longrightarrow>
     \<exists>n'. v' = Some n' \<and> m_nodeType n' = m_nodeType n \<and>
          m_parentFolderNode n' = m_parentFolderNode n"
  by (cases v') (auto simp: spine_def)

lemma parentChain_cong:
  "(\<forall>x \<in> set (a # as). map_option spine (h' x) = map_option spine (h x)) \<Longrightarrow>
     parentChain h a as \<Longrightarrow> parentChain h' a as"
proof (induction as arbitrary: a)
  case Nil
  from Nil(2) obtain n where n: "h a = Some n" "m_parentFolderNode n = None"
    by (auto split: option.splits)
  have "map_option spine (h' a) = map_option spine (h a)" using Nil(1) by simp
  from spine_Some[OF this n(1)] n(2) show ?case by auto
next
  case (Cons p ps)
  from Cons.prems(2) obtain n where n: "h a = Some n" "m_parentFolderNode n = Some p"
    and ch: "parentChain h p ps" by (auto split: option.splits)
  have "map_option spine (h' a) = map_option spine (h a)" using Cons.prems(1) by simp
  from spine_Some[OF this n(1)] n(2) obtain n' where
    n': "h' a = Some n'" "m_parentFolderNode n' = Some p" by auto
  have "parentChain h' p ps" by (rule Cons.IH[OF _ ch]) (use Cons.prems(1) in simp)
  with n' show ?case by simp
qed

lemma parentProjectNode_spine:
  "parentChain h a as \<Longrightarrow>
   (\<forall>x \<in> set (a # as). map_option spine (h' x) = map_option spine (h x)) \<Longrightarrow>
     parentProjectNode h' a = parentProjectNode h a"
proof (induction as arbitrary: a)
  case Nil
  from Nil(1) obtain n where n: "h a = Some n" "m_parentFolderNode n = None"
    by (auto split: option.splits)
  have "map_option spine (h' a) = map_option spine (h a)" using Nil(2) by simp
  from spine_Some[OF this n(1)] n(2) obtain n' where
    n': "h' a = Some n'" "m_parentFolderNode n' = None" by auto
  have l: "parentProjectNode h' a = Some None"
    by (subst parentProjectNode.simps) (simp add: n')
  have r: "parentProjectNode h a = Some None"
    by (subst parentProjectNode.simps) (simp add: n)
  show ?case by (simp only: l r)
next
  case (Cons p ps)
  from Cons.prems(1) obtain n where n: "h a = Some n" "m_parentFolderNode n = Some p"
    and ch: "parentChain h p ps" by (auto split: option.splits)
  have "map_option spine (h' a) = map_option spine (h a)" using Cons.prems(2) by simp
  from spine_Some[OF this n(1)] n(2) obtain n' where
    n': "h' a = Some n'" "m_parentFolderNode n' = Some p" by auto
  from ch obtain pn where pn: "h p = Some pn" by (cases ps) (auto split: option.splits)
  have "map_option spine (h' p) = map_option spine (h p)" using Cons.prems(2) by simp
  from spine_Some[OF this pn] obtain pn' where
    pn': "h' p = Some pn'" "m_nodeType pn' = m_nodeType pn" by auto
  have ih: "parentProjectNode h' p = parentProjectNode h p"
    by (rule Cons.IH[OF ch]) (use Cons.prems(2) in auto)
  have l: "parentProjectNode h' a =
             (if asProjectNode pn' then Some (Some p) else parentProjectNode h' p)"
    by (subst parentProjectNode.simps) (simp add: n' pn')
  have r: "parentProjectNode h a =
             (if asProjectNode pn then Some (Some p) else parentProjectNode h p)"
    by (subst parentProjectNode.simps) (simp add: n pn)
  have "asProjectNode pn' = asProjectNode pn" using pn'(2) by (simp add: asProjectNode_def)
  then show ?case by (simp only: l r ih)
qed

lemma isManaged_spine:
  assumes "parentChain h a as"
    and "\<forall>x \<in> set (a # as). map_option spine (h' x) = map_option spine (h x)"
  shows "isManaged h' a = isManaged h a"
proof -
  from assms(1) obtain n where n: "h a = Some n" by (cases as) (auto split: option.splits)
  have "map_option spine (h' a) = map_option spine (h a)" using assms(2) by simp
  from spine_Some[OF this n] obtain n' where
    n': "h' a = Some n'" "m_nodeType n' = m_nodeType n" by auto
  have "managingProject h' a = managingProject h a"
    using parentProjectNode_spine[OF assms] n n'
    by (simp add: managingProject_def asSessionNode_def asProjectNode_def)
  then show ?thesis by (simp add: isManaged_def)
qed

lemma soleFolderChild_cong:
  "(\<forall>x \<in> set qs. h' x = h x) \<Longrightarrow> soleFolderChild h' c qs = soleFolderChild h c qs"
  by (induction qs arbitrary: c) auto

text \<open>Taking one file, or one childless folder, out of its folder.\<close>

lemma removeFileNodes_single_total:
  assumes mg: "isManaged (heap s) p" and pd: "heap s p = Some pd"
    and f: "f \<in> set (m_fileNodes pd)" and lf: "heap s f \<noteq> None" and fp: "f \<noteq> p"
  shows "\<exists>s'. removeFileNodes p [f] s = Inr s'"
proof -
  let ?s0 = "emit (FilesAboutToBeRemoved p [f]) s"
  from advance_mem[of f 0 "m_fileNodes pd"] f obtain it where
    it: "advance (m_fileNodes pd) 0 f = Some it" by auto
  from lf obtain fd where fd: "heap s f = Some fd" by auto
  let ?s1 = "?s0\<lparr>heap := (heap ?s0)(f := None)\<rparr>"
  have d: "deleteFileNode f ?s0 = Inr ?s1" using fd by (simp add: deleteFileNode_def)
  have p1: "heap ?s1 p = Some pd" using pd fp by simp
  let ?s2 = "?s1\<lparr>heap := (heap ?s1)(p \<mapsto> pd\<lparr>m_fileNodes := erase (m_fileNodes pd) it\<rparr>)\<rparr>"
  have u: "setFields p (\<lambda>n. n\<lparr>m_fileNodes := erase (m_fileNodes n) it\<rparr>) ?s1 = Inr ?s2"
    unfolding setFields_eq_Inr using p1 by blast
  have p0: "heap ?s0 p = Some pd" using pd by simp
  have l: "removeFileNodes_loop p [f] 0 ?s0 = Inr ?s2"
    unfolding removeFileNodes_loop.simps p0 option.case it d and_then_Inr u ..
  show ?thesis
    using l by (simp add: removeFileNodes_def isManaged_assert[OF mg] Let_def)
qed

lemma removeFolderNodes_single_total:
  assumes mg: "isManaged (heap s) g" and gd: "heap s g = Some gd"
    and c: "c \<in> set (m_folderNodes gd)" and cd: "heap s c = Some cd"
    and e: "m_fileNodes cd = []" "m_folderNodes cd = []" and cg: "c \<noteq> g"
  shows "\<exists>s'. removeFolderNodes (Suc n) g [c] s = Inr s'"
proof -
  let ?s0 = "emit (FoldersAboutToBeRemoved g [c]) s"
  from advance_mem[of c 0 "m_folderNodes gd"] c obtain it where
    it: "advance (m_folderNodes gd) 0 c = Some it" by auto
  let ?s1 = "?s0\<lparr>heap := (heap ?s0)(c := None)\<rparr>"
  have c0: "heap ?s0 c = Some cd" using cd by simp
  have d: "deleteNode (Suc n) c ?s0 = Inr ?s1" by (rule deleteNode_leaf[OF c0 e])
  have p1: "heap ?s1 g = Some gd" using gd cg by simp
  let ?s2 = "?s1\<lparr>heap := (heap ?s1)(g \<mapsto> gd\<lparr>m_folderNodes := erase (m_folderNodes gd) it\<rparr>)\<rparr>"
  have u: "setFields g (\<lambda>n. n\<lparr>m_folderNodes := erase (m_folderNodes n) it\<rparr>) ?s1 = Inr ?s2"
    unfolding setFields_eq_Inr using p1 by blast
  have p0: "heap ?s0 g = Some gd" using gd by simp
  have l: "removeFolderNodes_loop (Suc n) g [c] 0 ?s0 = Inr ?s2"
    unfolding removeFolderNodes_loop.simps p0 option.case it d and_then_Inr u ..
  show ?thesis
    using l by (simp add: removeFolderNodes_def isManaged_assert[OF mg] Let_def del: deleteNode.simps)
qed

lemma spine_update [simp]:
  "spine (n\<lparr>m_folderNodes := xs\<rparr>) = spine n" "spine (n\<lparr>m_fileNodes := ys\<rparr>) = spine n"
  by (simp_all add: spine_def)

lemma isManaged_frame:
  assumes ch: "parentChain h q as" and x: "x \<in> set as"
    and sp: "\<forall>y \<in> set as. map_option spine (h' y) = map_option spine (h y)"
  shows "isManaged h' x = isManaged h x"
proof -
  from parentChain_suffix[OF ch x] obtain bs where
    bs: "parentChain h x bs" "set (x # bs) \<subseteq> set as" by blast
  have "\<forall>y \<in> set (x # bs). map_option spine (h' y) = map_option spine (h y)"
    using sp bs(2) by blast
  from isManaged_spine[OF bs(1) this] show ?thesis .
qed

lemma parentChain_tail: "parentChain h q (q2 # as) \<Longrightarrow> parentChain h q2 as"
  by simp

lemma parentChain_parent:
  "parentChain h q (q2 # as) \<Longrightarrow> h q = Some qd \<Longrightarrow> m_parentFolderNode qd = Some q2"
  by simp

lemma onlyChildChain_sole:
  "parentChain h c (qs @ g # as) \<Longrightarrow> soleFolderChild h c qs \<Longrightarrow> onlyChildChain h c qs g"
proof (induction qs arbitrary: c)
  case Nil
  then show ?case by (auto simp: hasParent_def split: option.splits)
next
  case (Cons q qs)
  from Cons.prems(1) have hp: "hasParent h c q" and ch: "parentChain h q (qs @ g # as)"
    by (auto simp: hasParent_def split: option.splits)
  from Cons.prems(2) have so: "soleFolderChild h q qs" and
    k: "case h q of None \<Rightarrow> False | Some qd \<Rightarrow> m_fileNodes qd @ m_folderNodes qd = [c]"
    by (auto split: option.splits)
  from Cons.IH[OF ch so] hp k show ?case by simp
qed

text \<open>The loop that removes the folders that have become empty comes to its end.\<close>

lemma removeEmpty_chain_total:
  "heap s q = Some qd \<Longrightarrow> m_fileNodes qd = [] \<Longrightarrow> m_folderNodes qd = [] \<Longrightarrow>
   parentChain (heap s) q (qs @ g # as) \<Longrightarrow> soleFolderChild (heap s) q qs \<Longrightarrow>
   heap s g = Some gd \<Longrightarrow> last (q # qs) \<in> set (m_folderNodes gd) \<Longrightarrow>
   distinct (q # qs @ g # as) \<Longrightarrow> this \<notin> set qs \<Longrightarrow>
   (\<forall>x \<in> set (qs @ [g]). isManaged (heap s) x) \<Longrightarrow>
   (g = this \<or> m_fileNodes gd \<noteq> [] \<or> remove1 (last (q # qs)) (m_folderNodes gd) \<noteq> []) \<Longrightarrow>
   length (q # qs) < n \<Longrightarrow>
     \<exists>s'. buildTree_removeEmpty n this q s = Inr s'"
proof (induction qs arbitrary: n q qd s)
  case Nil
  from Nil.prems(12) obtain m where n: "n = Suc (Suc m)"
    by (cases n; cases "n - 1") auto
  from Nil.prems(4) Nil.prems(1) have par: "m_parentFolderNode qd = Some g" by simp
  have mg: "isManaged (heap s) g" using Nil.prems(10) by simp
  have qg: "q \<noteq> g" using Nil.prems(8) by simp
  have qin: "q \<in> set (m_folderNodes gd)" using Nil.prems(7) by simp
  from removeFolderNodes_single_total[OF mg Nil.prems(6) qin Nil.prems(1,2,3) qg]
  obtain s1 where 1: "removeFolderNodes (Suc (Suc m)) g [q] s = Inr s1" by blast
  from removeFolderNodes_childless_post[OF 1 Nil.prems(6) Nil.prems(1) Nil.prems(2) Nil.prems(3)]
  obtain it where it: "it < length (m_folderNodes gd)" "m_folderNodes gd ! it = q"
    "q \<notin> set (take it (m_folderNodes gd))"
    "heap s1 g = Some (gd\<lparr>m_folderNodes := erase (m_folderNodes gd) it\<rparr>)" by blast
  have er: "erase (m_folderNodes gd) it = remove1 q (m_folderNodes gd)"
    by (rule erase_first_nth[OF it(1,2,3)])
  have "\<exists>s'. (if g = this then Inr s1 else buildTree_removeEmpty (Suc m) this g s1) = Inr s'"
  proof (cases "g = this")
    case True
    then show ?thesis by simp
  next
    case False
    with Nil.prems(11) have ne: "m_fileNodes gd \<noteq> [] \<or> remove1 q (m_folderNodes gd) \<noteq> []"
      by simp
    have "buildTree_removeEmpty (Suc m) this g s1 = Inr s1"
      using ne by (auto simp: it(4) er)
    with False show ?thesis by simp
  qed
  then obtain s' where
    2: "(if g = this then Inr s1 else buildTree_removeEmpty (Suc m) this g s1) = Inr s'" by blast
  have "buildTree_removeEmpty (Suc (Suc m)) this q s = Inr s'"
    unfolding buildTree_removeEmpty.simps(2)[of "Suc m" this q s] Nil.prems(1) option.case
    using Nil.prems(2,3) par 1 2 by (simp del: buildTree_removeEmpty.simps)
  then show ?case by (auto simp: n)
next
  case (Cons q2 qs)
  from Cons.prems(12) obtain m where n: "n = Suc m" and m: "length (q2 # qs) < m"
    by (cases n) auto
  from Cons.prems(4) Cons.prems(1) have par: "m_parentFolderNode qd = Some q2" by simp
  from Cons.prems(4) have ch2: "parentChain (heap s) q2 (qs @ g # as)" by simp
  from Cons.prems(5) obtain q2d where q2d: "heap s q2 = Some q2d"
    "m_fileNodes q2d = []" "m_folderNodes q2d = [q]" and so2: "soleFolderChild (heap s) q2 qs"
    by (auto split: option.splits)
  have q2this: "q2 \<noteq> this" using Cons.prems(9) by simp
  have mg: "isManaged (heap s) q2" using Cons.prems(10) by simp
  have qq2: "q \<noteq> q2" using Cons.prems(8) by simp
  have qin: "q \<in> set (m_folderNodes q2d)" by (simp add: q2d(3))
  from removeFolderNodes_single_total[OF mg q2d(1) qin Cons.prems(1,2,3) qq2]
  obtain s1 where 1: "removeFolderNodes (Suc m) q2 [q] s = Inr s1" by blast
  from removeFolderNodes_childless_post[OF 1 q2d(1) Cons.prems(1) Cons.prems(2) Cons.prems(3)]
  obtain it where it: "it < length (m_folderNodes q2d)"
    "heap s1 q2 = Some (q2d\<lparr>m_folderNodes := erase (m_folderNodes q2d) it\<rparr>)"
    "heap s1 q = None" "\<forall>a. a \<noteq> q2 \<and> a \<noteq> q \<longrightarrow> heap s1 a = heap s a" by blast
  have it0: "it = 0" using it(1) by (simp add: q2d(3))
  define q2d' where "q2d' = q2d\<lparr>m_folderNodes := erase (m_folderNodes q2d) it\<rparr>"
  have e1: "m_fileNodes q2d' = []" "m_folderNodes q2d' = []"
    by (simp_all add: q2d'_def q2d(2,3) it0 erase_def)
  have h1: "heap s1 q2 = Some q2d'" using it(2) by (simp add: q2d'_def)
  have dist: "distinct (q2 # qs @ g # as)" "q \<notin> set (q2 # qs @ g # as)"
    using Cons.prems(8) by auto
  have sp: "\<forall>y \<in> set (q2 # qs @ g # as). map_option spine (heap s1 y) = map_option spine (heap s y)"
  proof
    fix y assume y: "y \<in> set (q2 # qs @ g # as)"
    show "map_option spine (heap s1 y) = map_option spine (heap s y)"
    proof (cases "y = q2")
      case True
      then show ?thesis by (simp add: it(2) q2d(1))
    next
      case False
      moreover have "y \<noteq> q" using y dist(2) by auto
      ultimately show ?thesis using it(4) by simp
    qed
  qed
  have ch1: "parentChain (heap s1) q2 (qs @ g # as)"
    by (rule parentChain_cong[OF sp ch2])
  have same: "\<forall>a \<in> set qs. heap s1 a = heap s a" using it(4) dist by auto
  have so1: "soleFolderChild (heap s1) q2 qs"
    using soleFolderChild_cong[OF same, of q2] so2 by simp
  have g1: "heap s1 g = Some gd" using it(4) dist Cons.prems(6) by auto
  have lastin: "last (q2 # qs) \<in> set (m_folderNodes gd)" using Cons.prems(7) by simp
  have t: "this \<notin> set qs" using Cons.prems(9) by simp
  have mg1: "\<forall>x \<in> set (qs @ [g]). isManaged (heap s1) x"
  proof
    fix x assume x: "x \<in> set (qs @ [g])"
    then have xin: "x \<in> set (qs @ g # as)" by auto
    have sp': "\<forall>y \<in> set (qs @ g # as). map_option spine (heap s1 y) = map_option spine (heap s y)"
      using sp by simp
    have "isManaged (heap s1) x = isManaged (heap s) x"
      by (rule isManaged_frame[OF ch2 xin sp'])
    moreover have "isManaged (heap s) x" using Cons.prems(10) x by auto
    ultimately show "isManaged (heap s1) x" by simp
  qed
  have stop: "g = this \<or> m_fileNodes gd \<noteq> [] \<or> remove1 (last (q2 # qs)) (m_folderNodes gd) \<noteq> []"
    using Cons.prems(11) by simp
  from Cons.IH[OF h1 e1 ch1 so1 g1 lastin dist(1) t mg1 stop m]
  obtain s' where 2: "buildTree_removeEmpty m this q2 s1 = Inr s'" by blast
  have "buildTree_removeEmpty (Suc m) this q s = Inr s'"
    unfolding buildTree_removeEmpty.simps(2)[of m this q s] Cons.prems(1) option.case
    using Cons.prems(2,3) par 1 2 q2this by (simp del: buildTree_removeEmpty.simps)
  then show ?case by (auto simp: n)
qed

lemma buildTree_one_missing_total:
  assumes env: "envOk env"
    and tr: "treeAt (heap s) this t"
    and ht: "height t \<le> fuel"
    and len: "length (p # ps) < fuel"
    and dp: "distinct (map (pathOf (heap s)) (allFiles t))"
    and f: "f \<in> set (allFiles t)"
    and same: "mset (map (pathOf (heap s)) newFiles) + {#pathOf (heap s) f#} =
               mset (map (pathOf (heap s)) (allFiles t))"
    and up: "parentChain (heap s) f (p # ps @ g # as)"
    and pd: "heap s p = Some pd" "m_fileNodes pd = [f]" "m_folderNodes pd = []"
    and sole: "soleFolderChild (heap s) p ps"
    and gd: "heap s g = Some gd"
    and lastin: "last (p # ps) \<in> set (m_folderNodes gd)"
    and dist: "distinct (f # p # ps @ g # as)"
    and nthis: "this \<notin> set (f # p # ps)"
    and mg: "\<forall>x \<in> set (p # ps @ [g]). isManaged (heap s) x"
    and newd: "distinct newFiles"
    and newl: "\<forall>x \<in> set newFiles. heap s x \<noteq> None"
    and new: "set newFiles \<inter> set (this # f # p # ps @ g # as) = {}"
    and stop: "g = this \<or> m_fileNodes gd \<noteq> [] \<or>
               remove1 (last (p # ps)) (m_folderNodes gd) \<noteq> []"
  shows "\<exists>s'. buildTree fuel env this newFiles overrideBaseDir fresh s = Inr s'"
proof -
  from tr have r: "repr (heap s) t" and ro: "root t = this" by (simp_all add: treeAt_def)
  have rfn: "recursiveFileNodes fuel (heap s) this = Inr (allFiles t)"
    using recursiveFileNodes_repr[OF r ht] ro by simp
  from partition_total[OF tr newl ht, of env] obtain fs' del add where
    part: "buildTree_partition fuel env this newFiles s = Inr (fs', del, add)"
    by (metis prod_cases3)
  from partition_one_missing[OF env rfn dp f same part] have
    del: "del = [f]" and add: "add = []" and fs': "mset fs' = mset newFiles" by simp_all
  have setfs: "set fs' = set newFiles" using fs' by (metis mset_eq_setD)
  have dfs: "distinct fs'" using fs' newd by (metis mset_eq_imp_distinct_iff)
  have lfs: "\<forall>d \<in> set fs'. heap s d \<noteq> None" using newl setfs by simp
  from foldM_deleteFileNode_total[OF dfs lfs] obtain s1 where
    dl': "foldM deleteFileNode fs' s = Inr s1" by blast
  then have dl: "foldM deleteFileNode (subtractSortedList fs' add) s = Inr s1"
    by (simp add: add subtractSortedList_def)
  from foldM_deleteFileNode_post[OF dl'] have
    s1: "\<forall>a. a \<notin> set newFiles \<longrightarrow> heap s1 a = heap s a" by (simp add: setfs)
  have ad: "buildTree_addedMapping env this overrideBaseDir add [] fresh s1 = Inr ([], s1)"
    by (simp add: add)
  have af: "foldM (\<lambda>(folder, fns). addFileNodes folder fns) (hashEntries env []) s1 = Inr s1"
    by (simp add: hashEntries_def envOk_hashOrder_Nil[OF env])
  have chainfr: "\<forall>a \<in> set (f # p # ps @ g # as). heap s1 a = heap s a"
    using s1 new by auto
  from up obtain fd where fd: "heap s f = Some fd" "m_parentFolderNode fd = Some p"
    by (auto split: option.splits)
  have f1: "heap s1 f = Some fd" using chainfr fd(1) by simp
  have dmap: "buildTree_deletedMapping (heap s1) del [] = Inr [(p, [f])]"
    by (simp add: del f1 fd(2))
  have he: "hashEntries env [(p, [f])] = [(p, [f])]"
    by (simp add: hashEntries_def envOk_hashOrder_single[OF env])
  have pthis: "p \<noteq> this" using nthis by auto
  have chp: "parentChain (heap s) p (ps @ g # as)" using up by simp
  have sp1: "\<forall>y \<in> set (p # ps @ g # as). map_option spine (heap s1 y) = map_option spine (heap s y)"
    using chainfr by simp
  have mg1p: "isManaged (heap s1) p"
    using isManaged_spine[OF chp sp1] mg by simp
  have p1: "heap s1 p = Some pd" using chainfr pd(1) by simp
  have fin: "f \<in> set (m_fileNodes pd)" by (simp add: pd(2))
  have lf1: "heap s1 f \<noteq> None" using f1 by simp
  have fp: "f \<noteq> p" using dist by simp
  from removeFileNodes_single_total[OF mg1p p1 fin lf1 fp] obtain s4 where
    r1: "removeFileNodes p [f] s1 = Inr s4" by blast
  from removeFileNodes_post[OF r1 p1] obtain ys where
    ys: "heap s4 p = Some (pd\<lparr>m_fileNodes := ys\<rparr>)" "mset ys + mset [f] = mset (m_fileNodes pd)"
    "\<forall>a. a \<noteq> p \<and> a \<notin> set [f] \<longrightarrow> heap s4 a = heap s1 a" by auto
  from ys(2) have ysn: "ys = []" by (simp add: pd(2))
  define pd' where "pd' = pd\<lparr>m_fileNodes := ys\<rparr>"
  have p4: "heap s4 p = Some pd'" using ys(1) by (simp add: pd'_def)
  have e: "m_fileNodes pd' = []" "m_folderNodes pd' = []" by (simp_all add: pd'_def ysn pd(3))
  have fr4: "\<forall>a \<in> set (ps @ g # as). heap s4 a = heap s a"
  proof
    fix a assume a: "a \<in> set (ps @ g # as)"
    then have "a \<noteq> p" "a \<noteq> f" using dist by auto
    then have "heap s4 a = heap s1 a" using ys(3) by simp
    moreover have "heap s1 a = heap s a" using chainfr a by auto
    ultimately show "heap s4 a = heap s a" by simp
  qed
  have sp4: "\<forall>y \<in> set (p # ps @ g # as). map_option spine (heap s4 y) = map_option spine (heap s y)"
  proof
    fix y assume y: "y \<in> set (p # ps @ g # as)"
    show "map_option spine (heap s4 y) = map_option spine (heap s y)"
    proof (cases "y = p")
      case True
      then show ?thesis by (simp add: ys(1) pd(1))
    next
      case False
      with y have "y \<in> set (ps @ g # as)" by simp
      with fr4 have "heap s4 y = heap s y" by blast
      then show ?thesis by simp
    qed
  qed
  have ch4: "parentChain (heap s4) p (ps @ g # as)"
    by (rule parentChain_cong[OF sp4 chp])
  have same4: "\<forall>a \<in> set ps. heap s4 a = heap s a" using fr4 by simp
  have so4: "soleFolderChild (heap s4) p ps"
    using soleFolderChild_cong[OF same4, of p] sole by simp
  have g4: "heap s4 g = Some gd" using fr4 gd by simp
  have d4: "distinct (p # ps @ g # as)" using dist by simp
  have t4: "this \<notin> set ps" using nthis by simp
  have mg4: "\<forall>x \<in> set (ps @ [g]). isManaged (heap s4) x"
  proof
    fix x assume x: "x \<in> set (ps @ [g])"
    then have xin: "x \<in> set (ps @ g # as)" by auto
    have sp': "\<forall>y \<in> set (ps @ g # as). map_option spine (heap s4 y) = map_option spine (heap s y)"
      using sp4 by simp
    have "isManaged (heap s4) x = isManaged (heap s) x"
      by (rule isManaged_frame[OF chp xin sp'])
    moreover have "isManaged (heap s) x" using mg x by auto
    ultimately show "isManaged (heap s4) x" by simp
  qed
  from removeEmpty_chain_total[OF p4 e ch4 so4 g4 lastin d4 t4 mg4 stop len]
  obtain s' where r2: "buildTree_removeEmpty fuel this p s4 = Inr s'" by blast
  have rd: "buildTree_removeDeleted fuel this (p, [f]) s1 = Inr s'"
    using r1 r2 pthis by (simp add: buildTree_removeDeleted_def)
  have rm: "foldM (buildTree_removeDeleted fuel this) (hashEntries env [(p, [f])]) s1 = Inr s'"
    unfolding he using rd by simp
  have "buildTree fuel env this newFiles overrideBaseDir fresh s = Inr s'"
    unfolding buildTree_def part and_then_Inr prod.case dl ad af dmap rm ..
  then show ?thesis by blast
qed

text \<open>
  C2. Let \<open>t\<close> be the tree below \<open>this\<close>, at most \<open>fuel\<close> levels deep, its files with
  pairwise different paths, and let the new list hold distinct live nodes, none of them
  \<open>this\<close> or a node of the chain below, with the same paths but for the path of one
  file \<open>f\<close> of \<open>t\<close>. Let \<open>f\<close> be the only child of its folder \<open>p\<close>, let the folders
  \<open>ps\<close> above \<open>p\<close> each have the folder below as their only child, up to the folder
  \<open>g\<close>, which is \<open>this\<close> or has another child, and let \<open>as\<close> be the folders above
  \<open>g\<close>; \<open>this\<close> is none of \<open>f\<close>, \<open>p\<close>, \<open>ps\<close>, every folder of \<open>p # ps @ [g]\<close> passes
  \<open>Q_ASSERT(managingProject())\<close>, and \<open>fuel\<close> exceeds the number of folders \<open>p # ps\<close>.
  Then \<open>buildTree\<close> returns, and it has deleted \<open>f\<close> and every folder of \<open>p # ps\<close>,
  has taken the topmost of them out of the folder list of \<open>g\<close> and left \<open>g\<close> otherwise
  as it was, has kept \<open>this\<close>, has deleted the nodes of the new list (they stand for
  files that the tree already has), and has left every other object as it was.
\<close>

theorem buildTree_removes_empty_chain:
  assumes env: "envOk env"
    and tr: "treeAt (heap s) this t"
    and ht: "height t \<le> fuel"
    and len: "length (p # ps) < fuel"
    and dp: "distinct (map (pathOf (heap s)) (allFiles t))"
    and f: "f \<in> set (allFiles t)"
    and same: "mset (map (pathOf (heap s)) newFiles) + {#pathOf (heap s) f#} =
               mset (map (pathOf (heap s)) (allFiles t))"
    and up: "parentChain (heap s) f (p # ps @ g # as)"
    and pd: "heap s p = Some pd" "m_fileNodes pd = [f]" "m_folderNodes pd = []"
    and sole: "soleFolderChild (heap s) p ps"
    and gd: "heap s g = Some gd"
    and lastin: "last (p # ps) \<in> set (m_folderNodes gd)"
    and dist: "distinct (f # p # ps @ g # as)"
    and nthis: "this \<notin> set (f # p # ps)"
    and mg: "\<forall>x \<in> set (p # ps @ [g]). isManaged (heap s) x"
    and newd: "distinct newFiles"
    and newl: "\<forall>x \<in> set newFiles. heap s x \<noteq> None"
    and new: "set newFiles \<inter> set (this # f # p # ps @ g # as) = {}"
    and stop: "g = this \<or> m_fileNodes gd \<noteq> [] \<or>
               remove1 (last (p # ps)) (m_folderNodes gd) \<noteq> []"
  shows "\<exists>s'. buildTree fuel env this newFiles overrideBaseDir fresh s = Inr s' \<and>
           heap s' f = None \<and> (\<forall>q \<in> set (p # ps). heap s' q = None) \<and>
           heap s' g = Some (gd\<lparr>m_folderNodes := remove1 (last (p # ps)) (m_folderNodes gd)\<rparr>) \<and>
           heap s' this \<noteq> None \<and>
           (\<forall>x \<in> set newFiles. heap s' x = None) \<and>
           (\<forall>a. a \<notin> set (f # p # ps @ [g]) \<union> set newFiles \<longrightarrow> heap s' a = heap s a)"
proof -
  from buildTree_one_missing_total[OF env tr ht len dp f same up pd sole gd lastin dist nthis
    mg newd newl new stop]
  obtain s' where run: "buildTree fuel env this newFiles overrideBaseDir fresh s = Inr s'"
    by blast
  from tr have r: "repr (heap s) t" and ro: "root t = this" by (simp_all add: treeAt_def)
  have rfn: "recursiveFileNodes fuel (heap s) this = Inr (allFiles t)"
    using recursiveFileNodes_repr[OF r ht] ro by simp
  from up have hp: "hasParent (heap s) f p" and chp: "parentChain (heap s) p (ps @ g # as)"
    by (auto simp: hasParent_def split: option.splits)
  have chain: "onlyChildChain (heap s) f (p # ps) g"
    using hp pd onlyChildChain_sole[OF chp sole] by simp
  have dist': "distinct (f # p # ps @ [g])" using dist by simp
  have new': "set newFiles \<inter> set (this # f # p # ps @ [g]) = {}" using new by auto
  from buildTree_one_missing_post[OF env rfn dp f same chain gd dist' nthis new' stop run] run
  show ?thesis by blast
qed

theorem buildTree_removes_empty_chain_witness:
  "treeAt (heap ex_build) 10 (FTree 10 [30] [FTree 20 [40] []]) \<and>
   pathOf (heap ex_build) 50 = pathOf (heap ex_build) 30 \<and>
   heap ex_build 20 = Some (mkNode Folder ''/p/sub'' True (Some 10) [40] [] []) \<and>
   isManaged (heap ex_build) 20 \<and> isManaged (heap ex_build) 10 \<and>
   \<not> isl (buildTree 2 ex_env 10 [50] [] [100, 101, 102] ex_build) \<and>
   heap (projr (buildTree 2 ex_env 10 [50] [] [100, 101, 102] ex_build)) 40 = None \<and>
   heap (projr (buildTree 2 ex_env 10 [50] [] [100, 101, 102] ex_build)) 20 = None \<and>
   heap (projr (buildTree 2 ex_env 10 [50] [] [100, 101, 102] ex_build)) 50 = None \<and>
   heap (projr (buildTree 2 ex_env 10 [50] [] [100, 101, 102] ex_build)) 10 =
     Some (mkNode Project ''/p'' True None [30] [] []) \<and>
   heap (projr (buildTree 2 ex_env 10 [50] [] [100, 101, 102] ex_build)) 30 = heap ex_build 30"
proof -
  let ?B = "buildTree 2 ex_env 10 [50] [] [100, 101, 102] ex_build"
  let ?t = "FTree 10 [30] [FTree 20 [40] []]"
  let ?pd = "mkNode Folder ''/p/sub'' True (Some 10) [40] [] []"
  let ?gd = "mkNode Project ''/p'' True None [30] [20] []"
  have h10: "heap ex_build 10 = Some ?gd" by (simp add: ex_build_def)
  have h20: "heap ex_build 20 = Some ?pd" by (simp add: ex_build_def)
  have h30: "heap ex_build 30 = Some (mkNode File ''/p/a.cpp'' True (Some 10) [] [] [])"
    by (simp add: ex_build_def)
  have h40: "heap ex_build 40 = Some (mkNode File ''/p/sub/b.cpp'' True (Some 20) [] [] [])"
    by (simp add: ex_build_def)
  have h50: "heap ex_build 50 = Some (mkNode File ''/p/a.cpp'' True None [] [] [])"
    by (simp add: ex_build_def)
  have tr: "treeAt (heap ex_build) 10 ?t"
    by (simp add: treeAt_def hasParent_def h10 h20 h30 h40 mkNode_def)
  have ht: "height ?t \<le> 2" by simp
  have len: "length (20 # ([]::nat list)) < 2" by simp
  have k30: "pathOf (heap ex_build) 30 = ''/p/a.cpp''" by (simp add: pathOf_def h30 mkNode_def)
  have k40: "pathOf (heap ex_build) 40 = ''/p/sub/b.cpp''" by (simp add: pathOf_def h40 mkNode_def)
  have k50: "pathOf (heap ex_build) 50 = ''/p/a.cpp''" by (simp add: pathOf_def h50 mkNode_def)
  have dp: "distinct (map (pathOf (heap ex_build)) (allFiles ?t))" by (simp add: k30 k40)
  have f: "(40::nat) \<in> set (allFiles ?t)" by simp
  have same: "mset (map (pathOf (heap ex_build)) [50]) + {#pathOf (heap ex_build) 40#} =
               mset (map (pathOf (heap ex_build)) (allFiles ?t))" by (simp add: k30 k40 k50)
  have up: "parentChain (heap ex_build) 40 (20 # [] @ 10 # [])"
    by (simp add: h10 h20 h40 mkNode_def)
  have pd: "m_fileNodes ?pd = [40]" "m_folderNodes ?pd = []" by (simp_all add: mkNode_def)
  have sole: "soleFolderChild (heap ex_build) 20 []" by simp
  have lastin: "last (20 # []) \<in> set (m_folderNodes ?gd)" by (simp add: mkNode_def)
  have dist: "distinct (40 # 20 # [] @ 10 # ([]::nat list))" by simp
  have nthis: "(10::nat) \<notin> set (40 # 20 # [])" by simp
  have m20: "isManaged (heap ex_build) 20" by code_simp
  have m10: "isManaged (heap ex_build) 10" by code_simp
  have mg: "\<forall>x \<in> set (20 # [] @ [10]). isManaged (heap ex_build) x" using m20 m10 by simp
  have newd: "distinct [50::nat]" by simp
  have newl: "\<forall>x \<in> set [50]. heap ex_build x \<noteq> None" by (simp add: h50)
  have new: "set [50] \<inter> set (10 # 40 # 20 # [] @ 10 # ([]::nat list)) = {}" by simp
  have stop: "(10::nat) = 10 \<or> m_fileNodes ?gd \<noteq> [] \<or>
               remove1 (last (20 # [])) (m_folderNodes ?gd) \<noteq> []" by simp
  from buildTree_removes_empty_chain[OF ex_env_ok tr ht len dp f same up h20 pd sole h10 lastin
    dist nthis mg newd newl new stop, of "[]" "[100, 101, 102]"]
  obtain s' where run: "?B = Inr s'" and
    r: "heap s' 40 = None" "heap s' 20 = None" "heap s' 50 = None"
    "heap s' 10 = Some (mkNode Project ''/p'' True None [30] [] [])"
    "heap s' 30 = heap ex_build 30"
    by (auto simp: mkNode_def)
  from run have b: "\<not> isl ?B" "projr ?B = s'" by simp_all
  from tr k30 k50 h20 m20 m10 b(1) r show ?thesis unfolding b(2) by simp
qed


end
